(* ===== verification/Prelude.thy ===== *)
theory Prelude
  imports Main "HOL-Library.Word" "HOL-Library.Sublist"
begin

text \<open>
  Shared vocabulary of the development: the machine integers and characters the C++ code
  uses, the error codes of the NNG library the code tests for, the lemma collections, and
  generic lemmas on lists, strings and words that the component theories share.
\<close>

section \<open>Lemma collections\<close>

named_theorems msg_simps \<open>equations of the message format: lines, start-lines, headers\<close>
named_theorems word_conv \<open>reading back fixed-width fields that cannot wrap\<close>
named_theorems queue_simps \<open>unfolding the queue operations\<close>
named_theorems step_simps \<open>unfolding the callbacks and handlers of a component\<close>

section \<open>Machine integers and characters\<close>

type_synonym u8 = "8 word"
type_synonym u16 = "16 word"
type_synonym u32 = "32 word"

abbreviation LF :: char where "LF \<equiv> CHR 0x0A"
abbreviation CR :: char where "CR \<equiv> CHR 0x0D"
abbreviation TAB :: char where "TAB \<equiv> CHR 0x09"
abbreviation SP :: char where "SP \<equiv> CHR '' ''"
abbreviation SLASH :: char where "SLASH \<equiv> CHR ''/''"
abbreviation COLON :: char where "COLON \<equiv> CHR '':''"

text \<open>
  A \<open>char\<close> converted to a 32-bit unsigned integer: \<open>char\<close> is signed on the targets of the
  library, so the conversion extends the sign.
\<close>

definition char_u32 :: "char \<Rightarrow> u32" where
  "char_u32 c = (let n = of_char c :: nat in if n < 128 then of_nat n else of_int (int n - 256))"

text \<open>The value of an \<open>int\<close> expression converted to the 64-bit \<open>size_t\<close>.\<close>

definition to_size_t :: "int \<Rightarrow> nat" where
  "to_size_t x = nat (x mod 2 ^ 64)"

lemma to_size_t_id [word_conv]: "0 \<le> x \<Longrightarrow> x < 2 ^ 64 \<Longrightarrow> to_size_t x = nat x"
  by (simp add: to_size_t_def)

lemma unat_of_nat_u8 [word_conv]: "n < 256 \<Longrightarrow> unat (of_nat n :: u8) = n"
  by (simp add: unat_of_nat)

lemma unat_of_nat_u16 [word_conv]: "n < 65536 \<Longrightarrow> unat (of_nat n :: u16) = n"
  by (simp add: unat_of_nat)

lemma unat_u8_bound [simp]: "unat (x :: u8) < 256"
  using unsigned_less [of x] by simp

lemma unat_u16_bound [simp]: "unat (x :: u16) < 65536"
  using unsigned_less [of x] by simp

section \<open>Error codes of the message-passing library\<close>

text \<open>
  The enumerators of \<open>nng::error\<close> that the code distinguishes; every other code of the
  library is \<open>nng_other\<close>.
\<close>

datatype nng_error =
    nng_success | nng_canceled | nng_timedout | nng_closed | nng_busy | nng_exist
  | nng_state | nng_inval | nng_internal | nng_perm | nng_addrinuse | nng_addrinval
  | nng_connaborted | nng_connreset | nng_connshut | nng_nospc | nng_other nat

text \<open>A message of the library: the protocol header it routes by, and the body.\<close>

record nng_msg =
  m_header :: string
  m_body :: string

section \<open>Lists and strings\<close>

lemma takeWhile_append_stop [simp]:
  "\<forall>x \<in> set xs. P x \<Longrightarrow> \<not> P y \<Longrightarrow> takeWhile P (xs @ y # ys) = xs"
  by (induction xs) auto

lemma dropWhile_append_stop [simp]:
  "\<forall>x \<in> set xs. P x \<Longrightarrow> \<not> P y \<Longrightarrow> dropWhile P (xs @ y # ys) = y # ys"
  by (induction xs) auto

lemma takeWhile_all [simp]: "\<forall>x \<in> set xs. P x \<Longrightarrow> takeWhile P xs = xs"
  by (induction xs) auto

lemma take_drop_slice [msg_simps]: "take (length b) (drop (length a) (a @ b @ c)) = b"
  by simp

lemma length_dropWhile_less: "P x \<Longrightarrow> length (dropWhile P xs) < length (x # xs)"
  using length_dropWhile_le [of P xs] by simp

end
