(* ===== verification/Decimal.thy ===== *)
theory Decimal
  imports Prelude
begin

text \<open>
  Decimal text, shared by the status line, the port numbers of TCP addresses and the
  \<open>Content-Length\<close> header: one digit as a character, the decimal representation of a number,
  and the value of a string of digits.
\<close>

definition digit_char :: "nat \<Rightarrow> char" where
  "digit_char d = char_of (48 + d)"

definition digit_val :: "char \<Rightarrow> nat" where
  "digit_val c = of_char c - 48"

definition is_digit :: "char \<Rightarrow> bool" where
  "is_digit c \<longleftrightarrow> 48 \<le> (of_char c :: nat) \<and> (of_char c :: nat) \<le> 57"

fun dec_string :: "nat \<Rightarrow> string" where
  "dec_string n = (if n < 10 then [digit_char n] else dec_string (n div 10) @ [digit_char (n mod 10)])"

declare dec_string.simps [simp del]

definition dec_value :: "string \<Rightarrow> nat" where
  "dec_value s = foldl (\<lambda>n c. 10 * n + digit_val c) 0 s"

lemma of_char_digit_char [simp]: "d < 10 \<Longrightarrow> (of_char (digit_char d) :: nat) = 48 + d"
  by (simp add: digit_char_def)

lemma is_digit_digit_char [simp]: "d < 10 \<Longrightarrow> is_digit (digit_char d)"
  by (simp add: is_digit_def)

lemma digit_val_digit_char [simp]: "d < 10 \<Longrightarrow> digit_val (digit_char d) = d"
  by (simp add: digit_val_def)

lemma digit_val_less: "is_digit c \<Longrightarrow> digit_val c < 10"
  by (auto simp: digit_val_def is_digit_def)

lemma digit_char_neq:
  assumes "d < 10"
  shows "digit_char d \<noteq> CHR ''-''" "digit_char d \<noteq> CHR ''+''" "digit_char d \<noteq> SP"
    "digit_char d \<noteq> TAB" "digit_char d \<noteq> CR" "digit_char d \<noteq> LF" "digit_char d \<noteq> COLON"
proof -
  have "(of_char (digit_char d) :: nat) \<ge> 48" "(of_char (digit_char d) :: nat) \<le> 57"
    using assms by simp_all
  then show "digit_char d \<noteq> CHR ''-''" "digit_char d \<noteq> CHR ''+''" "digit_char d \<noteq> SP"
    "digit_char d \<noteq> TAB" "digit_char d \<noteq> CR" "digit_char d \<noteq> LF" "digit_char d \<noteq> COLON"
    by auto
qed

lemma dec_string_small [simp]: "n < 10 \<Longrightarrow> dec_string n = [digit_char n]"
  by (simp add: dec_string.simps)

lemma dec_string_step: "\<not> n < 10 \<Longrightarrow> dec_string n = dec_string (n div 10) @ [digit_char (n mod 10)]"
  by (subst dec_string.simps) simp

lemma dec_string_nonempty [simp]: "dec_string n \<noteq> []"
  by (cases "n < 10") (simp_all add: dec_string_step)

lemma dec_string_digit: "c \<in> set (dec_string n) \<Longrightarrow> \<exists>d < 10. c = digit_char d"
proof (induction n rule: dec_string.induct)
  case (1 n)
  show ?case
  proof (cases "n < 10")
    case True
    with "1.prems" show ?thesis by auto
  next
    case False
    with "1.prems" consider "c \<in> set (dec_string (n div 10))" | "c = digit_char (n mod 10)"
      by (auto simp: dec_string_step)
    then show ?thesis
    proof cases
      case 1
      with "1.IH" False show ?thesis by blast
    next
      case 2
      then show ?thesis by (intro exI [of _ "n mod 10"]) simp
    qed
  qed
qed

lemma dec_string_is_digit: "\<forall>c \<in> set (dec_string n). is_digit c"
  using dec_string_digit by force

lemma dec_value_snoc [simp]: "dec_value (s @ [c]) = 10 * dec_value s + digit_val c"
  by (simp add: dec_value_def)

lemma dec_value_dec_string: "dec_value (dec_string n) = n"
proof (induction n rule: dec_string.induct)
  case (1 n)
  then show ?case
  proof (cases "n < 10")
    case True
    then show ?thesis by (simp add: dec_value_def)
  next
    case False
    with "1" show ?thesis by (simp add: dec_string_step)
  qed
qed

lemma length_dec_string_mono: "m \<le> n \<Longrightarrow> length (dec_string m) \<le> length (dec_string n)"
proof (induction n arbitrary: m rule: dec_string.induct)
  case (1 n)
  show ?case
  proof (cases "n < 10")
    case True
    with "1.prems" show ?thesis by simp
  next
    case False
    show ?thesis
    proof (cases "m < 10")
      case True
      then show ?thesis by (simp add: Suc_leI)
    next
      case m: False
      have "m div 10 \<le> n div 10" using "1.prems" by (rule div_le_mono)
      then have "length (dec_string (m div 10)) \<le> length (dec_string (n div 10))"
        using "1.IH" False by simp
      with False m show ?thesis by (simp add: dec_string_step)
    qed
  qed
qed

end
