(* ===== verification/Http_Status.thy ===== *)
theory Http_Status
  imports Decimal
begin

text \<open>
  Status codes: \<open>include/telling/util/HttpStatusCodes_C++11.h\<close> (the enumeration, its numeric
  values, the categories, the standard reason phrases) and \<open>include/telling/msg_status.h\<close>
  (class \<open>Status\<close>: conversion to and from the three-digit form on the wire). A C++ \<open>enum class\<close>
  of underlying type \<open>int\<close> holds any \<open>int\<close>, and \<open>Status::Parse\<close> makes such values, so a status is
  the integer it holds, and \<open>Code\<close> tabulates the enumerators.
\<close>

section \<open>The enumeration\<close>

type_synonym StatusCode = int
type_synonym Status = StatusCode

text \<open>The enumerators with their values, in the order of the source.\<close>

definition Code :: "(string \<times> StatusCode) list" where
  "Code =
    [(''Continue'', 100), (''SwitchingProtocols'', 101),
     (''Processing'', 102), (''EarlyHints'', 103),
     (''OK'', 200), (''Created'', 201),
     (''Accepted'', 202), (''NonAuthoritativeInformation'', 203),
     (''NoContent'', 204), (''ResetContent'', 205),
     (''PartialContent'', 206), (''MultiStatus'', 207),
     (''AlreadyReported'', 208), (''IMUsed'', 226),
     (''MultipleChoices'', 300), (''MovedPermanently'', 301),
     (''Found'', 302), (''SeeOther'', 303),
     (''NotModified'', 304), (''UseProxy'', 305),
     (''TemporaryRedirect'', 307), (''PermanentRedirect'', 308),
     (''BadRequest'', 400), (''Unauthorized'', 401),
     (''PaymentRequired'', 402), (''Forbidden'', 403),
     (''NotFound'', 404), (''MethodNotAllowed'', 405),
     (''NotAcceptable'', 406), (''ProxyAuthenticationRequired'', 407),
     (''RequestTimeout'', 408), (''Conflict'', 409),
     (''Gone'', 410), (''LengthRequired'', 411),
     (''PreconditionFailed'', 412), (''PayloadTooLarge'', 413),
     (''URITooLong'', 414), (''UnsupportedMediaType'', 415),
     (''RangeNotSatisfiable'', 416), (''ExpectationFailed'', 417),
     (''ImATeapot'', 418), (''UnprocessableEntity'', 422),
     (''Locked'', 423), (''FailedDependency'', 424),
     (''UpgradeRequired'', 426), (''PreconditionRequired'', 428),
     (''TooManyRequests'', 429), (''RequestHeaderFieldsTooLarge'', 431),
     (''UnavailableForLegalReasons'', 451), (''InternalServerError'', 500),
     (''NotImplemented'', 501), (''BadGateway'', 502),
     (''ServiceUnavailable'', 503), (''GatewayTimeout'', 504),
     (''HTTPVersionNotSupported'', 505), (''VariantAlsoNegotiates'', 506),
     (''InsufficientStorage'', 507), (''LoopDetected'', 508),
     (''NotExtended'', 510), (''NetworkAuthenticationRequired'', 511)]"

text \<open>The enumerators the rest of the code names.\<close>

abbreviation OK :: StatusCode where "OK \<equiv> 200"
abbreviation Created :: StatusCode where "Created \<equiv> 201"
abbreviation BadRequest :: StatusCode where "BadRequest \<equiv> 400"
abbreviation Unauthorized :: StatusCode where "Unauthorized \<equiv> 401"
abbreviation NotFound :: StatusCode where "NotFound \<equiv> 404"
abbreviation Conflict :: StatusCode where "Conflict \<equiv> 409"
abbreviation Gone :: StatusCode where "Gone \<equiv> 410"
abbreviation URITooLong :: StatusCode where "URITooLong \<equiv> 414"
abbreviation RequestHeaderFieldsTooLarge :: StatusCode where "RequestHeaderFieldsTooLarge \<equiv> 431"
abbreviation InternalServerError :: StatusCode where "InternalServerError \<equiv> 500"
abbreviation NotImplemented :: StatusCode where "NotImplemented \<equiv> 501"
abbreviation BadGateway :: StatusCode where "BadGateway \<equiv> 502"
abbreviation ServiceUnavailable :: StatusCode where "ServiceUnavailable \<equiv> 503"
abbreviation HTTPVersionNotSupported :: StatusCode where "HTTPVersionNotSupported \<equiv> 505"

section \<open>Categories and reason phrases\<close>

definition isInformational :: "Status \<Rightarrow> bool" where
  "isInformational code \<longleftrightarrow> code \<ge> 100 \<and> code < 200"

definition isSuccessful :: "Status \<Rightarrow> bool" where
  "isSuccessful code \<longleftrightarrow> code \<ge> 200 \<and> code < 300"

definition isRedirection :: "Status \<Rightarrow> bool" where
  "isRedirection code \<longleftrightarrow> code \<ge> 300 \<and> code < 400"

definition isClientError :: "Status \<Rightarrow> bool" where
  "isClientError code \<longleftrightarrow> code \<ge> 400 \<and> code < 500"

definition isServerError :: "Status \<Rightarrow> bool" where
  "isServerError code \<longleftrightarrow> code \<ge> 500 \<and> code < 600"

definition isError :: "Status \<Rightarrow> bool" where
  "isError code \<longleftrightarrow> code \<ge> 400"

definition http_reasonPhrase :: "StatusCode \<Rightarrow> string" where
  "http_reasonPhrase code =
    (if code = 100 then ''Continue''
     else if code = 101 then ''Switching Protocols''
     else if code = 102 then ''Processing''
     else if code = 103 then ''Early Hints''
     else if code = 200 then ''OK''
     else if code = 201 then ''Created''
     else if code = 202 then ''Accepted''
     else if code = 203 then ''Non-Authoritative Information''
     else if code = 204 then ''No Content''
     else if code = 205 then ''Reset Content''
     else if code = 206 then ''Partial Content''
     else if code = 207 then ''Multi-Status''
     else if code = 208 then ''Already Reported''
     else if code = 226 then ''IM Used''
     else if code = 300 then ''Multiple Choices''
     else if code = 301 then ''Moved Permanently''
     else if code = 302 then ''Found''
     else if code = 303 then ''See Other''
     else if code = 304 then ''Not Modified''
     else if code = 305 then ''Use Proxy''
     else if code = 307 then ''Temporary Redirect''
     else if code = 308 then ''Permanent Redirect''
     else if code = 400 then ''Bad Request''
     else if code = 401 then ''Unauthorized''
     else if code = 402 then ''Payment Required''
     else if code = 403 then ''Forbidden''
     else if code = 404 then ''Not Found''
     else if code = 405 then ''Method Not Allowed''
     else if code = 406 then ''Not Acceptable''
     else if code = 407 then ''Proxy Authentication Required''
     else if code = 408 then ''Request Timeout''
     else if code = 409 then ''Conflict''
     else if code = 410 then ''Gone''
     else if code = 411 then ''Length Required''
     else if code = 412 then ''Precondition Failed''
     else if code = 413 then ''Payload Too Large''
     else if code = 414 then ''URI Too Long''
     else if code = 415 then ''Unsupported Media Type''
     else if code = 416 then ''Range Not Satisfiable''
     else if code = 417 then ''Expectation Failed''
     else if code = 418 then ''I'' @ [CHR 0x27] @ ''m a teapot''
     else if code = 422 then ''Unprocessable Entity''
     else if code = 423 then ''Locked''
     else if code = 424 then ''Failed Dependency''
     else if code = 426 then ''Upgrade Required''
     else if code = 428 then ''Precondition Required''
     else if code = 429 then ''Too Many Requests''
     else if code = 431 then ''Request Header Fields Too Large''
     else if code = 451 then ''Unavailable For Legal Reasons''
     else if code = 500 then ''Internal Server Error''
     else if code = 501 then ''Not Implemented''
     else if code = 502 then ''Bad Gateway''
     else if code = 503 then ''Service Unavailable''
     else if code = 504 then ''Gateway Time-out''
     else if code = 505 then ''HTTP Version Not Supported''
     else if code = 506 then ''Variant Also Negotiates''
     else if code = 507 then ''Insufficient Storage''
     else if code = 508 then ''Loop Detected''
     else if code = 510 then ''Not Extended''
     else if code = 511 then ''Network Authentication Required''
     else [])"

section \<open>Class Status\<close>

definition status_valid :: "Status \<Rightarrow> bool" where
  "status_valid s \<longleftrightarrow> s > 0"

definition reasonPhrase :: "Status \<Rightarrow> string" where
  "reasonPhrase s =
    (let rp = http_reasonPhrase s in if length rp = 0 then ''(Undefined Status)'' else rp)"

text \<open>
  The remainder and quotient are taken of a positive number only, where C++ and HOL agree.
\<close>

definition status_toString :: "Status \<Rightarrow> string" where
  "status_toString n =
    (if n \<le> 0 \<or> n > 999 then ''N/A''
     else [digit_char (nat n div 100 mod 10), digit_char (nat n div 10 mod 10),
           digit_char (nat n mod 10)])"

definition status_Parse :: "string \<Rightarrow> Status" where
  "status_Parse s =
    (if length s \<noteq> 3 \<or> \<not> is_digit (s ! 0) \<or> \<not> is_digit (s ! 1) \<or> \<not> is_digit (s ! 2) then 0
     else int (digit_val (s ! 2)) + 10 * int (digit_val (s ! 1)) + 100 * int (digit_val (s ! 0)))"

section \<open>Lemmas\<close>

lemma length_status_toString [simp]: "length (status_toString n) = 3"
  by (simp add: status_toString_def)

lemma three_digits:
  assumes "n < 1000"
  shows "n mod 10 + 10 * (n div 10 mod 10) + 100 * (n div 100 mod 10) = (n::nat)"
proof -
  have "n div 100 = n div 10 div 10"
    by (simp add: div_mult2_eq [symmetric])
  moreover have "n div 100 mod 10 = n div 100"
    using assms by simp
  moreover have "n div 10 = 10 * (n div 10 div 10) + n div 10 mod 10" "n = 10 * (n div 10) + n mod 10"
    by simp_all
  ultimately show ?thesis
    by linarith
qed

lemma status_Parse_digits:
  assumes "a < 10" and "b < 10" and "c < 10"
  shows "status_Parse [digit_char a, digit_char b, digit_char c] = int (c + 10 * b + 100 * a)"
  using assms by (simp add: status_Parse_def)

lemma status_Parse_toString:
  assumes "0 < n" and "n \<le> 999"
  shows "status_Parse (status_toString n) = n"
proof -
  have "status_toString n = [digit_char (nat n div 100 mod 10), digit_char (nat n div 10 mod 10),
      digit_char (nat n mod 10)]"
    using assms unfolding status_toString_def by auto
  moreover have "nat n mod 10 + 10 * (nat n div 10 mod 10) + 100 * (nat n div 100 mod 10) = nat n"
    using assms by (intro three_digits) simp
  ultimately show ?thesis
    using assms by (simp only: status_Parse_digits mod_less_divisor zero_less_numeral) simp
qed

lemma status_Parse_range: "0 \<le> status_Parse s \<and> status_Parse s \<le> 999"
proof (cases "length s \<noteq> 3 \<or> \<not> is_digit (s ! 0) \<or> \<not> is_digit (s ! 1) \<or> \<not> is_digit (s ! 2)")
  case True
  then show ?thesis unfolding status_Parse_def by simp
next
  case False
  then have "digit_val (s ! 0) < 10" "digit_val (s ! 1) < 10" "digit_val (s ! 2) < 10"
    by (simp_all add: digit_val_less)
  with False show ?thesis unfolding status_Parse_def by simp
qed

section \<open>Properties\<close>

text \<open>
  Status codes and their three digits: every status from 1 to 999 survives printing and parsing,
  printing always gives three characters, and parsing always gives a number between 0 and 999.
\<close>

theorem status_text_roundtrip:
  "(0 < n \<and> n \<le> 999 \<longrightarrow> status_Parse (status_toString n) = n) \<and> length (status_toString n) = 3 \<and>
    0 \<le> status_Parse s \<and> status_Parse s \<le> 999"
  using status_Parse_toString status_Parse_range by simp

theorem status_text_roundtrip_witness: "status_Parse (status_toString NotFound) = NotFound"
  using status_text_roundtrip [of NotFound] by simp

end
