(* ===== verification/Msg_Util.thy ===== *)
theory Msg_Util
  imports Http_Status
begin

unbundle bit_operations_syntax

text \<open>
  Parsing utilities and exceptions: \<open>include/telling/msg_util.h\<close>. The exception classes become
  one datatype of error values; the pointer-advancing helpers become functions from the rest of
  the input to the consumed text and what follows it.
\<close>

section \<open>Exceptions\<close>

datatype MSG_ERROR =
    SUCCESS | HEADER_INCOMPLETE | HEADER_MALFORMED | HEADER_TOO_BIG | START_LINE_MALFORMED
  | ALREADY_WRITTEN | UNKNOWN_PROTOCOL

text \<open>
  \<open>MsgExn\<close> is \<open>MsgException\<close> (error and excerpt), \<open>StatusExn\<close> stands for \<open>StatusException\<close> and the
  templates \<open>status_exceptions::Err_\<close> (status and message), \<open>NngExn\<close> is \<open>nng::exception\<close> (code and
  source), \<open>StdExn\<close> any other \<open>std::exception\<close>. \<open>Undefined\<close> marks a use of a null message, which has
  no defined behaviour in C++, and \<open>Terminate\<close> the end of the program when an exception leaves a
  \<open>noexcept\<close> function.
\<close>

datatype exn =
    MsgExn MSG_ERROR string
  | StatusExn Status string
  | NngExn nng_error string
  | StdExn string
  | Undefined string
  | Terminate

type_synonym 'a result = "exn + 'a"

text \<open>
  An operation on an object of type \<open>'s\<close> that may throw gives its result or the exception, and the
  object as it is afterwards in both cases. \<open>ebind\<close> is sequencing: an exception skips the rest.
\<close>

definition ebind :: "('s \<Rightarrow> 'a result \<times> 's) \<Rightarrow> ('a \<Rightarrow> 's \<Rightarrow> 'b result \<times> 's) \<Rightarrow> 's \<Rightarrow> 'b result \<times> 's" where
  "ebind f g s = (case f s of (Inl e, s') \<Rightarrow> (Inl e, s') | (Inr a, s') \<Rightarrow> g a s')"

lemma ebind_simps [simp]:
  "f s = (Inl e, s') \<Longrightarrow> ebind f g s = (Inl e, s')"
  "f s = (Inr a, s') \<Longrightarrow> ebind f g s = g a s'"
  by (simp_all add: ebind_def)

definition err_default :: "Status \<Rightarrow> exn" where
  "err_default code = StatusExn code (reasonPhrase code)"

definition msg_what :: "MSG_ERROR \<Rightarrow> string" where
  "msg_what e = (case e of
      SUCCESS \<Rightarrow> ''The message was parsed successfully.''
    | HEADER_INCOMPLETE \<Rightarrow> ''The message'' @ [CHR 0x27] @ ''s header is incomplete.''
    | HEADER_MALFORMED \<Rightarrow> ''The message contains a malformed header.''
    | HEADER_TOO_BIG \<Rightarrow> ''The message header is too large (>64KiB).''
    | START_LINE_MALFORMED \<Rightarrow> ''The message'' @ [CHR 0x27] @ ''s start line is malformed.''
    | ALREADY_WRITTEN \<Rightarrow> ''The message'' @ [CHR 0x27] @ ''s header has already been written.''
    | UNKNOWN_PROTOCOL \<Rightarrow> ''The protocol is not supported.'')"

definition msg_replyStatus :: "MSG_ERROR \<Rightarrow> Status" where
  "msg_replyStatus e = (case e of
      SUCCESS \<Rightarrow> OK
    | ALREADY_WRITTEN \<Rightarrow> InternalServerError
    | HEADER_TOO_BIG \<Rightarrow> RequestHeaderFieldsTooLarge
    | UNKNOWN_PROTOCOL \<Rightarrow> HTTPVersionNotSupported
    | _ \<Rightarrow> BadRequest)"

section \<open>Lines\<close>

text \<open>
  \<open>ConsumeLine s\<close> is the line at the start of \<open>s\<close>, without its end-of-line, and the input after
  the end-of-line; line feed, carriage return and the two together end a line.
\<close>

fun ConsumeLine :: "string \<Rightarrow> string \<times> string" where
  "ConsumeLine [] = ([], [])"
| "ConsumeLine (c # cs) =
    (if c = LF then ([], cs)
     else if c = CR then ([], case cs of [] \<Rightarrow> [] | d # ds \<Rightarrow> if d = LF then ds else cs)
     else let (line, rest) = ConsumeLine cs in (c # line, rest))"

section \<open>Words\<close>

definition IsWhitespace :: "u32 \<Rightarrow> bool" where
  "IsWhitespace cp = (let cp = cp - 1 in
    (of_bool (cp \<le> 31) AND drop_bit (unat cp) (0x80001F00 :: u32)) \<noteq> 0)"

fun ConsumeWhitespace :: "string \<Rightarrow> string" where
  "ConsumeWhitespace [] = []"
| "ConsumeWhitespace (c # cs) = (if IsWhitespace (char_u32 c) then ConsumeWhitespace cs else c # cs)"

fun ConsumeWord_loop :: "string \<Rightarrow> string \<times> string" where
  "ConsumeWord_loop [] = ([], [])"
| "ConsumeWord_loop (c # cs) =
    (if IsWhitespace (char_u32 c) then ([], c # cs)
     else let (w, rest) = ConsumeWord_loop cs in (c # w, rest))"

definition ConsumeWord :: "string \<Rightarrow> string \<times> string" where
  "ConsumeWord s = ConsumeWord_loop (ConsumeWhitespace s)"

section \<open>Lemmas\<close>

definition no_newline :: "string \<Rightarrow> bool" where
  "no_newline s \<longleftrightarrow> LF \<notin> set s \<and> CR \<notin> set s"

lemma no_newline_simps [simp]:
  "no_newline []"
  "no_newline (c # s) \<longleftrightarrow> c \<noteq> LF \<and> c \<noteq> CR \<and> no_newline s"
  "no_newline (s @ t) \<longleftrightarrow> no_newline s \<and> no_newline t"
  by (auto simp: no_newline_def)

lemma ConsumeLine_LF [msg_simps]: "no_newline l \<Longrightarrow> ConsumeLine (l @ LF # r) = (l, r)"
  by (induction l) auto

lemma ConsumeLine_CRLF [msg_simps]: "no_newline l \<Longrightarrow> ConsumeLine (l @ CR # LF # r) = (l, r)"
  by (induction l) auto

lemma ConsumeLine_end [msg_simps]: "no_newline l \<Longrightarrow> ConsumeLine l = (l, [])"
  by (induction l) auto

text \<open>Lines with their end-of-line, one after the other.\<close>

definition join_lines :: "string \<Rightarrow> string list \<Rightarrow> string" where
  "join_lines nl ls = concat (map (\<lambda>l. l @ nl) ls)"

lemma join_lines_simps [simp]:
  "join_lines nl [] = []"
  "join_lines nl (l # ls) = l @ nl @ join_lines nl ls"
  "join_lines nl (ls @ ks) = join_lines nl ls @ join_lines nl ks"
  by (simp_all add: join_lines_def)

abbreviation is_nl :: "string \<Rightarrow> bool" where
  "is_nl nl \<equiv> nl = [LF] \<or> nl = [CR, LF]"

lemma ConsumeLine_nl: "is_nl nl \<Longrightarrow> no_newline l \<Longrightarrow> ConsumeLine (l @ nl @ r) = (l, r)"
  by (auto simp: ConsumeLine_LF ConsumeLine_CRLF)

lemma ConsumeLine_decomp:
  "ConsumeLine s = (l, r) \<Longrightarrow> no_newline l \<and>
    (s = l @ LF # r \<or> s = l @ CR # LF # r \<or> (s = l @ CR # r \<and> (r = [] \<or> hd r \<noteq> LF)) \<or> (s = l \<and> r = []))"
proof (induction s arbitrary: l)
  case Nil
  then show ?case by simp
next
  case (Cons c cs)
  show ?case
  proof (cases "c = LF \<or> c = CR")
    case True
    with Cons.prems show ?thesis by (auto split: list.splits if_splits)
  next
    case False
    with Cons.prems obtain l' where l': "ConsumeLine cs = (l', r)" and l: "l = c # l'"
      by (auto split: prod.splits)
    from Cons.IH [OF l'] False show ?thesis unfolding l by auto
  qed
qed

lemma ConsumeLine_cases:
  assumes "ConsumeLine s = (l, r)"
  obtains (LF) "no_newline l" "s = l @ LF # r" | (CRLF) "no_newline l" "s = l @ CR # LF # r"
  | (CR) "no_newline l" "s = l @ CR # r" "r = [] \<or> hd r \<noteq> LF" | (All) "no_newline l" "s = l" "r = []"
  using ConsumeLine_decomp [OF assms] by blast

lemma ConsumeLine_shorter: "ConsumeLine s = (l, r) \<Longrightarrow> s \<noteq> [] \<Longrightarrow> length r < length s"
  by (erule ConsumeLine_cases) simp_all

lemma ConsumeLine_line_shorter: "ConsumeLine s = (l, r) \<Longrightarrow> l \<noteq> [] \<Longrightarrow> length r < length s"
  by (cases "s = []") (simp, erule (1) ConsumeLine_shorter)

lemma ConsumeLine_le: "ConsumeLine s = (l, r) \<Longrightarrow> length l + length r \<le> length s"
  by (erule ConsumeLine_cases) simp_all

lemma whitespace_bits_all:
  "list_all (\<lambda>k. bit (0x80001F00 :: u32) k = (k \<in> {8, 9, 10, 11, 12, 31})) [0..<32]"
  by code_simp

lemma whitespace_bits:
  assumes "k < 32"
  shows "bit (0x80001F00 :: u32) k \<longleftrightarrow> k \<in> {8, 9, 10, 11, 12, 31}"
proof -
  have "k \<in> set [0..<32]"
    using assms by (simp only: set_upt atLeastLessThan_iff le0 simp_thms)
  with whitespace_bits_all show ?thesis unfolding list_all_iff by (rule bspec)
qed

lemma mask_bit_test: "of_bool b AND drop_bit n (W :: u32) \<noteq> 0 \<longleftrightarrow> b \<and> bit W n"
  by (cases b) (simp_all add: one_and_eq bit_iff_odd_drop_bit mod_2_eq_odd)

lemma IsWhitespace_bit: "IsWhitespace cp \<longleftrightarrow> unat (cp - 1) < 32 \<and> bit (0x80001F00 :: u32) (unat (cp - 1))"
proof -
  have "cp - 1 \<le> 31 \<longleftrightarrow> unat (cp - 1) < 32"
    by (auto simp: word_le_nat_alt)
  then show ?thesis
    by (simp only: IsWhitespace_def Let_def mask_bit_test)
qed

lemma unat_minus_one: "cp \<noteq> 0 \<Longrightarrow> unat (cp - 1 :: u32) = unat cp - 1"
  using unat_sub [of 1 cp] unat_eq_zero [of cp] by (simp add: word_le_nat_alt Suc_le_eq)

lemma unat_plus_one_small: "unat cp + 1 < 2 ^ 32 \<Longrightarrow> unat (cp + 1 :: u32) = unat cp + 1"
  by (simp add: unat_word_ariths)

lemma IsWhitespace_iff: "IsWhitespace cp \<longleftrightarrow> unat cp \<in> {9, 10, 11, 12, 13, 32}"
proof (cases "cp = 0")
  case True
  have "unat (0 - 1 :: u32) = 2 ^ 32 - 1"
    by (simp add: unsigned_minus_1_eq_mask mask_eq_exp_minus_1)
  with True show ?thesis by (simp add: IsWhitespace_bit)
next
  case False
  then have pos: "unat cp \<noteq> 0" by (simp add: unat_eq_zero)
  show ?thesis
  proof (cases "unat cp - 1 < 32")
    case True
    with False pos show ?thesis
      unfolding IsWhitespace_bit unat_minus_one [OF False] whitespace_bits [OF True] by auto
  next
    case small: False
    with False show ?thesis
      unfolding IsWhitespace_bit unat_minus_one [OF False] by auto
  qed
qed

lemma char_u32_ascii: "of_char c < (128 :: nat) \<Longrightarrow> unat (char_u32 c) = of_char c"
  by (simp add: char_u32_def Let_def unat_of_nat)

lemma char_u32_high:
  assumes "\<not> of_char c < (128 :: nat)"
  shows "unat (char_u32 c) \<ge> 128"
proof -
  define n where "n = (of_char c :: nat)"
  have n: "128 \<le> n" "n < 256" using assms by (simp_all add: n_def)
  have "(int n - 256) mod 2 ^ 32 = (int n - 256 + 2 ^ 32) mod 2 ^ 32"
    by (simp only: mod_add_self2)
  also have "\<dots> = int n - 256 + 2 ^ 32"
    using n by (intro mod_pos_pos_trivial) simp_all
  finally have "(int n - 256) mod 2 ^ 32 = int n - 256 + 2 ^ 32" .
  moreover have "char_u32 c = word_of_int (int n - 256)"
    using assms by (simp add: char_u32_def n_def Let_def)
  ultimately have "uint (char_u32 c) = int n - 256 + 2 ^ 32"
    by (simp only: uint_word_of_int len_bit0 len_num1 mult_2 take_bit_eq_mod) simp
  then have "int (unat (char_u32 c)) = int n - 256 + 2 ^ 32"
    by simp
  also have "int 128 \<le> \<dots>" by simp
  finally show ?thesis by (simp only: of_nat_le_iff)
qed

lemma IsWhitespace_char_iff:
  "IsWhitespace (char_u32 c) \<longleftrightarrow> c \<in> {CHR 0x09, CHR 0x0A, CHR 0x0B, CHR 0x0C, CHR 0x0D, CHR 0x20}"
proof (cases "of_char c < (128 :: nat)")
  case True
  have "c \<in> {CHR 0x09, CHR 0x0A, CHR 0x0B, CHR 0x0C, CHR 0x0D, CHR 0x20} \<longleftrightarrow>
      (of_char c :: nat) \<in> of_char ` {CHR 0x09, CHR 0x0A, CHR 0x0B, CHR 0x0C, CHR 0x0D, CHR 0x20}"
    by (simp only: inj_image_mem_iff [OF inj_of_char])
  with True show ?thesis by (simp add: IsWhitespace_iff char_u32_ascii)
next
  case False
  then have "c \<notin> {CHR 0x09, CHR 0x0A, CHR 0x0B, CHR 0x0C, CHR 0x0D, CHR 0x20}" by auto
  with char_u32_high [OF False] show ?thesis by (auto simp: IsWhitespace_iff)
qed

section \<open>Properties\<close>

text \<open>
  The bit trick of \<open>IsWhitespace\<close>: a character, extended to 32 bits with its sign, is white space
  exactly when it is a tab, a line feed, a vertical tab, a form feed, a carriage return or a space.
\<close>

theorem IsWhitespace_exact:
  "IsWhitespace (char_u32 c) \<longleftrightarrow> c \<in> {CHR 0x09, CHR 0x0A, CHR 0x0B, CHR 0x0C, CHR 0x0D, CHR 0x20}"
  by (rule IsWhitespace_char_iff)

text \<open>
  Consuming a line splits the input at its first end-of-line: the line has no line break, and what
  was consumed is the line followed by LF, CR LF or CR, or the whole input.
\<close>

theorem ConsumeLine_splits:
  assumes "ConsumeLine s = (line, rest)"
  shows "no_newline line \<and> (\<exists>eol \<in> {[], [LF], [CR, LF], [CR]}. s = line @ eol @ rest \<and> (eol = [] \<longrightarrow> rest = []) \<and>
    (eol = [CR] \<longrightarrow> \<not> prefix [LF] rest))"
  using assms by (cases rule: ConsumeLine_cases) (auto simp: prefix_def)

theorem ConsumeLine_splits_witness:
  "ConsumeLine (''ab'' @ [CR, LF] @ ''c'') = (''ab'', ''c'') \<and> no_newline ''ab''"
proof -
  have "ConsumeLine (''ab'' @ [CR, LF] @ ''c'') = (''ab'', ''c'')" by simp
  with ConsumeLine_splits [OF this] show ?thesis by blast
qed

end
