(* ===== verification/Msg_Protocol.thy ===== *)
theory Msg_Protocol
  imports Prelude
begin

text \<open>
  Protocol identifiers of the start-line: \<open>include/telling/msg_protocol.h\<close>. The enumerator
  \<open>Http\<close> has the value of \<open>Http_1_1\<close>.
\<close>

datatype MsgProtocolCode = ProtocolUnknown | ProtocolNone | Telling | Http_1_0 | Http_1_1

abbreviation Http :: MsgProtocolCode where "Http \<equiv> Http_1_1"

primrec protocol_int :: "MsgProtocolCode \<Rightarrow> int" where
  "protocol_int ProtocolUnknown = -1"
| "protocol_int ProtocolNone = 0"
| "protocol_int Telling = 1"
| "protocol_int Http_1_0 = 2"
| "protocol_int Http_1_1 = 3"

type_synonym MsgProtocol = MsgProtocolCode

definition protocol_valid :: "MsgProtocol \<Rightarrow> bool" where
  "protocol_valid p \<longleftrightarrow> protocol_int p > protocol_int ProtocolNone \<and> protocol_int p \<le> protocol_int Http"

definition preferred_newline :: "MsgProtocol \<Rightarrow> string" where
  "preferred_newline p = (if protocol_int p \<le> protocol_int Telling then [LF] else [CR, LF])"

definition is_http :: "MsgProtocol \<Rightarrow> bool" where
  "is_http p \<longleftrightarrow> p = Http_1_0 \<or> p = Http_1_1"

primrec protocol_toString :: "MsgProtocol \<Rightarrow> string" where
  "protocol_toString Telling = ''Tell/0''"
| "protocol_toString Http_1_0 = ''HTTP/1.0''"
| "protocol_toString Http_1_1 = ''HTTP/1.1''"
| "protocol_toString ProtocolNone = ''NoProtocol''"
| "protocol_toString ProtocolUnknown = ''UnknownProtocol''"

definition protocol_Parse :: "string \<Rightarrow> MsgProtocol" where
  "protocol_Parse v =
    (if length v = 0 then ProtocolNone
     else if v ! 0 = CHR ''T'' then (if v = ''Tell/0'' then Telling else ProtocolUnknown)
     else if v ! 0 = CHR ''H'' then
       (if v = ''HTTP/1.0'' then Http_1_0
        else if v = ''HTTP/1.1'' then Http_1_1
        else ProtocolUnknown)
     else ProtocolUnknown)"

section \<open>Lemmas\<close>

lemma protocol_valid_iff: "protocol_valid p \<longleftrightarrow> p = Telling \<or> p = Http_1_0 \<or> p = Http_1_1"
  by (cases p) (simp_all add: protocol_valid_def)

lemma protocol_Parse_toString: "protocol_valid p \<Longrightarrow> protocol_Parse (protocol_toString p) = p"
  by (cases p) (simp_all add: protocol_valid_def protocol_Parse_def)

lemma protocol_Parse_valid_iff:
  "protocol_valid (protocol_Parse v) \<longleftrightarrow> v = ''Tell/0'' \<or> v = ''HTTP/1.0'' \<or> v = ''HTTP/1.1''"
  by (auto simp: protocol_Parse_def protocol_valid_def split: if_splits)

lemma protocol_toString_valid:
  assumes "protocol_valid p"
  shows "protocol_toString p \<noteq> []" and "length (protocol_toString p) \<le> 8"
    and "\<forall>c \<in> set (protocol_toString p). c \<noteq> SP \<and> c \<noteq> LF \<and> c \<noteq> CR"
    and "SLASH \<in> set (protocol_toString p)"
  using assms by (auto simp: protocol_valid_iff)

lemma preferred_newline_cases: "preferred_newline p = [LF] \<or> preferred_newline p = [CR, LF]"
  by (simp add: preferred_newline_def)

lemma preferred_newline_http: "protocol_valid p \<Longrightarrow> preferred_newline p = [CR, LF] \<longleftrightarrow> is_http p"
  by (auto simp: preferred_newline_def is_http_def protocol_valid_iff)

section \<open>Properties\<close>

text \<open>
  Protocols and their names: exactly the three names of the valid protocols parse to a valid
  protocol, and each to the protocol it names; HTTP prefers carriage return and line feed as its
  end-of-line, Telling a line feed.
\<close>

theorem protocol_text_roundtrip:
  "(protocol_valid (protocol_Parse v) \<longleftrightarrow> (\<exists>p. protocol_valid p \<and> v = protocol_toString p \<and> protocol_Parse v = p)) \<and>
    (protocol_valid q \<longrightarrow> preferred_newline q = (if is_http q then [CR, LF] else [LF]))"
proof -
  have "protocol_valid (protocol_Parse v) \<Longrightarrow> v = protocol_toString (protocol_Parse v)"
    unfolding protocol_Parse_valid_iff by (auto simp: protocol_Parse_def)
  then show ?thesis
    using protocol_Parse_toString preferred_newline_http preferred_newline_cases by (metis (full_types))
qed

theorem protocol_text_roundtrip_witness: "preferred_newline Http = [CR, LF]"
  using protocol_text_roundtrip [of "[]" Http] by (simp add: protocol_valid_def is_http_def)

end
