(* ===== verification/Msg_Layout.thy ===== *)
theory Msg_Layout
  imports Msg_Util Msg_Protocol
begin

text \<open>
  The 64-bit description of a message's structure: \<open>include/telling/msg_layout.h\<close> and the two
  functions of \<open>src/telling/msg_view.cpp\<close> that fill it. Pointers into the start-line are offsets
  from its beginning (\<open>None\<close> is the null pointer). A function that throws leaves behind the fields
  it has assigned, so both functions return the layout beside their result.
\<close>

section \<open>Model\<close>

datatype MSG_TYPE = UNKNOWN | REPLY | REPORT | REQUEST | MASK_TYPE | FLAG_HEADER_ONLY

primrec type_int :: "MSG_TYPE \<Rightarrow> int" where
  "type_int UNKNOWN = -1"
| "type_int REPLY = 0"
| "type_int REPORT = 1"
| "type_int REQUEST = 2"
| "type_int MASK_TYPE = 0x0F"
| "type_int FLAG_HEADER_ONLY = 0x10"

abbreviation (input) MAX_METHOD_LENGTH :: nat where "MAX_METHOD_LENGTH \<equiv> 14"
abbreviation (input) MAX_PROTOCOL_LENGTH :: nat where "MAX_PROTOCOL_LENGTH \<equiv> 16"
abbreviation (input) MAX_STATUS_LENGTH :: nat where "MAX_STATUS_LENGTH \<equiv> 3"
abbreviation (input) MAX_REASON_LENGTH :: nat where "MAX_REASON_LENGTH \<equiv> 128"

record MsgLayout =
  p_body :: u16
  sl_len :: u16
  uri_pos :: u8
  prt_rpos :: u8
  sts_rpos :: u8
  sl_nl :: u8

definition parse_reset :: MsgLayout where
  "parse_reset = \<lparr>p_body = 0, sl_len = 0, uri_pos = 0, prt_rpos = 0, sts_rpos = 0, sl_nl = 0\<rparr>"

text \<open>The accessors: \<open>HeadRange\<close> is a start and a length, both of type \<open>size_t\<close>; \<open>int\<close> arithmetic is converted.\<close>

type_synonym HeadRange = "nat \<times> nat"

definition p_headers :: "MsgLayout \<Rightarrow> nat" where
  "p_headers L = unat (sl_len L) + unat (sl_nl L)"

definition has_method :: "MsgLayout \<Rightarrow> bool" where
  "has_method L \<longleftrightarrow> uri_pos L \<noteq> 0"

definition has_uri :: "MsgLayout \<Rightarrow> bool" where
  "has_uri L \<longleftrightarrow> unat (prt_rpos L) < unat (sl_len L)"

definition has_protocol :: "MsgLayout \<Rightarrow> bool" where
  "has_protocol L \<longleftrightarrow> unat (prt_rpos L) \<ge> unat (sts_rpos L) + 1"

definition has_status :: "MsgLayout \<Rightarrow> bool" where
  "has_status L \<longleftrightarrow> unat (sts_rpos L) \<ge> 3"

definition has_reason :: "MsgLayout \<Rightarrow> bool" where
  "has_reason L \<longleftrightarrow> unat (sts_rpos L) > 4"

definition layout_type :: "MsgLayout \<Rightarrow> MSG_TYPE" where
  "layout_type L =
    (if has_method L then REQUEST
     else if has_uri L then REPORT
     else if has_protocol L then REPLY
     else UNKNOWN)"

definition startLine_range :: "MsgLayout \<Rightarrow> HeadRange" where
  "startLine_range L = (0, unat (sl_len L))"

definition headers_range :: "MsgLayout \<Rightarrow> HeadRange" where
  "headers_range L = (let hb = p_headers L in (hb, to_size_t (int (unat (p_body L)) - int hb)))"

definition method_range :: "MsgLayout \<Rightarrow> HeadRange" where
  "method_range L = (0, to_size_t (uint (uri_pos L) - of_bool (uri_pos L \<noteq> 0)))"

definition uri_range :: "MsgLayout \<Rightarrow> HeadRange" where
  "uri_range L = (unat (uri_pos L),
    to_size_t (if has_uri L
      then uint (sl_len L) - uint (uri_pos L) - uint (prt_rpos L) - of_bool (prt_rpos L \<noteq> 0) else 0))"

definition protocol_range :: "MsgLayout \<Rightarrow> HeadRange" where
  "protocol_range L = (to_size_t (uint (sl_len L) - uint (prt_rpos L)),
    to_size_t (if prt_rpos L \<noteq> 0
      then uint (prt_rpos L) - uint (sts_rpos L) - of_bool (sts_rpos L \<noteq> 0) else 0))"

definition status_range :: "MsgLayout \<Rightarrow> HeadRange" where
  "status_range L = (to_size_t (uint (sl_len L) - uint (sts_rpos L)), if sts_rpos L \<noteq> 0 then 3 else 0)"

definition reason_range :: "MsgLayout \<Rightarrow> HeadRange" where
  "reason_range L = (to_size_t (uint (sl_len L) + 4 - uint (sts_rpos L)),
    if sts_rpos L > 4 then to_size_t (uint (sts_rpos L) - 4) else 0)"

text \<open>\<open>_setStartLine\<close>. A limit that is exceeded or a malformed line stops the assignments.\<close>

abbreviation (input) MAX_URI_POS :: nat where "MAX_URI_POS \<equiv> MAX_METHOD_LENGTH + 1"
abbreviation (input) MAX_STS_RPOS :: nat where "MAX_STS_RPOS \<equiv> MAX_REASON_LENGTH + MAX_STATUS_LENGTH + 1"
abbreviation (input) MAX_PRT_RPOS :: nat where "MAX_PRT_RPOS \<equiv> MAX_STS_RPOS + MAX_PROTOCOL_LENGTH + 1"

definition remove_eol :: "string \<Rightarrow> string" where
  "remove_eol s = take (length s - (if s ! (length s - 2) = CR then 2 else 1)) s"

definition verify_status :: "string \<Rightarrow> bool \<Rightarrow> MsgLayout \<Rightarrow> unit result \<times> MsgLayout" where
  "verify_status line reason L =
    (if sts_rpos L \<noteq> 0 \<and> (if reason then sts_rpos L < 4 else sts_rpos L \<noteq> 3)
     then (Inl (MsgExn START_LINE_MALFORMED line), L) else (Inr (), L))"

definition setStartLine ::
    "string \<Rightarrow> MSG_TYPE \<Rightarrow> nat option \<Rightarrow> nat option \<Rightarrow> nat option \<Rightarrow> MsgLayout \<Rightarrow> unit result \<times> MsgLayout" where
  "setStartLine lineWithEol type second_elem third_elem fourth_elem L =
    (if length lineWithEol < 2 \<or> last lineWithEol \<noteq> LF
     then (Inl (MsgExn START_LINE_MALFORMED lineWithEol), L)
     else
      let line = remove_eol lineWithEol;
          too_big = Inl (MsgExn HEADER_TOO_BIG line);
          malformed = Inl (MsgExn START_LINE_MALFORMED line);
          EOL_minus = (\<lambda>e. to_size_t (int (length line) - int e))
      in
      if length line > 65535 then (too_big, L)
      else
      let L = L\<lparr>sl_len := of_nat (length line), sl_nl := of_nat (length lineWithEol - length line)\<rparr>
      in
      case type of
        REQUEST \<Rightarrow>
          (case second_elem of
            None \<Rightarrow> (malformed, L)
          | Some u \<Rightarrow>
              if fourth_elem \<noteq> None then (malformed, L)
              else if u > MAX_URI_POS then (too_big, L)
              else let L = L\<lparr>uri_pos := of_nat u\<rparr> in
              (case third_elem of
                None \<Rightarrow> (Inr (), L\<lparr>prt_rpos := 0, sts_rpos := 0\<rparr>)
              | Some p \<Rightarrow>
                  if EOL_minus p > MAX_PRT_RPOS then (too_big, L)
                  else (Inr (), L\<lparr>prt_rpos := of_nat (EOL_minus p), sts_rpos := 0\<rparr>)))
      | REPLY \<Rightarrow>
          (case second_elem of
            None \<Rightarrow> (malformed, L)
          | Some s \<Rightarrow>
              let L = L\<lparr>uri_pos := 0\<rparr> in
              if length line > MAX_PRT_RPOS then (too_big, L)
              else let L = L\<lparr>prt_rpos := of_nat (length line)\<rparr> in
              if EOL_minus s > MAX_STS_RPOS then (too_big, L)
              else verify_status line (third_elem \<noteq> None) (L\<lparr>sts_rpos := of_nat (EOL_minus s)\<rparr>))
      | REPORT \<Rightarrow>
          let L = L\<lparr>uri_pos := 0\<rparr> in
          (case second_elem of
            None \<Rightarrow>
              let L = L\<lparr>prt_rpos := 0, sts_rpos := 0\<rparr> in
              if third_elem \<noteq> None \<or> fourth_elem \<noteq> None then (malformed, L)
              else verify_status line False L
          | Some p \<Rightarrow>
              if EOL_minus p > MAX_PRT_RPOS then (too_big, L)
              else let L = L\<lparr>prt_rpos := of_nat (EOL_minus p)\<rparr> in
              (case third_elem of
                None \<Rightarrow>
                  let L = L\<lparr>sts_rpos := 0\<rparr> in
                  if fourth_elem \<noteq> None then (malformed, L) else verify_status line False L
              | Some s \<Rightarrow>
                  if EOL_minus s > MAX_STS_RPOS then (too_big, L)
                  else verify_status line (fourth_elem \<noteq> None) (L\<lparr>sts_rpos := of_nat (EOL_minus s)\<rparr>)))
      | _ \<Rightarrow> (malformed, L))"

text \<open>
  The header loop of \<open>_parse_msg\<close>: lines up to and including the first empty one are consumed, and
  the rest of the input is the body.
\<close>

function skip_headers :: "string \<Rightarrow> string result" where
  "skip_headers s =
    (case ConsumeLine s of (headerLine, rest) \<Rightarrow>
      if headerLine = [] then Inr rest
      else if rest = [] then Inl (MsgExn HEADER_INCOMPLETE headerLine)
      else skip_headers rest)"
  by auto
termination
  by (relation "measure length") (auto intro: ConsumeLine_line_shorter [OF sym])

declare skip_headers.simps [simp del]

text \<open>
  Delimiting the start-line. \<open>delimit n i s\<close> cuts at most \<open>n\<close> words and then the remainder from \<open>s\<close>,
  which starts at offset \<open>i\<close>; the result pairs each part with its offset and ends with the final
  value of \<open>i\<close>. A line that ends in a space has an empty last part.
\<close>

fun delimit :: "nat \<Rightarrow> nat \<Rightarrow> string \<Rightarrow> (nat \<times> string) list \<times> nat" where
  "delimit n i [] = ([], i)"
| "delimit 0 i s = ([(i, s)], i)"
| "delimit (Suc n) i s =
    (let word = takeWhile (\<lambda>c. c \<noteq> SP) s; k = length word + 1;
         (ps, j) = delimit n (i + k) (drop k s)
     in ((i, word) # ps, j))"

abbreviation (input) MAX_PARTS :: nat where "MAX_PARTS \<equiv> 4"

definition start_parts :: "string \<Rightarrow> (nat \<times> string) list" where
  "start_parts line =
    (let (ps, i) = delimit (MAX_PARTS - 1) 0 line
     in if i > 0 \<and> i \<le> length line \<and> line ! (i - 1) = SP \<and> length ps < MAX_PARTS
        then ps @ [(i, [])] else ps)"

definition classify_parts :: "(nat \<times> string) list \<Rightarrow> MSG_TYPE" where
  "classify_parts parts =
    (if length parts = 0 then UNKNOWN
     else if length parts = 1 then REPORT
     else if length parts \<ge> 3 \<and> protocol_valid (protocol_Parse (snd (parts ! 2))) then REQUEST
     else if protocol_valid (protocol_Parse (snd (parts ! 1))) then REPORT
     else if snd (parts ! 0) = [] \<or> SLASH \<in> set (snd (parts ! 0)) then REPLY
     else REQUEST)"

definition part_data :: "(nat \<times> string) list \<Rightarrow> nat \<Rightarrow> nat option" where
  "part_data parts k = (if k < length parts then Some (fst (parts ! k)) else None)"

text \<open>\<open>_parse_msg\<close> on the bytes of a message body.\<close>

definition parse_msg :: "string \<Rightarrow> MSG_TYPE \<Rightarrow> MsgLayout \<Rightarrow> unit result \<times> MsgLayout" where
  "parse_msg msg type L0 =
    (if length msg = 0
     then (Inl (MsgExn HEADER_INCOMPLETE ''Message data is empty (no header)''), L0)
     else
      let L = parse_reset; (startLine, pos) = ConsumeLine msg
      in
      if length startLine > 0xFFFF then (Inl (MsgExn HEADER_TOO_BIG ''Start line >= 64 KiB''), L)
      else if pos = [] then (Inl (MsgExn HEADER_INCOMPLETE startLine), L)
      else
      (case skip_headers pos of
        Inl e \<Rightarrow> (Inl e, L)
      | Inr body \<Rightarrow>
          if length msg - length body > 0xFFFF
          then (Inl (MsgExn HEADER_TOO_BIG ''Headers >= 64 KiB; missing empty line?''), L)
          else
          let L = L\<lparr>p_body := of_nat (length msg - length body)\<rparr>;
              parts = start_parts startLine;
              type = (if type_int type < 0 then classify_parts parts else type);
              startLineWithNL = take (length msg - length pos) msg
          in setStartLine startLineWithNL type
               (part_data parts 1) (part_data parts 2) (part_data parts 3) L))"

section \<open>Delimiting\<close>

lemma delimit_Suc:
  assumes "s \<noteq> []"
  shows "delimit (Suc n) i s =
    (let k = length (takeWhile (\<lambda>c. c \<noteq> SP) s) + 1; (ps, j) = delimit n (i + k) (drop k s)
     in ((i, takeWhile (\<lambda>c. c \<noteq> SP) s) # ps, j))"
proof -
  from assms obtain c cs where "s = c # cs" by (cases s) auto
  then show ?thesis by (simp only: delimit.simps Let_def)
qed

lemma delimit_word [msg_simps]:
  assumes "SP \<notin> set w"
  shows "delimit (Suc n) i (w @ SP # s) =
    (case delimit n (i + length w + 1) s of (ps, j) \<Rightarrow> ((i, w) # ps, j))"
proof -
  have "takeWhile (\<lambda>c. c \<noteq> SP) (w @ SP # s) = w"
    using assms by (intro takeWhile_append_stop) auto
  then show ?thesis by (subst delimit_Suc) simp_all
qed

lemma delimit_last [msg_simps]:
  assumes "SP \<notin> set w" "w \<noteq> []"
  shows "delimit (Suc n) i w = ([(i, w)], i + length w + 1)"
proof -
  have "takeWhile (\<lambda>c. c \<noteq> SP) w = w"
    using assms(1) by (intro takeWhile_all) auto
  then show ?thesis using assms(2) by (subst delimit_Suc) simp_all
qed

lemma delimit_rest [msg_simps]: "s \<noteq> [] \<Longrightarrow> delimit 0 i s = ([(i, s)], i)"
  by (cases s) auto

lemma delimit_props:
  "delimit n i s = (ps, j) \<Longrightarrow>
    sorted_wrt (<) (map fst ps) \<and> (\<forall>p \<in> set ps. i \<le> fst p \<and> fst p < i + length s) \<and>
    length ps \<le> Suc n \<and> (length ps \<le> n \<longrightarrow> (\<forall>p \<in> set ps. fst p < j)) \<and>
    (s \<noteq> [] \<longrightarrow> ps \<noteq> [] \<and> fst (hd ps) = i) \<and> i \<le> j"
proof (induction n i s arbitrary: ps j rule: delimit.induct)
  case (3 n i c cs)
  define w where "w = takeWhile (\<lambda>c. c \<noteq> SP) (c # cs)"
  obtain qs k where d: "delimit n (i + (length w + 1)) (drop (length w + 1) (c # cs)) = (qs, k)"
    by fastforce
  have ps: "ps = (i, w) # qs" and j: "j = k"
    using "3.prems" d unfolding w_def by (simp_all add: Let_def)
  note IH = "3.IH" [OF w_def refl d]
  have "length w \<le> length (c # cs)" unfolding w_def by (rule length_takeWhile_le)
  then show ?case
    using IH unfolding ps j by (cases "drop (length w + 1) (c # cs)") (auto simp: less_diff_conv)
qed auto
lemma start_parts_props:
  fixes line :: string
  defines "ps \<equiv> start_parts line"
  shows "sorted_wrt (<) (map fst ps)" "\<forall>p \<in> set ps. fst p \<le> length line"
    "ps \<noteq> [] \<Longrightarrow> fst (hd ps) = 0" "line \<noteq> [] \<Longrightarrow> ps \<noteq> []" "line = [] \<Longrightarrow> ps = []"
    "length ps \<le> MAX_PARTS"
proof -
  obtain qs j where d: "delimit (MAX_PARTS - 1) 0 line = (qs, j)" by fastforce
  from delimit_props [OF d] have sorted: "sorted_wrt (<) (map fst qs)"
    and bound: "\<forall>p \<in> set qs. fst p < length line" and len: "length qs \<le> MAX_PARTS"
    and before: "length qs < MAX_PARTS \<Longrightarrow> \<forall>p \<in> set qs. fst p < j"
    and head: "line \<noteq> [] \<Longrightarrow> qs \<noteq> [] \<and> fst (hd qs) = 0" by auto
  have ps: "ps = (if j > 0 \<and> j \<le> length line \<and> line ! (j - 1) = SP \<and> length qs < MAX_PARTS
      then qs @ [(j, [])] else qs)"
    unfolding ps_def start_parts_def d by simp
  show "sorted_wrt (<) (map fst ps)"
    unfolding ps using sorted before by (auto simp: sorted_wrt_append)
  show "\<forall>p \<in> set ps. fst p \<le> length line"
    unfolding ps using bound by (auto simp: less_imp_le)
  show "line \<noteq> [] \<Longrightarrow> ps \<noteq> []" unfolding ps using head by auto
  show nil: "line = [] \<Longrightarrow> ps = []" unfolding ps using d by auto
  show "ps \<noteq> [] \<Longrightarrow> fst (hd ps) = 0"
    using head nil unfolding ps by (cases "line = []") auto
  show "length ps \<le> MAX_PARTS" unfolding ps using len by auto
qed

lemma part_data_None_mono: "part_data ps k = None \<Longrightarrow> k \<le> k' \<Longrightarrow> part_data ps k' = None"
  by (auto simp: part_data_def split: if_splits)

lemma part_data_offsets:
  assumes "part_data (start_parts line) k = Some a" and "0 < k"
  shows "1 \<le> a" "a \<le> length line"
    "part_data (start_parts line) k' = Some b \<Longrightarrow> k < k' \<Longrightarrow> a < b"
proof -
  define ps where "ps = start_parts line"
  have k: "k < length ps" and a: "a = fst (ps ! k)"
    using assms(1) by (auto simp: part_data_def ps_def split: if_splits)
  have sorted: "sorted_wrt (<) (map fst ps)" unfolding ps_def by (rule start_parts_props)
  have less: "fst (ps ! i) < fst (ps ! j)" if "i < j" "j < length ps" for i j
    using sorted_wrt_nth_less [OF sorted, of i j] that by simp
  from less [OF assms(2) k] show "1 \<le> a" by (simp add: a)
  show "a \<le> length line"
    using start_parts_props(2) [of line] k unfolding a ps_def by (simp only: nth_mem)
  show "part_data (start_parts line) k' = Some b \<Longrightarrow> k < k' \<Longrightarrow> a < b"
    using less [of k k'] by (auto simp: part_data_def a ps_def split: if_splits)
qed

section \<open>The structure of a parsed message\<close>

lemma remove_eol [msg_simps]:
  "no_newline line \<Longrightarrow> nl = [LF] \<or> nl = [CR, LF] \<Longrightarrow> length line + length nl \<ge> 2 \<Longrightarrow>
    remove_eol (line @ nl) = line"
  by (cases line rule: rev_cases) (auto simp: remove_eol_def nth_append)

lemma skip_headers_suffix:
  "skip_headers s = Inr body \<Longrightarrow> \<exists>h. s = h @ body \<and> (s \<noteq> [] \<longrightarrow> h \<noteq> [])"
proof (induction s rule: skip_headers.induct)
  case (1 s)
  obtain line rest where c: "ConsumeLine s = (line, rest)" by fastforce
  obtain h0 where s: "s = h0 @ rest" and h0: "s \<noteq> [] \<Longrightarrow> h0 \<noteq> []"
    using c ConsumeLine_shorter [OF c] by (cases rule: ConsumeLine_cases [OF c]) auto
  show ?case
  proof (cases "line = []")
    case True
    with "1.prems" c have "body = rest" by (simp add: skip_headers.simps [of s])
    with s h0 show ?thesis by blast
  next
    case False
    with "1.prems" c have "rest \<noteq> []" "skip_headers rest = Inr body"
      by (auto simp: skip_headers.simps [of s] split: if_splits)
    with "1.IH" [OF c [symmetric] False] obtain h where "rest = h @ body" by blast
    with s h0 show ?thesis by (intro exI [of _ "h0 @ h"]) auto
  qed
qed
abbreviation eol_line :: "string \<Rightarrow> string \<Rightarrow> bool" where
  "eol_line line nl \<equiv> no_newline line \<and> is_nl nl \<and> 2 \<le> length line + length nl"

lemma EOL_minus [msg_simps]: "e \<le> n \<Longrightarrow> n \<le> 65535 \<Longrightarrow> to_size_t (int n - int e) = n - e"
  by (subst to_size_t_id) auto

text \<open>The three successful outcomes of \<open>_setStartLine\<close>, with the fields they assign.\<close>

definition line_fields :: "string \<Rightarrow> string \<Rightarrow> MsgLayout \<Rightarrow> MsgLayout" where
  "line_fields line nl L = L\<lparr>sl_len := of_nat (length line), sl_nl := of_nat (length nl)\<rparr>"

lemma eol_lineD:
  assumes "eol_line line nl"
  shows "\<not> length (line @ nl) < 2" "last (line @ nl) = LF" "remove_eol (line @ nl) = line"
    "length (line @ nl) - length line = length nl"
  using assms remove_eol by auto

lemma setStartLine_request:
  assumes "eol_line line nl" and "setStartLine (line @ nl) REQUEST s2 s3 s4 L = (Inr (), L')"
    and "\<And>p. s3 = Some p \<Longrightarrow> p \<le> length line"
  obtains u where "s2 = Some u" "s4 = None" "u \<le> MAX_URI_POS" "length line \<le> 65535"
    "\<And>p. s3 = Some p \<Longrightarrow> length line - p \<le> MAX_PRT_RPOS"
    "L' = (line_fields line nl L)\<lparr>uri_pos := of_nat u,
       prt_rpos := (case s3 of None \<Rightarrow> 0 | Some p \<Rightarrow> of_nat (length line - p)), sts_rpos := 0\<rparr>"
  using assms(2,3) eol_lineD [OF assms(1)] that
  by (auto simp: setStartLine_def line_fields_def Let_def EOL_minus split: if_splits option.splits)

lemma u8_tests [word_conv]:
  assumes "n < 256"
  shows "(of_nat n :: u8) = 0 \<longleftrightarrow> n = 0" "(of_nat n :: u8) = 3 \<longleftrightarrow> n = 3"
    "(4 :: u8) \<le> of_nat n \<longleftrightarrow> 4 \<le> n" "(4 :: u8) < of_nat n \<longleftrightarrow> 4 < n"
  using unat_of_nat_u8 [OF assms]
  by (simp_all add: word_unat_eq_iff word_le_nat_alt word_less_nat_alt)

lemma verify_status_ok: "verify_status line r L = (Inr (), L') \<longleftrightarrow> L' = L \<and>
    (sts_rpos L = 0 \<or> (if r then 4 \<le> sts_rpos L else sts_rpos L = 3))"
  by (auto simp: verify_status_def not_less)

lemma setStartLine_reply:
  assumes "eol_line line nl" and "setStartLine (line @ nl) REPLY s2 s3 s4 L = (Inr (), L')"
    and "\<And>s. s2 = Some s \<Longrightarrow> s \<le> length line"
  obtains s where "s2 = Some s" "length line \<le> MAX_PRT_RPOS" "length line - s \<le> MAX_STS_RPOS"
    "length line - s = 0 \<or> (if s3 = None then length line - s = 3 else 4 \<le> length line - s)"
    "L' = (line_fields line nl L)\<lparr>uri_pos := 0, prt_rpos := of_nat (length line),
       sts_rpos := of_nat (length line - s)\<rparr>"
proof -
  obtain s where s: "s2 = Some s"
    using assms(2) eol_lineD [OF assms(1)]
    by (auto simp: setStartLine_def Let_def split: if_splits option.splits)
  let ?L = "(line_fields line nl L)\<lparr>uri_pos := 0, prt_rpos := of_nat (length line),
       sts_rpos := of_nat (length line - s)\<rparr>"
  have le: "length line \<le> MAX_PRT_RPOS" "length line - s \<le> MAX_STS_RPOS"
    and v: "verify_status line (s3 \<noteq> None) ?L = (Inr (), L')"
    using assms(2) assms(3) [OF s] eol_lineD [OF assms(1)] s
    by (auto simp: setStartLine_def line_fields_def Let_def EOL_minus split: if_splits)
  have n: "length line - s < 256" using le by linarith
  have "length line - s = 0 \<or> (if s3 = None then length line - s = 3 else 4 \<le> length line - s)" "L' = ?L"
    using v u8_tests [OF n] by (auto simp: verify_status_ok split: if_splits)
  with s le show ?thesis by (intro that)
qed

lemma setStartLine_report:
  assumes "eol_line line nl" and "setStartLine (line @ nl) REPORT s2 s3 s4 L = (Inr (), L')"
    and "\<And>p. s2 = Some p \<Longrightarrow> p \<le> length line" "\<And>s. s3 = Some s \<Longrightarrow> s \<le> length line"
  obtains (uri) "s2 = None" "s3 = None" "s4 = None" "length line \<le> 65535"
    "L' = (line_fields line nl L)\<lparr>uri_pos := 0, prt_rpos := 0, sts_rpos := 0\<rparr>"
  | (protocol) p where "s2 = Some p" "s3 = None" "s4 = None" "length line \<le> 65535"
    "length line - p \<le> MAX_PRT_RPOS"
    "L' = (line_fields line nl L)\<lparr>uri_pos := 0, prt_rpos := of_nat (length line - p), sts_rpos := 0\<rparr>"
  | (status) p s where "s2 = Some p" "s3 = Some s" "length line \<le> 65535"
    "length line - p \<le> MAX_PRT_RPOS" "length line - s \<le> MAX_STS_RPOS"
    "length line - s = 0 \<or> (if s4 = None then length line - s = 3 else 4 \<le> length line - s)"
    "L' = (line_fields line nl L)\<lparr>uri_pos := 0, prt_rpos := of_nat (length line - p),
       sts_rpos := of_nat (length line - s)\<rparr>"
proof (cases s2)
  case None
  with assms(2) eol_lineD [OF assms(1)] show ?thesis
    by (intro uri) (auto simp: setStartLine_def line_fields_def Let_def verify_status_ok split: if_splits)
next
  case p: (Some p)
  note pl = assms(3) [OF p]
  show ?thesis
  proof (cases s3)
    case None
    with assms(2) eol_lineD [OF assms(1)] p pl show ?thesis
      by (intro protocol [of p])
        (auto simp: setStartLine_def line_fields_def Let_def EOL_minus verify_status_ok split: if_splits)
  next
    case s: (Some s)
    note sl = assms(4) [OF s]
    let ?L = "(line_fields line nl L)\<lparr>uri_pos := 0, prt_rpos := of_nat (length line - p),
       sts_rpos := of_nat (length line - s)\<rparr>"
    have le: "length line \<le> 65535" "length line - p \<le> MAX_PRT_RPOS" "length line - s \<le> MAX_STS_RPOS"
      and v: "verify_status line (s4 \<noteq> None) ?L = (Inr (), L')"
      using assms(2) eol_lineD [OF assms(1)] p s pl sl
      by (auto simp: setStartLine_def line_fields_def Let_def EOL_minus split: if_splits)
    have n: "length line - s < 256" using le by linarith
    have "length line - s = 0 \<or> (if s4 = None then length line - s = 3 else 4 \<le> length line - s)" "L' = ?L"
      using v u8_tests [OF n] by (auto simp: verify_status_ok split: if_splits)
    with p s le show ?thesis by (intro status)
  qed
qed

lemma setStartLine_other:
  "eol_line line nl \<Longrightarrow> t \<notin> {REQUEST, REPLY, REPORT} \<Longrightarrow> fst (setStartLine (line @ nl) t s2 s3 s4 L) \<noteq> Inr ()"
  using eol_lineD [of line nl] by (cases t) (auto simp: setStartLine_def Let_def)
lemma setStartLine_eol: "fst (setStartLine l t s2 s3 s4 L) = Inr () \<Longrightarrow> 2 \<le> length l \<and> last l = LF"
  by (auto simp: setStartLine_def split: if_splits)

abbreviation parsed_type :: "MSG_TYPE \<Rightarrow> string \<Rightarrow> MSG_TYPE" where
  "parsed_type t line \<equiv> (if type_int t < 0 then classify_parts (start_parts line) else t)"

abbreviation set_parts :: "string \<Rightarrow> string \<Rightarrow> MSG_TYPE \<Rightarrow> nat \<Rightarrow> unit result \<times> MsgLayout" where
  "set_parts line nl t b \<equiv> setStartLine (line @ nl) t (part_data (start_parts line) 1)
    (part_data (start_parts line) 2) (part_data (start_parts line) 3) (parse_reset\<lparr>p_body := of_nat b\<rparr>)"

lemma parse_msg_body:
  assumes "ConsumeLine msg = (line, pos)" "pos \<noteq> []" "length line \<le> 0xFFFF"
    and "skip_headers pos = Inr body" "length msg - length body \<le> 0xFFFF"
  shows "parse_msg msg t L0 = setStartLine (take (length msg - length pos) msg) (parsed_type t line)
      (part_data (start_parts line) 1) (part_data (start_parts line) 2) (part_data (start_parts line) 3)
      (parse_reset\<lparr>p_body := of_nat (length msg - length body)\<rparr>)"
proof -
  have "msg \<noteq> []" using assms(1,2) by auto
  with assms show ?thesis by (simp add: parse_msg_def Let_def)
qed

lemma parse_msg_ok:
  assumes "parse_msg msg t L0 = (Inr (), L)"
  obtains line nl hdr body where "msg = line @ nl @ hdr @ body" "eol_line line nl" "hdr \<noteq> []"
    "skip_headers (hdr @ body) = Inr body" "length (line @ nl @ hdr) \<le> 65535"
    "set_parts line nl (parsed_type t line) (length (line @ nl @ hdr)) = (Inr (), L)"
proof -
  obtain line pos where c: "ConsumeLine msg = (line, pos)" by fastforce
  have "msg \<noteq> []" and ll: "length line \<le> 0xFFFF" and pos: "pos \<noteq> []"
    using assms c by (auto simp: parse_msg_def split: if_splits)
  then obtain body where sk: "skip_headers pos = Inr body" and len: "length msg - length body \<le> 65535"
    using assms c by (cases "skip_headers pos") (auto simp: parse_msg_def Let_def split: if_splits)
  have set: "setStartLine (take (length msg - length pos) msg) (parsed_type t line)
      (part_data (start_parts line) 1) (part_data (start_parts line) 2) (part_data (start_parts line) 3)
      (parse_reset\<lparr>p_body := of_nat (length msg - length body)\<rparr>) = (Inr (), L)"
    using assms parse_msg_body [OF c pos ll sk len] by simp
  obtain nl where m: "msg = line @ nl @ pos" and nn: "no_newline line"
    and nl: "nl = [LF] \<or> nl = [CR, LF] \<or> nl = [CR]"
    using pos by (cases rule: ConsumeLine_cases [OF c]) auto
  have tk: "take (length msg - length pos) msg = line @ nl" by (simp add: m)
  obtain hdr where p: "pos = hdr @ body" and h: "hdr \<noteq> []"
    using skip_headers_suffix [OF sk] pos by blast
  have b: "length msg - length body = length (line @ nl @ hdr)" by (simp add: m p)
  note set' = set [unfolded tk b]
  from setStartLine_eol [OF arg_cong [OF set', of fst, unfolded fst_conv]] nl nn
  have eol: "eol_line line nl" by (elim disjE) simp_all
  show ?thesis by (rule that [OF m [unfolded p] eol h sk [unfolded p] len [unfolded b] set'])
qed

text \<open>
  The arithmetic of a layout that describes \<open>n\<close> bytes: the parts of the start-line lie behind one
  another inside it, the headers behind the start-line, the body behind the headers.
\<close>

definition layout_ok :: "nat \<Rightarrow> MsgLayout \<Rightarrow> bool" where
  "layout_ok n L \<longleftrightarrow>
    p_headers L < unat (p_body L) \<and> unat (p_body L) \<le> n \<and>
    unat (uri_pos L) \<le> unat (sl_len L) \<and> unat (prt_rpos L) \<le> unat (sl_len L) \<and>
    (has_uri L \<longrightarrow> unat (uri_pos L) + unat (prt_rpos L) + of_bool (prt_rpos L \<noteq> 0) \<le> unat (sl_len L)) \<and>
    unat (sts_rpos L) + of_bool (prt_rpos L \<noteq> 0 \<and> sts_rpos L \<noteq> 0) \<le> unat (prt_rpos L) \<and>
    (sts_rpos L = 0 \<or> 3 \<le> unat (sts_rpos L))"

abbreviation layout_of :: "string \<Rightarrow> string \<Rightarrow> nat \<Rightarrow> nat \<Rightarrow> nat \<Rightarrow> nat \<Rightarrow> MsgLayout" where
  "layout_of line nl b u p s \<equiv> (line_fields line nl (parse_reset\<lparr>p_body := of_nat b\<rparr>))
    \<lparr>uri_pos := of_nat u, prt_rpos := of_nat p, sts_rpos := of_nat s\<rparr>"

lemma layout_of_ok:
  assumes "length line \<le> 65535" "length nl \<le> 2" "length line + length nl < b" "b \<le> n" "b \<le> 65535"
    and "u \<le> MAX_URI_POS" "p \<le> MAX_PRT_RPOS" "s \<le> MAX_STS_RPOS" "u \<le> length line" "p \<le> length line"
    and "p < length line \<Longrightarrow> u + p + of_bool (p \<noteq> 0) \<le> length line"
    and "s + of_bool (p \<noteq> 0 \<and> s \<noteq> 0) \<le> p" "s = 0 \<or> 3 \<le> s"
  shows "layout_ok n (layout_of line nl b u p s)"
  using assms
  by (simp add: layout_ok_def line_fields_def p_headers_def has_uri_def unat_of_nat_u8 unat_of_nat_u16 u8_tests)

lemma set_parts_fields:
  assumes eol: "eol_line line nl" and set: "set_parts line nl t b = (Inr (), L)"
  obtains u p s where "L = layout_of line nl b u p s" "length line \<le> 65535"
    "u \<le> MAX_URI_POS" "p \<le> MAX_PRT_RPOS" "s \<le> MAX_STS_RPOS" "u \<le> length line" "p \<le> length line"
    "t \<noteq> REPLY \<Longrightarrow> u + p + of_bool (p \<noteq> 0) \<le> length line"
    "s + of_bool (p \<noteq> 0 \<and> s \<noteq> 0) \<le> p" "s = 0 \<or> 3 \<le> s"
    "t = REQUEST \<and> 1 \<le> u \<or> t = REPLY \<and> u = 0 \<and> p = length line \<and> s < p \<or> t = REPORT \<and> u = 0"
proof -
  note off = part_data_offsets [of line]
  consider "t = REQUEST" | "t = REPLY" | "t = REPORT" | "t \<notin> {REQUEST, REPLY, REPORT}" by blast
  then show ?thesis
  proof cases
    case 1
    obtain u where *: "part_data (start_parts line) 1 = Some u" "u \<le> MAX_URI_POS" "length line \<le> 65535"
        "\<And>p. part_data (start_parts line) 2 = Some p \<Longrightarrow> length line - p \<le> MAX_PRT_RPOS"
        "L = (line_fields line nl (parse_reset\<lparr>p_body := of_nat b\<rparr>))\<lparr>uri_pos := of_nat u,
          prt_rpos := (case part_data (start_parts line) 2 of None \<Rightarrow> 0 | Some p \<Rightarrow> of_nat (length line - p)),
          sts_rpos := 0\<rparr>"
      by (rule setStartLine_request [OF eol set [unfolded 1]]) (use off in auto)
    show ?thesis
    proof (cases "part_data (start_parts line) 2")
      case None
      with * off(1,2) [OF *(1)] show ?thesis by (intro that [where u = u and p = 0 and s = 0]) (simp_all add: 1)
    next
      case (Some p)
      with * off(1,2) [OF *(1)] off(3) [OF *(1) _ Some] off(2) [OF Some] show ?thesis
        by (intro that [where u = u and p = "length line - p" and s = 0]) (auto simp: 1)
    qed
  next
    case 2
    obtain s where "part_data (start_parts line) 1 = Some s" "length line \<le> MAX_PRT_RPOS"
        "length line - s \<le> MAX_STS_RPOS"
        "length line - s = 0 \<or> (if part_data (start_parts line) 2 = None then length line - s = 3 else 4 \<le> length line - s)"
        "L = (line_fields line nl (parse_reset\<lparr>p_body := of_nat b\<rparr>))\<lparr>uri_pos := 0,
          prt_rpos := of_nat (length line), sts_rpos := of_nat (length line - s)\<rparr>"
      by (rule setStartLine_reply [OF eol set [unfolded 2]]) (use off in auto)
    with off(1,2) [of 1 s] show ?thesis
      by (intro that [where u = 0 and p = "length line" and s = "length line - s"]) (auto simp: 2 split: if_splits)
  next
    case 3
    from set [unfolded 3] show ?thesis
    proof (cases rule: setStartLine_report [OF eol, consumes 1, case_names p2 p3 uri protocol status])
      case uri
      then show ?thesis by (intro that [where u = 0 and p = 0 and s = 0]) (simp_all add: 3)
    next
      case (protocol p)
      with off(1,2) [of 1 p] show ?thesis by (intro that [where u = 0 and p = "length line - p" and s = 0]) (auto simp: 3)
    next
      case (status p s)
      with off(1,2) [of 1 p] off(2) [of 2 s] off(3) [of 1 p 2 s] show ?thesis
        by (intro that [where u = 0 and p = "length line - p" and s = "length line - s"]) (auto simp: 3 split: if_splits)
    qed (use off in auto)
  next
    case 4
    with set setStartLine_other [OF eol 4] show ?thesis by (metis fst_conv)
  qed
qed

lemma parse_msg_layout_ok:
  assumes "parse_msg msg t L0 = (Inr (), L)"
  shows "layout_ok (length msg) L"
proof (rule parse_msg_ok [OF assms])
  fix line nl hdr body
  assume m: "msg = line @ nl @ hdr @ body" and eol: "eol_line line nl" and h: "hdr \<noteq> []"
    and len: "length (line @ nl @ hdr) \<le> 65535"
    and set: "set_parts line nl (parsed_type t line) (length (line @ nl @ hdr)) = (Inr (), L)"
  from eol have "length nl \<le> 2" by auto
  with m h len show ?thesis
    by - (rule set_parts_fields [OF eol set], hypsubst, rule layout_of_ok, auto)
qed
lemma parse_msg_type:
  assumes "parse_msg msg t L0 = (Inr (), L)" and "ConsumeLine msg = (line, r)"
  shows "layout_type L = (if line = [] then UNKNOWN else parsed_type t line)"
proof (rule parse_msg_ok [OF assms(1)])
  fix line' nl hdr body
  assume m: "msg = line' @ nl @ hdr @ body" and eol: "eol_line line' nl"
    and set: "set_parts line' nl (parsed_type t line') (length (line' @ nl @ hdr)) = (Inr (), L)"
  have "ConsumeLine msg = (line', hdr @ body)"
    unfolding m using eol by (elim conjE disjE) (simp_all add: ConsumeLine_LF ConsumeLine_CRLF)
  with assms(2) have line: "line' = line" by simp
  have empty: "start_parts [] = []" using start_parts_props(5) [of "[]"] by simp
  show ?thesis
  proof (rule set_parts_fields [OF eol set], unfold line)
    fix u p s
    assume L: "L = layout_of line nl (length (line @ nl @ hdr)) u p s"
      and le: "length line \<le> 65535" "u \<le> MAX_URI_POS" "p \<le> MAX_PRT_RPOS" "s \<le> MAX_STS_RPOS"
        "u \<le> length line"
      and sum: "parsed_type t line \<noteq> REPLY \<Longrightarrow> u + p + of_bool (p \<noteq> 0) \<le> length line"
      and t: "parsed_type t line = REQUEST \<and> 1 \<le> u \<or>
        parsed_type t line = REPLY \<and> u = 0 \<and> p = length line \<and> s < p \<or> parsed_type t line = REPORT \<and> u = 0"
    have "layout_type L = (if u \<noteq> 0 then REQUEST else if p < length line then REPORT
        else if s + 1 \<le> p then REPLY else UNKNOWN)"
      unfolding layout_type_def has_method_def has_uri_def has_protocol_def L
      using le by (simp add: line_fields_def unat_of_nat_u8 unat_of_nat_u16 u8_tests)
    with t sum le show ?thesis by (cases "p = 0") (auto split: if_splits)
  qed
qed

section \<open>Parsing assembled messages\<close>

lemma skip_headers_lines:
  assumes "is_nl nl" and "list_all (\<lambda>l. no_newline l \<and> l \<noteq> []) ls"
  shows "skip_headers (join_lines nl ls @ nl @ body) = Inr body"
  using assms(2)
proof (induction ls)
  case Nil
  have "ConsumeLine (nl @ body) = ([], body)" using assms(1) by auto
  then show ?case by (simp add: skip_headers.simps)
next
  case (Cons l ls)
  have "ConsumeLine (l @ nl @ join_lines nl ls @ nl @ body) =
      (l, join_lines nl ls @ nl @ body)"
    using assms(1) Cons.prems by (auto simp: ConsumeLine_LF ConsumeLine_CRLF)
  moreover have "nl \<noteq> []" using assms(1) by auto
  ultimately show ?case using Cons by (subst skip_headers.simps) simp
qed

lemma parse_msg_lines:
  assumes "eol_line line nl" and "list_all (\<lambda>l. no_newline l \<and> l \<noteq> []) ls"
    and "head = line @ nl @ join_lines nl ls @ nl" and "length head \<le> 65535"
  shows "parse_msg (head @ body) t L0 = set_parts line nl (parsed_type t line) (length head)"
proof -
  let ?rest = "join_lines nl ls @ nl @ body"
  have m: "head @ body = line @ nl @ ?rest" by (simp add: assms(3))
  have c: "ConsumeLine (head @ body) = (line, ?rest)"
    unfolding m using assms(1) by (auto simp: ConsumeLine_LF ConsumeLine_CRLF)
  have sk: "skip_headers ?rest = Inr body" using assms(1,2) by (intro skip_headers_lines) auto
  have "?rest \<noteq> []" using assms(1) by auto
  moreover have "length line \<le> 65535" using assms(3,4) by simp
  moreover have "take (length (head @ body) - length ?rest) (head @ body) = line @ nl"
    unfolding m by simp
  moreover have "length (head @ body) - length body = length head" by simp
  ultimately show ?thesis
    using assms(4) parse_msg_body [OF c _ _ sk] by (simp only: length_0_conv simp_thms)
qed
text \<open>The parts of the three kinds of start-line.\<close>

lemma start_parts_request:
  assumes "SP \<notin> set m" "SP \<notin> set u" "SP \<notin> set p" "p \<noteq> []"
  shows "start_parts (m @ SP # u @ SP # p) =
    [(0, m), (length m + 1, u), (length m + length u + 2, p)]"
  using assms by (simp add: start_parts_def numeral_3_eq_3 delimit_word delimit_last)

lemma start_parts_reply:
  assumes "SP \<notin> set p" "SP \<notin> set s"
  shows "\<exists>rest. start_parts (p @ SP # s @ SP # r) =
    (0, p) # (length p + 1, s) # (length p + length s + 2, takeWhile (\<lambda>c. c \<noteq> SP) r) # rest"
proof (cases "r = []")
  case True
  with assms show ?thesis
    by (simp add: start_parts_def numeral_3_eq_3 delimit_word nth_append)
next
  case False
  let ?i = "length p + length s + 2" and ?w = "takeWhile (\<lambda>c. c \<noteq> SP) r"
  obtain qs j where "delimit (Suc 0) ?i r = ((?i, ?w) # qs, j)"
    using delimit_Suc [OF False, of 0 ?i] by (simp add: Let_def split: prod.splits)
  with assms show ?thesis
    by (simp add: start_parts_def numeral_3_eq_3 delimit_word add.assoc)
qed

lemma start_parts_report:
  assumes "SP \<notin> set u" "SP \<notin> set p" "SP \<notin> set s"
  shows "start_parts (u @ SP # p @ SP # s @ SP # r) =
    [(0, u), (length u + 1, p), (length u + length p + 2, s), (length u + length p + length s + 3, r)]"
proof (cases "r = []")
  case True
  with assms show ?thesis
    by (simp add: start_parts_def numeral_3_eq_3 delimit_word nth_append)
next
  case False
  then show ?thesis
    using assms by (simp add: start_parts_def numeral_3_eq_3 delimit_word delimit_rest)
qed

lemma set_parts_request:
  assumes "eol_line line nl" "line = m @ SP # u @ SP # p"
    and "SP \<notin> set m" "SP \<notin> set u" "SP \<notin> set p" "p \<noteq> []"
    and "length m \<le> MAX_METHOD_LENGTH" "length p \<le> MAX_PRT_RPOS" "length line \<le> 65535"
  shows "set_parts line nl REQUEST b = (Inr (), layout_of line nl b (length m + 1) (length p) 0)"
proof -
  note e = eol_lineD [OF assms(1)]
  have "start_parts line = [(0, m), (length m + 1, u), (length m + length u + 2, p)]"
    unfolding assms(2) using assms(3-6) by (rule start_parts_request)
  moreover have "to_size_t (int (length line) - int (length m + length u + 2)) = length p"
    unfolding assms(2) by (subst EOL_minus) (use assms(2,9) in auto)
  ultimately show ?thesis
    using e assms(7-9)
    by (simp add: setStartLine_def part_data_def line_fields_def Let_def del: of_nat_add of_nat_Suc)
qed

lemma set_parts_reply:
  assumes "eol_line line nl" "line = p @ SP # s @ SP # r"
    and "SP \<notin> set p" "SP \<notin> set s" "length s = 3"
    and "length line \<le> MAX_PRT_RPOS" "length r \<le> MAX_REASON_LENGTH"
  shows "set_parts line nl REPLY b = (Inr (), layout_of line nl b 0 (length line) (length r + 4))"
proof -
  note e = eol_lineD [OF assms(1)]
  from start_parts_reply [OF assms(3,4), of r]
  obtain rest where "start_parts line = (0, p) # (length p + 1, s) #
      (length p + length s + 2, takeWhile (\<lambda>c. c \<noteq> SP) r) # rest"
    unfolding assms(2) by blast
  moreover have "to_size_t (int (length line) - int (length p + 1)) = length r + 4"
    unfolding assms(2) by (subst EOL_minus) (use assms(2,5,6) in auto)
  moreover have "length r + 4 < 256" using assms(7) by simp
  ultimately show ?thesis
    using e assms(6-7) u8_tests [of "length r + 4"]
    by (simp add: setStartLine_def part_data_def line_fields_def Let_def verify_status_def not_less
        del: of_nat_add of_nat_Suc)
qed

lemma set_parts_report:
  assumes "eol_line line nl" "line = u @ SP # p @ SP # s @ SP # r"
    and "SP \<notin> set u" "SP \<notin> set p" "SP \<notin> set s" "length s = 3"
    and "length p + length r + 5 \<le> MAX_PRT_RPOS" "length r \<le> MAX_REASON_LENGTH" "length line \<le> 65535"
  shows "set_parts line nl REPORT b = (Inr (), layout_of line nl b 0 (length p + length r + 5) (length r + 4))"
proof -
  note e = eol_lineD [OF assms(1)]
  have "start_parts line =
    [(0, u), (length u + 1, p), (length u + length p + 2, s), (length u + length p + length s + 3, r)]"
    unfolding assms(2) by (rule start_parts_report [OF assms(3-5)])
  moreover have "to_size_t (int (length line) - int (length u + 1)) = length p + length r + 5"
    "to_size_t (int (length line) - int (length u + length p + 2)) = length r + 4"
    unfolding assms(2) by (subst EOL_minus; use assms(2,6,9) in auto)+
  moreover have "length r + 4 < 256" using assms(8) by simp
  ultimately show ?thesis
    using e assms(7-9) u8_tests [of "length r + 4"]
    by (simp add: setStartLine_def part_data_def line_fields_def Let_def verify_status_def not_less
        del: of_nat_add of_nat_Suc)
qed

text \<open>Classification of the three kinds of start-line.\<close>

lemma classify_request:
  "SP \<notin> set m \<Longrightarrow> SP \<notin> set u \<Longrightarrow> protocol_valid p \<Longrightarrow>
    classify_parts (start_parts (m @ SP # u @ SP # protocol_toString p)) = REQUEST"
  by (subst start_parts_request)
    (auto simp: classify_parts_def protocol_toString_valid protocol_Parse_toString dest: protocol_toString_valid)

lemma short_no_protocol: "length s \<le> 5 \<Longrightarrow> \<not> protocol_valid (protocol_Parse s)"
  by (auto simp: protocol_Parse_valid_iff)

lemma classify_reply:
  assumes "protocol_valid p" "SP \<notin> set s" "length s = 3"
    and "\<not> protocol_valid (protocol_Parse (takeWhile (\<lambda>c. c \<noteq> SP) r))"
  shows "classify_parts (start_parts (protocol_toString p @ SP # s @ SP # r)) = REPLY"
proof -
  have "SP \<notin> set (protocol_toString p)" using protocol_toString_valid(3) [OF assms(1)] by blast
  then obtain rest where "start_parts (protocol_toString p @ SP # s @ SP # r) =
      (0, protocol_toString p) # (length (protocol_toString p) + 1, s) #
      (length (protocol_toString p) + length s + 2, takeWhile (\<lambda>c. c \<noteq> SP) r) # rest"
    using start_parts_reply [OF _ assms(2)] by blast
  then show ?thesis
    using assms(4) protocol_toString_valid(4) [OF assms(1)] short_no_protocol [of s] assms(3)
    by (simp add: classify_parts_def)
qed

lemma classify_report:
  assumes "SP \<notin> set u" "protocol_valid p" "SP \<notin> set s" "length s = 3"
  shows "classify_parts (start_parts (u @ SP # protocol_toString p @ SP # s @ SP # r)) = REPORT"
proof -
  have "SP \<notin> set (protocol_toString p)" using protocol_toString_valid(3) [OF assms(2)] by blast
  with assms show ?thesis
    by (simp add: start_parts_report classify_parts_def short_no_protocol protocol_Parse_toString)
qed
end
