(* ===== verification/Msg_Headers.thy ===== *)
theory Msg_Headers
  imports Msg_Util
begin

text \<open>
  Header lines: \<open>include/telling/msg_headers.h\<close> and the two \<open>MsgHeaderView\<close> functions of
  \<open>src/telling/msg_util.cpp\<close>. A \<open>MsgHeaders\<close> object is the string it views; iterating it is
  \<open>header_list\<close>.
\<close>

section \<open>Model\<close>

record MsgHeaderView =
  hv_name :: string
  hv_value :: string

definition is_blank :: "char \<Rightarrow> bool" where
  "is_blank c \<longleftrightarrow> c = SP \<or> c = TAB"

text \<open>The first loop of \<open>parse_header\<close>: the name and what follows the colon, if there is a colon on the line.\<close>

fun scan_name :: "string \<Rightarrow> (string \<times> string) option" where
  "scan_name [] = None"
| "scan_name (c # cs) =
    (if c = CR \<or> c = LF then None
     else if c = COLON then Some ([], cs)
     else map_option (\<lambda>(n, rest). (c # n, rest)) (scan_name cs))"

text \<open>The last loop: \<open>v_last\<close> as an offset from \<open>v_first\<close>, with the loop's position \<open>i\<close>.\<close>

fun value_last :: "string \<Rightarrow> nat \<Rightarrow> nat \<Rightarrow> nat" where
  "value_last [] i v_last = v_last"
| "value_last (c # cs) i v_last = value_last cs (i + 1) (if is_blank c then v_last else i + 1)"

definition parse_header :: "string \<Rightarrow> MsgHeaderView" where
  "parse_header line =
    (let (n, i) = (case scan_name line of None \<Rightarrow> ([], line) | Some (n, rest) \<Rightarrow> (n, rest));
         v_first = dropWhile is_blank i
     in \<lparr>hv_name = n, hv_value = take (value_last v_first 0 0) v_first\<rparr>)"

definition header_bool :: "MsgHeaderView \<Rightarrow> bool" where
  "header_bool h \<longleftrightarrow> hv_name h \<noteq> [] \<or> hv_value h \<noteq> []"

text \<open>The iterator: each step consumes one line and parses it.\<close>

function header_list :: "string \<Rightarrow> MsgHeaderView list" where
  "header_list s = (if s = [] then [] else
    (case ConsumeLine s of (line, rest) \<Rightarrow> parse_header line # header_list rest))"
  by auto
termination
  by (relation "measure length") (auto intro: ConsumeLine_shorter [OF sym])

declare header_list.simps [simp del]

text \<open>\<open>std::tolower\<close> in the C locale.\<close>

definition to_lower :: "char \<Rightarrow> char" where
  "to_lower c = (let n = of_char c :: nat in if 65 \<le> n \<and> n \<le> 90 then char_of (n + 32) else c)"

fun lower_eq :: "string \<Rightarrow> string \<Rightarrow> bool" where
  "lower_eq (a # as) (b # bs) \<longleftrightarrow> to_lower a = to_lower b \<and> lower_eq as bs"
| "lower_eq _ _ \<longleftrightarrow> True"

definition header_is :: "MsgHeaderView \<Rightarrow> string \<Rightarrow> bool" where
  "header_is h n = (if length (hv_name h) \<noteq> length n then False else lower_eq (hv_name h) n)"

text \<open>
  \<open>std::from_chars\<close> into an \<open>int64_t\<close>, base ten: an optional minus sign and the longest run of
  digits. Without a digit, or when the number does not fit, the destination keeps its value.
\<close>

definition from_chars_int64 :: "string \<Rightarrow> int \<Rightarrow> int" where
  "from_chars_int64 s dest =
    (let neg = (s \<noteq> [] \<and> hd s = CHR ''-'');
         ds = takeWhile is_digit (if neg then tl s else s);
         v = (if neg then - int (dec_value ds) else int (dec_value ds))
     in if ds = [] \<or> v < - (2 ^ 63) \<or> v \<ge> 2 ^ 63 then dest else v)"

text \<open>
  \<open>value_dec\<close> reads the character at the start of the value even when the value is empty; in a
  parsed message that is the end of the line, never a plus sign.
\<close>

definition value_dec :: "MsgHeaderView \<Rightarrow> int \<Rightarrow> int" where
  "value_dec h int_value =
    (let v = hv_value h; b = (if v \<noteq> [] \<and> hd v = CHR ''+'' then tl v else v)
     in from_chars_int64 b int_value)"

section \<open>Lemmas\<close>

lemma is_blank_simps [simp]: "is_blank SP" "is_blank TAB"
  by (simp_all add: is_blank_def)

definition trim_right :: "string \<Rightarrow> string" where
  "trim_right s = rev (dropWhile is_blank (rev s))"

lemma value_last_blank: "\<forall>c \<in> set s. is_blank c \<Longrightarrow> value_last s i l = l"
  by (induction s arbitrary: i) auto

lemma value_last_snoc: "\<not> is_blank c \<Longrightarrow> \<forall>d \<in> set t. is_blank d \<Longrightarrow> value_last (s @ c # t) i l = i + length s + 1"
  by (induction s arbitrary: i l) (auto simp: value_last_blank)

lemma take_value_last: "take (value_last s 0 0) s = trim_right s"
proof (cases "\<forall>c \<in> set s. is_blank c")
  case True
  then have "dropWhile is_blank (rev s) = []" by (simp only: dropWhile_eq_Nil_conv set_rev)
  with True show ?thesis by (simp only: trim_right_def value_last_blank take_0 rev.simps)
next
  case False
  then obtain u c t where s: "s = u @ c # t" and c: "\<not> is_blank c" and t: "\<forall>d \<in> set t. is_blank d"
    using split_list_last_prop [of s "\<lambda>c. \<not> is_blank c"] by blast
  have "dropWhile is_blank (rev t @ c # rev u) = c # rev u"
    using c t by (intro dropWhile_append_stop) simp_all
  with c t show ?thesis unfolding s trim_right_def by (simp add: value_last_snoc)
qed

definition trim :: "string \<Rightarrow> string" where
  "trim s = trim_right (dropWhile is_blank s)"

lemma trim_id: "s = [] \<or> \<not> is_blank (hd s) \<and> \<not> is_blank (last s) \<Longrightarrow> trim s = s"
proof -
  assume *: "s = [] \<or> \<not> is_blank (hd s) \<and> \<not> is_blank (last s)"
  then have "dropWhile is_blank s = s" by (cases s) auto
  moreover from * have "trim_right s = s" by (cases s rule: rev_cases) (auto simp: trim_right_def)
  ultimately show "trim s = s" by (simp add: trim_def)
qed

lemma trim_right_blanks: "\<forall>c \<in> set b. is_blank c \<Longrightarrow> trim_right (s @ b) = trim_right s"
  unfolding trim_right_def rev_append by (subst dropWhile_append2) auto

lemma scan_name_Some [msg_simps]:
  "no_newline n \<Longrightarrow> COLON \<notin> set n \<Longrightarrow> scan_name (n @ COLON # rest) = Some (n, rest)"
  by (induction n) auto

lemma scan_name_None [msg_simps]: "COLON \<notin> set s \<Longrightarrow> scan_name s = None"
  by (induction s) auto

text \<open>Every header line falls in one of two classes.\<close>

lemma parse_header_named [msg_simps]:
  "no_newline n \<Longrightarrow> COLON \<notin> set n \<Longrightarrow>
    parse_header (n @ COLON # v) = \<lparr>hv_name = n, hv_value = trim v\<rparr>"
  by (simp add: parse_header_def scan_name_Some take_value_last trim_def)

lemma parse_header_unnamed [msg_simps]:
  "COLON \<notin> set s \<Longrightarrow> parse_header s = \<lparr>hv_name = [], hv_value = trim s\<rparr>"
  by (simp add: parse_header_def scan_name_None take_value_last trim_def)

text \<open>The header fields that can be written on a line, and their line.\<close>

definition field_ok :: "string \<times> string \<Rightarrow> bool" where
  "field_ok f \<longleftrightarrow> no_newline (fst f) \<and> COLON \<notin> set (fst f) \<and> no_newline (snd f)"

definition field_line :: "string \<times> string \<Rightarrow> string" where
  "field_line f = fst f @ COLON # snd f"

lemma field_line_nonempty [simp]: "field_line f \<noteq> []"
  by (simp add: field_line_def)

lemma no_newline_field_line [simp]: "field_ok f \<Longrightarrow> no_newline (field_line f)"
  by (simp add: field_ok_def field_line_def)

definition field_view :: "string \<times> string \<Rightarrow> MsgHeaderView" where
  "field_view f = \<lparr>hv_name = fst f, hv_value = trim (snd f)\<rparr>"

lemma parse_field_line [msg_simps]: "field_ok f \<Longrightarrow> parse_header (field_line f) = field_view f"
  by (simp add: field_ok_def field_line_def field_view_def parse_header_named)

text \<open>Iterating over lines parses each of them.\<close>

lemma header_list_lines:
  assumes "is_nl nl" and "list_all no_newline ls"
  shows "header_list (join_lines nl ls) = map parse_header ls"
  using assms(2)
proof (induction ls)
  case Nil
  show ?case by (simp add: header_list.simps)
next
  case (Cons l ls)
  then have "ConsumeLine (l @ nl @ join_lines nl ls) = (l, join_lines nl ls)"
    by (intro ConsumeLine_nl [OF assms(1)]) simp
  with Cons assms(1) show ?case
    by (subst header_list.simps) auto
qed

lemma header_list_fields [msg_simps]:
  assumes "is_nl nl" and "list_all field_ok fs"
  shows "header_list (join_lines nl (map field_line fs)) = map field_view fs"
  using assms(2) header_list_lines [OF assms(1), of "map field_line fs"]
  by (simp add: list_all_iff parse_field_line cong: map_cong)

lemma to_lower_idem [simp]: "to_lower (to_lower c) = to_lower c"
  by (simp add: to_lower_def Let_def)

lemma lower_eq_map: "length a = length b \<Longrightarrow> lower_eq a b \<longleftrightarrow> map to_lower a = map to_lower b"
  by (induction a b rule: list_induct2) auto

lemma header_is_iff: "header_is h n \<longleftrightarrow> map to_lower (hv_name h) = map to_lower n"
  by (metis header_is_def length_map lower_eq_map)

lemma value_dec_dec_string:
  assumes "n < 2 ^ 63" and "hv_value h = dec_string n"
  shows "value_dec h d = int n"
proof -
  have dig: "\<forall>c \<in> set (dec_string n). is_digit c" by (simp add: dec_string_is_digit)
  then have "is_digit (hd (dec_string n))" by simp
  then have "hd (dec_string n) \<noteq> CHR ''+''" "hd (dec_string n) \<noteq> CHR ''-''"
    by (auto simp: is_digit_def)
  with assms dig show ?thesis
    by (simp add: value_dec_def from_chars_int64_def Let_def dec_value_dec_string)
qed

section \<open>Properties\<close>

text \<open>
  Iterating over header lines gives the fields that were written: for every list of writable
  fields, in either end-of-line convention, the iterator yields each name with its value trimmed of
  blanks, in order.
\<close>

theorem headers_iterate_fields:
  assumes "is_nl nl" "list_all field_ok fs"
  shows "header_list (join_lines nl (map field_line fs)) =
    map (\<lambda>f. \<lparr>hv_name = fst f, hv_value = trim (snd f)\<rparr>) fs"
  using header_list_fields [OF assms] by (simp add: field_view_def [abs_def])

theorem headers_iterate_fields_witness:
  "header_list (join_lines [LF] (map field_line [(''A'', '' b ''), (''C'', [])])) =
    [\<lparr>hv_name = ''A'', hv_value = ''b''\<rparr>, \<lparr>hv_name = ''C'', hv_value = []\<rparr>]"
  using headers_iterate_fields [of "[LF]" "[(''A'', '' b ''), (''C'', [])]"]
  by (simp add: field_ok_def trim_def trim_right_def is_blank_def)

text \<open>
  A header's numeric value: the decimal text of a number below 2^63 reads back as the number.
\<close>

theorem value_dec_reads_back:
  assumes "n < 2 ^ 63" "hv_value h = dec_string n"
  shows "value_dec h on_error = int n"
  using value_dec_dec_string [OF assms] .

theorem value_dec_reads_back_witness:
  "value_dec \<lparr>hv_name = [], hv_value = dec_string 1024\<rparr> 0 = 1024"
  using value_dec_reads_back [of 1024 "\<lparr>hv_name = [], hv_value = dec_string 1024\<rparr>" 0] by simp

end
