(* ===== verification/Msg_Method.thy ===== *)
theory Msg_Method
  imports Prelude
begin

unbundle bit_operations_syntax

text \<open>
  Request methods: \<open>include/telling/msg_method.h\<close>. \<open>MethodCode\<close> with its integer values, the
  categories of class \<open>Method\<close>, its conversion to and from text, and the bit set \<open>Methods\<close>. The
  enumerators \<open>Unknown\<close> and \<open>None\<close> are renamed, because HOL has a constructor \<open>None\<close>.
\<close>

section \<open>Method codes\<close>

datatype MethodCode =
    MethodUnknown | MethodNone | GET | HEAD | POST | PUT | DELETE | PATCH | OPTIONS
  | CONNECT | TRACE | EndOfValidMethods

primrec method_int :: "MethodCode \<Rightarrow> int" where
  "method_int MethodUnknown = -1"
| "method_int MethodNone = 0"
| "method_int GET = 1"
| "method_int HEAD = 2"
| "method_int POST = 3"
| "method_int PUT = 4"
| "method_int DELETE = 5"
| "method_int PATCH = 6"
| "method_int OPTIONS = 7"
| "method_int CONNECT = 8"
| "method_int TRACE = 9"
| "method_int EndOfValidMethods = 10"

type_synonym Method = MethodCode

definition method_valid :: "Method \<Rightarrow> bool" where
  "method_valid m \<longleftrightarrow> method_int m > method_int MethodNone \<and> method_int m < method_int EndOfValidMethods"

section \<open>Categories\<close>

definition isSafe :: "Method \<Rightarrow> bool" where
  "isSafe m = (case m of GET \<Rightarrow> True | HEAD \<Rightarrow> True | OPTIONS \<Rightarrow> True | TRACE \<Rightarrow> True | _ \<Rightarrow> False)"

definition isIdempotent :: "Method \<Rightarrow> bool" where
  "isIdempotent m = (case m of GET \<Rightarrow> True | HEAD \<Rightarrow> True | PUT \<Rightarrow> True | DELETE \<Rightarrow> True
    | OPTIONS \<Rightarrow> True | TRACE \<Rightarrow> True | _ \<Rightarrow> False)"

definition isCacheable :: "Method \<Rightarrow> bool" where
  "isCacheable m = (case m of GET \<Rightarrow> True | HEAD \<Rightarrow> True | POST \<Rightarrow> True | _ \<Rightarrow> False)"

definition allowRequestBody :: "Method \<Rightarrow> bool" where
  "allowRequestBody m = (case m of HEAD \<Rightarrow> False | DELETE \<Rightarrow> False | TRACE \<Rightarrow> False | _ \<Rightarrow> True)"

definition allowResponseBody :: "Method \<Rightarrow> bool" where
  "allowResponseBody m = (case m of HEAD \<Rightarrow> False | _ \<Rightarrow> True)"

definition allowNoResponse :: "Method \<Rightarrow> bool" where
  "allowNoResponse m = (case m of GET \<Rightarrow> False | HEAD \<Rightarrow> False | OPTIONS \<Rightarrow> False
    | CONNECT \<Rightarrow> False | TRACE \<Rightarrow> False | _ \<Rightarrow> True)"

section \<open>Text\<close>

primrec method_toString :: "Method \<Rightarrow> string" where
  "method_toString GET = ''GET''"
| "method_toString HEAD = ''HEAD''"
| "method_toString POST = ''POST''"
| "method_toString PUT = ''PUT''"
| "method_toString DELETE = ''DELETE''"
| "method_toString PATCH = ''PATCH''"
| "method_toString OPTIONS = ''OPTIONS''"
| "method_toString TRACE = ''TRACE''"
| "method_toString CONNECT = ''CONNECT''"
| "method_toString MethodNone = ''NoMethod''"
| "method_toString MethodUnknown = ''UnknownMethod''"
| "method_toString EndOfValidMethods = ''UnknownMethod''"

definition CC2 :: "char \<Rightarrow> char \<Rightarrow> u32" where
  "CC2 a b = push_bit 8 (char_u32 a) OR char_u32 b"

text \<open>One case of the \<open>switch\<close> in \<open>Method::Parse\<close> (the macro \<open>TELLING_METHOD_PARSE_CASE\<close>).\<close>

definition method_parse_case :: "MethodCode \<Rightarrow> string \<Rightarrow> string \<Rightarrow> Method" where
  "method_parse_case code name v = (if v = name then code else MethodUnknown)"

definition method_Parse :: "string \<Rightarrow> Method" where
  "method_Parse v =
    (if length v = 0 then MethodNone
     else if length v = 1 then MethodUnknown
     else let k = CC2 (v ! 0) (v ! 1) in
       if k = CC2 (CHR ''G'') (CHR ''E'') then method_parse_case GET ''GET'' v
       else if k = CC2 (CHR ''H'') (CHR ''E'') then method_parse_case HEAD ''HEAD'' v
       else if k = CC2 (CHR ''P'') (CHR ''O'') then method_parse_case POST ''POST'' v
       else if k = CC2 (CHR ''P'') (CHR ''U'') then method_parse_case PUT ''PUT'' v
       else if k = CC2 (CHR ''D'') (CHR ''E'') then method_parse_case DELETE ''DELETE'' v
       else if k = CC2 (CHR ''P'') (CHR ''A'') then method_parse_case PATCH ''PATCH'' v
       else if k = CC2 (CHR ''O'') (CHR ''P'') then method_parse_case OPTIONS ''OPTIONS'' v
       else if k = CC2 (CHR ''T'') (CHR ''R'') then method_parse_case TRACE ''TRACE'' v
       else if k = CC2 (CHR ''C'') (CHR ''O'') then method_parse_case CONNECT ''CONNECT'' v
       else MethodUnknown)"

section \<open>Sets of methods\<close>

text \<open>
  \<open>Methods\<close> is a 32-bit mask. A shift by 32 or more is undefined in C++: the operations that can
  reach one (\<open>erase\<close> and \<open>contains\<close>, which do not test the code as \<open>insert\<close> does) return
  \<open>None\<close> there.
\<close>

type_synonym Methods = u32

definition shift_count :: "Method \<Rightarrow> nat" where
  "shift_count m = unat (word_of_int (method_int m) :: u32)"

definition methods_empty :: Methods where
  "methods_empty = 0"

definition methods_All :: Methods where
  "methods_All = NOT 1"

definition methods_insert :: "Method \<Rightarrow> Methods \<Rightarrow> Methods" where
  "methods_insert m ms =
    (if method_int m > method_int MethodNone then ms OR push_bit (shift_count m) 1 else ms)"

definition methods_erase :: "Method \<Rightarrow> Methods \<Rightarrow> Methods option" where
  "methods_erase m ms =
    (if shift_count m < 32 then Some (ms AND NOT (push_bit (shift_count m) 1)) else None)"

definition methods_contains :: "Method \<Rightarrow> Methods \<Rightarrow> bool option" where
  "methods_contains m ms =
    (if shift_count m < 32 then Some (drop_bit (shift_count m) ms AND 1 \<noteq> 0) else None)"

definition methods_pair :: "Method \<Rightarrow> Method \<Rightarrow> Methods" where
  "methods_pair a b = methods_insert b (methods_insert a methods_empty)"

section \<open>Lemmas\<close>

lemma method_valid_iff:
  "method_valid m \<longleftrightarrow> m \<in> {GET, HEAD, POST, PUT, DELETE, PATCH, OPTIONS, CONNECT, TRACE}"
  by (cases m) (simp_all add: method_valid_def)

lemma shift_count_eq: "m \<noteq> MethodUnknown \<Longrightarrow> shift_count m = nat (method_int m)"
  by (cases m) (simp_all add: shift_count_def)

lemma shift_count_Unknown: "\<not> shift_count MethodUnknown < 32"
  by (simp add: shift_count_def unsigned_minus_1_eq_mask mask_eq_exp_minus_1)

lemma shift_count_small: "m \<noteq> MethodUnknown \<Longrightarrow> shift_count m < 32"
  by (cases m) (simp_all add: shift_count_eq)

lemma method_int_inj: "method_int m = method_int m' \<longleftrightarrow> m = m'"
  by (cases m; cases m') simp_all

lemma method_int_nonneg: "m \<noteq> MethodUnknown \<Longrightarrow> 0 \<le> method_int m"
  by (cases m) simp_all

lemma shift_count_inj:
  "m \<noteq> MethodUnknown \<Longrightarrow> m' \<noteq> MethodUnknown \<Longrightarrow> shift_count m = shift_count m' \<longleftrightarrow> m = m'"
  by (simp add: shift_count_eq nat_eq_iff method_int_nonneg method_int_inj)

lemma contains_bit: "m \<noteq> MethodUnknown \<Longrightarrow> methods_contains m ms = Some (bit ms (shift_count m))"
  by (simp add: methods_contains_def shift_count_small and_one_eq bit_iff_odd_drop_bit odd_iff_mod_2_eq_one)

lemma method_Parse_names:
  "method_Parse ''GET'' = GET" "method_Parse ''HEAD'' = HEAD" "method_Parse ''POST'' = POST"
  "method_Parse ''PUT'' = PUT" "method_Parse ''DELETE'' = DELETE" "method_Parse ''PATCH'' = PATCH"
  "method_Parse ''OPTIONS'' = OPTIONS" "method_Parse ''TRACE'' = TRACE"
  "method_Parse ''CONNECT'' = CONNECT"
  by code_simp+

lemma method_Parse_toString: "method_valid m \<Longrightarrow> method_Parse (method_toString m) = m"
  by (cases m) (simp_all only: method_toString.simps method_Parse_names, simp_all add: method_valid_def)

lemma method_parse_case_cases:
  "method_toString code = name \<Longrightarrow>
    method_parse_case code name v = MethodUnknown \<or> method_toString (method_parse_case code name v) = v"
  by (simp add: method_parse_case_def)

lemma method_Parse_cases:
  "method_Parse v = MethodNone \<or> method_Parse v = MethodUnknown \<or> method_toString (method_Parse v) = v"
  unfolding method_Parse_def Let_def by (simp add: method_parse_case_cases split: if_split)

lemma method_Parse_valid: "method_valid (method_Parse v) \<Longrightarrow> method_toString (method_Parse v) = v"
  using method_Parse_cases [of v] by (auto simp: method_valid_def)

lemma method_toString_length: "method_valid m \<Longrightarrow> 3 \<le> length (method_toString m) \<and> length (method_toString m) \<le> 7"
  by (cases m) (simp_all add: method_valid_def)

lemma method_toString_chars:
  "list_all (\<lambda>c. c \<notin> {SP, LF, CR, SLASH, TAB, COLON}) (method_toString m)"
  by (cases m) simp_all

section \<open>Properties\<close>

text \<open>
  Methods and their names: the name of a valid method parses to the method, and a text that
  parses to a valid method is that method's name.
\<close>

theorem method_text_roundtrip:
  "method_valid (method_Parse v) \<longleftrightarrow> (\<exists>m. method_valid m \<and> v = method_toString m \<and> method_Parse v = m)"
  using method_Parse_toString method_Parse_valid by metis

text \<open>
  The bit set of methods behaves as a set: a method that is inserted is contained, one that is
  erased is not, and neither operation touches the other methods.
\<close>

theorem methods_set:
  assumes "method_valid m" "method_valid k"
  shows "methods_contains k (methods_insert m ms) = Some (k = m \<or> bit ms (shift_count k)) \<and>
    (\<exists>ms'. methods_erase m ms = Some ms' \<and> methods_contains k ms' = Some (k \<noteq> m \<and> bit ms (shift_count k)))"
proof -
  have m: "m \<noteq> MethodUnknown" "k \<noteq> MethodUnknown" "method_int m > method_int MethodNone"
    using assms by (auto simp: method_valid_def)
  have "shift_count k = shift_count m \<longleftrightarrow> k = m" using shift_count_inj [OF m(2,1)] by blast
  then show ?thesis
    using m shift_count_small [OF m(1)] shift_count_small [OF m(2)]
    by (auto simp: contains_bit methods_insert_def methods_erase_def bit_or_iff bit_and_iff bit_not_iff bit_push_bit_iff bit_1_iff bit_exp_iff)
qed

theorem methods_set_witness:
  "methods_contains GET (methods_insert GET methods_empty) = Some True"
  using methods_set [of GET GET methods_empty] by (simp add: method_valid_def)

end
