(* ===== verification/Msg_Uri.thy ===== *)
theory Msg_Uri
  imports Prelude
begin

text \<open>
  URIs: \<open>include/telling/msg_uri.h\<close>, the template \<open>Uri_\<close> at \<open>std::string_view\<close>
  (\<open>UriView\<close>). A view is truthy when its data pointer is not null, so a view is an optional
  string; a position that is not found (\<open>npos\<close>) is \<open>None\<close>. The last section relates popping
  elements from either end to the list of path components.
\<close>

type_synonym UriView = "string option"

section \<open>Searches of the standard library that the class uses\<close>

definition find_first_not_of :: "char \<Rightarrow> string \<Rightarrow> nat option" where
  "find_first_not_of c s =
    (let n = length (takeWhile (\<lambda>x. x = c) s) in if n < length s then Some n else None)"

definition find_first_of :: "char \<Rightarrow> string \<Rightarrow> nat option \<Rightarrow> nat option" where
  "find_first_of c s pos = (case pos of None \<Rightarrow> None | Some p \<Rightarrow>
    (let n = p + length (takeWhile (\<lambda>x. x \<noteq> c) (drop p s)) in if n < length s then Some n else None))"

definition find_last_not_of :: "char \<Rightarrow> string \<Rightarrow> nat option" where
  "find_last_not_of c s =
    (let n = length (dropWhile (\<lambda>x. x = c) (rev s)) in if n = 0 then None else Some (n - 1))"

definition find_last_of :: "char \<Rightarrow> string \<Rightarrow> nat option \<Rightarrow> nat option" where
  "find_last_of c s pos =
    (let t = (case pos of None \<Rightarrow> s | Some p \<Rightarrow> take (Suc p) s);
         n = length (dropWhile (\<lambda>x. x \<noteq> c) (rev t))
     in if n = 0 then None else Some (n - 1))"

section \<open>Operations\<close>

definition uri_text :: "UriView \<Rightarrow> string" where
  "uri_text u = (case u of None \<Rightarrow> [] | Some s \<Rightarrow> s)"

definition hasPrefix :: "UriView \<Rightarrow> string \<Rightarrow> bool" where
  "hasPrefix u p \<longleftrightarrow> take (length p) (uri_text u) = p"

definition subpath :: "UriView \<Rightarrow> string \<Rightarrow> UriView" where
  "subpath u p = (if hasPrefix u p then map_option (drop (length p)) u else None)"

definition front_range :: "string \<Rightarrow> nat \<times> nat" where
  "front_range s =
    (let beg = find_first_not_of SLASH s; end = find_first_of SLASH s beg
     in (case beg of None \<Rightarrow> length s | Some b \<Rightarrow> b, case end of None \<Rightarrow> length s | Some e \<Rightarrow> e))"

definition uri_front :: "string \<Rightarrow> string" where
  "uri_front s = (let (b, e) = front_range s in take (e - b) (drop b s))"

definition pop_front :: "string \<Rightarrow> string \<times> string" where
  "pop_front s =
    (let result = uri_front s; b = fst (front_range s)
     in (result, if length result \<noteq> 0 then drop (b + length result) s else s))"

definition back_range :: "string \<Rightarrow> nat \<times> nat" where
  "back_range s =
    (let end = find_last_not_of SLASH s; beg = find_last_of SLASH s end
     in (case beg of None \<Rightarrow> 0 | Some b \<Rightarrow> Suc b, case end of None \<Rightarrow> length s | Some e \<Rightarrow> Suc e))"

definition uri_back :: "string \<Rightarrow> string" where
  "uri_back s = (if length s = 0 then [] else (let (b, e) = back_range s in take (e - b) (drop b s)))"

definition pop_back :: "string \<Rightarrow> string \<times> string" where
  "pop_back s =
    (let result = uri_back s; b = fst (back_range s)
     in (result, if length result \<noteq> 0 then take b s else s))"

section \<open>Path components\<close>

text \<open>The reference: split at every slash and keep the non-empty pieces.\<close>

fun split_slash :: "string \<Rightarrow> string list" where
  "split_slash [] = [[]]"
| "split_slash (c # cs) =
    (if c = SLASH then [] # split_slash cs
     else (c # hd (split_slash cs)) # tl (split_slash cs))"

definition components :: "string \<Rightarrow> string list" where
  "components s = filter (\<lambda>w. w \<noteq> []) (split_slash s)"

lemma split_slash_nonempty [simp]: "split_slash s \<noteq> []"
  by (cases s) auto

lemma split_slash_append: "split_slash (a @ SLASH # b) = split_slash a @ split_slash b"
  by (induction a) auto

lemma split_slash_word: "SLASH \<notin> set w \<Longrightarrow> split_slash w = [w]"
  by (induction w) auto

lemma components_Nil [simp]: "components [] = []"
  by (simp add: components_def)

lemma components_append: "components (a @ SLASH # b) = components a @ components b"
  by (simp add: components_def split_slash_append)

lemma components_word: "SLASH \<notin> set w \<Longrightarrow> components w = (if w = [] then [] else [w])"
  by (simp add: components_def split_slash_word)

lemma components_slash_Cons [simp]: "components (SLASH # s) = components s"
  by (simp add: components_def)

lemma components_slashes: "\<forall>c \<in> set a. c = SLASH \<Longrightarrow> components (a @ s) = components s"
  by (induction a) auto

lemma components_slashes_end: "\<forall>c \<in> set a. c = SLASH \<Longrightarrow> components (s @ a) = components s"
proof (induction a rule: rev_induct)
  case (snoc c a)
  then have "components ((s @ a) @ SLASH # []) = components (s @ a) @ components []"
    by (intro components_append)
  with snoc show ?case by simp
qed simp

section \<open>Popping elements\<close>

lemma front_decomp:
  obtains (slashes) "\<forall>c \<in> set s. c = SLASH" "uri_front s = []"
  | (word) a w r where "s = a @ w @ r" "\<forall>c \<in> set a. c = SLASH" "w \<noteq> []" "SLASH \<notin> set w"
      "r = [] \<or> hd r = SLASH" "uri_front s = w" "pop_front s = (w, r)"
proof -
  define a where "a = takeWhile (\<lambda>x. x = SLASH) s"
  define t where "t = dropWhile (\<lambda>x. x = SLASH) s"
  define w where "w = takeWhile (\<lambda>x. x \<noteq> SLASH) t"
  define r where "r = dropWhile (\<lambda>x. x \<noteq> SLASH) t"
  have s: "s = a @ w @ r" by (simp add: a_def w_def r_def t_def)
  have a: "\<forall>c \<in> set a. c = SLASH" by (auto simp: a_def dest: set_takeWhileD)
  have w: "SLASH \<notin> set w" by (auto simp: w_def dest: set_takeWhileD)
  have r: "r = [] \<or> hd r = SLASH" using hd_dropWhile [of "\<lambda>x. x \<noteq> SLASH" t] by (auto simp: r_def)
  have len: "length s = length a + length w + length r" by (simp add: s)
  show thesis
  proof (cases "t = []")
    case True
    then have "w = []" "r = []" by (simp_all add: w_def r_def)
    with s a have "\<forall>c \<in> set s. c = SLASH" by simp
    moreover have "uri_front s = []"
      using \<open>w = []\<close> \<open>r = []\<close> len
      by (simp add: uri_front_def front_range_def find_first_not_of_def find_first_of_def a_def [symmetric])
    ultimately show ?thesis by (rule slashes)
  next
    case False
    then have "hd t \<noteq> SLASH" using hd_dropWhile [of "\<lambda>x. x = SLASH" s] by (simp add: t_def)
    with False have "w \<noteq> []" by (cases t) (auto simp: w_def)
    have "find_first_not_of SLASH s = Some (length a)"
      using \<open>w \<noteq> []\<close> len by (simp add: find_first_not_of_def a_def [symmetric])
    moreover have "drop (length a) s = t" by (simp add: s) (simp add: w_def r_def)
    then have "find_first_of SLASH s (Some (length a)) =
        (if r = [] then None else Some (length a + length w))"
      using len by (simp add: find_first_of_def w_def [symmetric])
    ultimately have "front_range s = (length a, length a + length w)"
      using len by (auto simp: front_range_def)
    then have f: "uri_front s = w" by (simp add: uri_front_def s)
    moreover have "pop_front s = (w, r)"
      using \<open>front_range s = _\<close> \<open>w \<noteq> []\<close> f by (simp add: pop_front_def) (simp add: s)
    ultimately show ?thesis using word s a \<open>w \<noteq> []\<close> w r by blast
  qed
qed

lemma back_decomp:
  obtains (slashes) "\<forall>c \<in> set s. c = SLASH" "uri_back s = []"
  | (word) a w r where "s = r @ w @ a" "\<forall>c \<in> set a. c = SLASH" "w \<noteq> []" "SLASH \<notin> set w"
      "r = [] \<or> last r = SLASH" "uri_back s = w" "pop_back s = (w, r)"
proof -
  define a where "a = rev (takeWhile (\<lambda>x. x = SLASH) (rev s))"
  define t where "t = rev (dropWhile (\<lambda>x. x = SLASH) (rev s))"
  define w where "w = rev (takeWhile (\<lambda>x. x \<noteq> SLASH) (rev t))"
  define r where "r = rev (dropWhile (\<lambda>x. x \<noteq> SLASH) (rev t))"
  have t: "t = r @ w" by (simp add: w_def r_def flip: rev_append)
  have s': "s = t @ a" by (simp add: a_def t_def flip: rev_append)
  then have s: "s = r @ w @ a" by (simp add: t)
  have a: "\<forall>c \<in> set a. c = SLASH" by (auto simp: a_def dest: set_takeWhileD)
  have w: "SLASH \<notin> set w" by (auto simp: w_def dest: set_takeWhileD)
  have r: "r = [] \<or> last r = SLASH"
    using hd_dropWhile [of "\<lambda>x. x \<noteq> SLASH" "rev t"] by (auto simp: r_def last_rev)
  have ltlen: "length (dropWhile (\<lambda>x. x = SLASH) (rev s)) = length t" by (simp add: t_def)
  have rlen: "length (dropWhile (\<lambda>x. x \<noteq> SLASH) (rev t)) = length r" by (simp add: r_def)
  show thesis
  proof (cases "t = []")
    case True
    with s' a have all: "\<forall>c \<in> set s. c = SLASH" by simp
    moreover have "uri_back s = []"
    proof (cases "s = []")
      case False
      then have "hd (rev s) = SLASH" using all by (simp add: hd_rev)
      with False have "dropWhile (\<lambda>x. x \<noteq> SLASH) (rev s) = rev s"
        by (cases "rev s") auto
      with True ltlen False show ?thesis
        by (simp add: uri_back_def back_range_def find_last_not_of_def find_last_of_def)
    qed (simp add: uri_back_def)
    ultimately show ?thesis by (rule slashes)
  next
    case False
    then have "hd (rev t) \<noteq> SLASH"
      using hd_dropWhile [of "\<lambda>x. x = SLASH" "rev s"] by (simp add: t_def)
    with False have "w \<noteq> []" by (cases "rev t") (auto simp: w_def)
    have "find_last_not_of SLASH s = Some (length t - 1)"
      using False ltlen by (simp add: find_last_not_of_def)
    moreover have tk: "take (Suc (length t - 1)) s = t" using False by (simp add: s')
    have "find_last_of SLASH s (Some (length t - 1)) = (if r = [] then None else Some (length r - 1))"
      unfolding find_last_of_def Let_def option.case tk rlen by simp
    ultimately have "back_range s = (length r, length t)"
      using False by (auto simp: back_range_def)
    moreover have "s \<noteq> []" using False s' by simp
    ultimately have b: "uri_back s = w" by (simp add: uri_back_def s t)
    then have "pop_back s = (w, r)"
      using \<open>back_range s = _\<close> \<open>w \<noteq> []\<close> by (simp add: pop_back_def) (simp add: s)
    with b show ?thesis using word s a \<open>w \<noteq> []\<close> w r by blast
  qed
qed

text \<open>A client's loop that pops elements until none is left.\<close>

function elements_front :: "string \<Rightarrow> string list" where
  "elements_front s =
    (let (e, s') = pop_front s in if e = [] then [] else e # elements_front s')"
  by pat_completeness auto
termination
proof (relation "measure length")
  fix s p e s'
  assume p: "p = pop_front s" "(e, s') = p" "e \<noteq> []"
  then have f: "uri_front s = e" by (simp add: pop_front_def Let_def)
  show "(s', s) \<in> measure length"
    by (cases s rule: front_decomp) (use p f in auto)
qed simp

function elements_back :: "string \<Rightarrow> string list" where
  "elements_back s =
    (let (e, s') = pop_back s in if e = [] then [] else e # elements_back s')"
  by pat_completeness auto
termination
proof (relation "measure length")
  fix s p e s'
  assume p: "p = pop_back s" "(e, s') = p" "e \<noteq> []"
  then have f: "uri_back s = e" by (simp add: pop_back_def Let_def)
  show "(s', s) \<in> measure length"
    by (cases s rule: back_decomp) (use p f in auto)
qed simp

declare elements_front.simps [simp del] elements_back.simps [simp del]

lemma components_all_slashes: "\<forall>c \<in> set s. c = SLASH \<Longrightarrow> components s = []"
  using components_slashes [of s "[]"] by simp

lemma components_front_word:
  assumes "\<forall>c \<in> set a. c = SLASH" "w \<noteq> []" "SLASH \<notin> set w" "r = [] \<or> hd r = SLASH"
  shows "components (a @ w @ r) = w # components r"
proof (cases r)
  case Nil
  with assms show ?thesis by (simp add: components_slashes components_word)
next
  case (Cons x xs)
  with assms have "components (w @ SLASH # xs) = w # components xs"
    by (simp add: components_append components_word)
  with Cons assms show ?thesis by (simp add: components_slashes)
qed

lemma components_back_word:
  assumes "\<forall>c \<in> set a. c = SLASH" "w \<noteq> []" "SLASH \<notin> set w" "r = [] \<or> last r = SLASH"
  shows "components (r @ w @ a) = components r @ [w]"
proof -
  have "components (r @ w @ a) = components (r @ w)"
    using components_slashes_end [of a "r @ w"] assms(1) by simp
  also have "\<dots> = components r @ [w]"
  proof (cases r rule: rev_cases)
    case Nil
    with assms show ?thesis by (simp add: components_word)
  next
    case (snoc ys y)
    with assms have y: "r = ys @ SLASH # []" by simp
    have "components (ys @ SLASH # w) = components ys @ [w]"
      using assms by (simp add: components_append components_word)
    moreover have "components r = components ys"
      unfolding y by (simp add: components_append)
    ultimately show ?thesis by (simp add: y)
  qed
  finally show ?thesis .
qed

lemma elements_front_components: "elements_front s = components s"
proof (induction s rule: elements_front.induct)
  case (1 s)
  show ?case
  proof (cases s rule: front_decomp)
    case slashes
    then show ?thesis
      by (simp add: elements_front.simps [of s] pop_front_def components_all_slashes)
  next
    case (word a w r)
    then have "elements_front r = components r" using "1" by auto
    moreover have "elements_front s = w # elements_front r"
      by (subst elements_front.simps) (simp add: word(3,7))
    ultimately show ?thesis
      using word(1-5) by (simp add: components_front_word)
  qed
qed

lemma elements_back_components: "elements_back s = rev (components s)"
proof (induction s rule: elements_back.induct)
  case (1 s)
  show ?case
  proof (cases s rule: back_decomp)
    case slashes
    then show ?thesis
      by (simp add: elements_back.simps [of s] pop_back_def components_all_slashes)
  next
    case (word a w r)
    then have "elements_back r = rev (components r)" using "1" by auto
    moreover have "elements_back s = w # elements_back r"
      by (subst elements_back.simps) (simp add: word(3,7))
    ultimately show ?thesis
      using word(1-5) by (simp add: components_back_word)
  qed
qed

lemma hasPrefix_iff: "hasPrefix u p \<longleftrightarrow> prefix p (uri_text u)"
  by (auto simp: hasPrefix_def prefix_def) (metis append_take_drop_id)

section \<open>Properties\<close>

text \<open>
  Popping elements off a URI visits its path components: from the front in order, from the back
  in reverse order, each exactly once, and runs of slashes never produce an element.
\<close>

theorem uri_iteration: "elements_front s = components s \<and> elements_back s = rev (components s)"
  by (simp add: elements_front_components elements_back_components)

end
