(* ===== verification/Msg_View.thy ===== *)
theory Msg_View
  imports Msg_Layout Msg_Headers Msg_Method Msg_Uri
begin

text \<open>
  Views of messages: \<open>include/telling/msg_view.h\<close>, \<open>include/telling/msg.h\<close> and \<open>MsgView::completion\<close> of
  \<open>src/telling/msg_view.cpp\<close>. A view pairs a message with the layout its bytes were parsed to.
\<close>

section \<open>Model\<close>

record MsgView =
  mv_layout :: MsgLayout
  mv_msg :: "nng_msg option"

text \<open>
  The parsing constructors. A view of no message leaves the layout \<open>L0\<close> of the object as it was
  before construction; a message that does not parse is an exception.
\<close>

definition msgview_default :: MsgView where
  "msgview_default = \<lparr>mv_layout = parse_reset, mv_msg = None\<rparr>"

definition msgview_make :: "MsgLayout \<Rightarrow> nng_msg option \<Rightarrow> MSG_TYPE \<Rightarrow> MsgView result" where
  "msgview_make L0 msg type =
    (case msg of
      None \<Rightarrow> Inr \<lparr>mv_layout = L0, mv_msg = None\<rparr>
    | Some m \<Rightarrow>
        (case parse_msg (m_body m) type L0 of
          (Inl e, _) \<Rightarrow> Inl e
        | (Inr _, L) \<Rightarrow> Inr \<lparr>mv_layout = L, mv_msg = Some m\<rparr>))"

definition msgview_request :: "MsgLayout \<Rightarrow> nng_msg option \<Rightarrow> MsgView result" where
  "msgview_request L0 msg = msgview_make L0 msg REQUEST"

definition msgview_reply :: "MsgLayout \<Rightarrow> nng_msg option \<Rightarrow> MsgView result" where
  "msgview_reply L0 msg = msgview_make L0 msg REPLY"

definition msgview_report :: "MsgLayout \<Rightarrow> nng_msg option \<Rightarrow> MsgView result" where
  "msgview_report L0 msg = msgview_make L0 msg REPORT"

text \<open>
  \<open>Msg\<close> owns its message: releasing it leaves a view of no message and keeps the layout; moving is
  releasing the source; a clone has a copy of the message.
\<close>

definition msg_release :: "MsgView \<Rightarrow> nng_msg option \<times> MsgView" where
  "msg_release v = (mv_msg v, v\<lparr>mv_msg := None\<rparr>)"

definition msg_move :: "MsgView \<Rightarrow> MsgView \<times> MsgView" where
  "msg_move v = (v, snd (msg_release v))"

definition mv_msgType :: "MsgView \<Rightarrow> MSG_TYPE" where
  "mv_msgType v = layout_type (mv_layout v)"

definition mv_bool :: "MsgView \<Rightarrow> bool" where
  "mv_bool v \<longleftrightarrow> mv_msgType v \<noteq> UNKNOWN"

definition mv_raw :: "MsgView \<Rightarrow> string" where
  "mv_raw v = (case mv_msg v of None \<Rightarrow> [] | Some m \<Rightarrow> m_body m)"

definition mv_string :: "MsgView \<Rightarrow> HeadRange \<Rightarrow> string" where
  "mv_string v r = take (snd r) (drop (fst r) (mv_raw v))"

definition string_rem_nl :: "string \<Rightarrow> string" where
  "string_rem_nl s0 =
    (let s = (if s0 \<noteq> [] \<and> last s0 = LF then butlast s0 else s0)
     in if s \<noteq> [] \<and> last s = CR then butlast s else s)"

definition mv_startLine :: "MsgView \<Rightarrow> string" where
  "mv_startLine v = mv_string v (startLine_range (mv_layout v))"

definition mv_uriString :: "MsgView \<Rightarrow> string" where
  "mv_uriString v = mv_string v (uri_range (mv_layout v))"

definition mv_methodString :: "MsgView \<Rightarrow> string" where
  "mv_methodString v = mv_string v (method_range (mv_layout v))"

definition mv_protocolString :: "MsgView \<Rightarrow> string" where
  "mv_protocolString v = mv_string v (protocol_range (mv_layout v))"

definition mv_statusString :: "MsgView \<Rightarrow> string" where
  "mv_statusString v = mv_string v (status_range (mv_layout v))"

definition mv_reason :: "MsgView \<Rightarrow> string" where
  "mv_reason v = mv_string v (reason_range (mv_layout v))"

definition mv_method :: "MsgView \<Rightarrow> Method" where
  "mv_method v = method_Parse (mv_methodString v)"

definition mv_protocol :: "MsgView \<Rightarrow> MsgProtocol" where
  "mv_protocol v = protocol_Parse (mv_protocolString v)"

definition mv_status :: "MsgView \<Rightarrow> Status" where
  "mv_status v = status_Parse (mv_statusString v)"

definition mv_headers :: "MsgView \<Rightarrow> MsgHeaderView list" where
  "mv_headers v = header_list (string_rem_nl (mv_string v (headers_range (mv_layout v))))"

definition mv_bodySize :: "MsgView \<Rightarrow> nat" where
  "mv_bodySize v = to_size_t (int (length (mv_raw v)) - uint (p_body (mv_layout v)))"

definition mv_bodyString :: "MsgView \<Rightarrow> string" where
  "mv_bodyString v = mv_string v (unat (p_body (mv_layout v)), mv_bodySize v)"

text \<open>Completeness of a message.\<close>

record MsgCompletion =
  mc_complete :: bool
  mc_is_chunked :: bool
  mc_length_header :: bool
  mc_message_length :: nat

definition mc_implicit :: "MsgCompletion \<Rightarrow> bool" where
  "mc_implicit c \<longleftrightarrow> \<not> mc_is_chunked c \<and> \<not> mc_length_header c"

fun str_find :: "string \<Rightarrow> string \<Rightarrow> bool" where
  "str_find p [] \<longleftrightarrow> p = []"
| "str_find p (c # cs) \<longleftrightarrow> prefix p (c # cs) \<or> str_find p cs"

definition completion_header :: "MsgHeaderView \<Rightarrow> MsgCompletion \<Rightarrow> MsgCompletion" where
  "completion_header h c =
    (if header_is h ''Content-Length''
     then c\<lparr>mc_length_header := True, mc_message_length := to_size_t (value_dec h 0)\<rparr>
     else if header_is h ''Transfer-Encoding''
     then (if str_find ''chunked'' (hv_value h) then c\<lparr>mc_is_chunked := True\<rparr> else c)
     else c)"

definition completion :: "MsgView \<Rightarrow> MsgCompletion" where
  "completion v =
    (let c = fold completion_header (mv_headers v)
           \<lparr>mc_complete = False, mc_is_chunked = False, mc_length_header = False, mc_message_length = 0\<rparr>;
         c = (if mc_length_header c \<and> mv_bodySize v \<ge> mc_message_length c
                 then c\<lparr>mc_complete := True\<rparr> else c)
     in if mc_implicit c \<and> \<not> is_http (mv_protocol v)
        then c\<lparr>mc_complete := True, mc_message_length := mv_bodySize v\<rparr> else c)"

section \<open>Ranges\<close>

definition in_bounds :: "nat \<Rightarrow> HeadRange \<Rightarrow> bool" where
  "in_bounds n r \<longleftrightarrow> snd r = 0 \<or> fst r + snd r \<le> n"

lemma to_size_t_nat: "x = int n \<Longrightarrow> n < 2 ^ 32 \<Longrightarrow> to_size_t x = n"
  by (simp add: to_size_t_def)

lemma uint_int_unat: "uint x = int (unat x)"
  by simp

text \<open>The ranges of a layout with sound arithmetic, without the conversions.\<close>

lemma layout_ok_ranges:
  assumes "layout_ok n L"
  shows "headers_range L = (p_headers L, unat (p_body L) - p_headers L)"
    and "method_range L = (0, unat (uri_pos L) - 1)"
    and "has_uri L \<Longrightarrow> uri_range L = (unat (uri_pos L),
      unat (sl_len L) - unat (uri_pos L) - unat (prt_rpos L) - of_bool (prt_rpos L \<noteq> 0))"
    and "\<not> has_uri L \<Longrightarrow> uri_range L = (unat (uri_pos L), 0)"
    and "protocol_range L = (unat (sl_len L) - unat (prt_rpos L),
      unat (prt_rpos L) - unat (sts_rpos L) - of_bool (prt_rpos L \<noteq> 0 \<and> sts_rpos L \<noteq> 0))"
    and "status_range L = (unat (sl_len L) - unat (sts_rpos L), if sts_rpos L \<noteq> 0 then 3 else 0)"
    and "reason_range L = (unat (sl_len L) + 4 - unat (sts_rpos L), unat (sts_rpos L) - 4)"
proof -
  define sl u p s b where d: "sl = unat (sl_len L)" "u = unat (uri_pos L)" "p = unat (prt_rpos L)"
    "s = unat (sts_rpos L)" "b = unat (p_body L)"
  have nz: "uri_pos L \<noteq> 0 \<longleftrightarrow> u \<noteq> 0" "prt_rpos L \<noteq> 0 \<longleftrightarrow> p \<noteq> 0" "sts_rpos L \<noteq> 0 \<longleftrightarrow> s \<noteq> 0"
    "sts_rpos L > 4 \<longleftrightarrow> s > 4"
    by (simp_all add: d unat_eq_zero word_less_nat_alt)
  have bd: "sl < 65536" "u < 256" "p < 256" "s < 256" "b < 65536" by (simp_all add: d)
  note ok = assms [unfolded layout_ok_def nz, folded d]
  note simps = headers_range_def method_range_def uri_range_def protocol_range_def status_range_def
    reason_range_def uint_int_unat d [symmetric] nz Let_def
  show "headers_range L = (p_headers L, unat (p_body L) - p_headers L)"
    using ok bd by (simp only: simps prod.inject simp_thms) (intro to_size_t_nat; simp)
  show "method_range L = (0, unat (uri_pos L) - 1)"
    using ok bd by (simp only: simps prod.inject simp_thms) (intro to_size_t_nat; auto)
  show "has_uri L \<Longrightarrow> uri_range L = (unat (uri_pos L),
      unat (sl_len L) - unat (uri_pos L) - unat (prt_rpos L) - of_bool (prt_rpos L \<noteq> 0))"
    using ok bd by (simp only: simps prod.inject simp_thms if_True) (intro to_size_t_nat; auto)
  show "\<not> has_uri L \<Longrightarrow> uri_range L = (unat (uri_pos L), 0)"
    by (simp only: simps prod.inject simp_thms if_False) (intro to_size_t_nat; simp)
  show "protocol_range L = (unat (sl_len L) - unat (prt_rpos L),
      unat (prt_rpos L) - unat (sts_rpos L) - of_bool (prt_rpos L \<noteq> 0 \<and> sts_rpos L \<noteq> 0))"
    using ok bd by (simp only: simps prod.inject) (intro conjI to_size_t_nat; auto)
  show "status_range L = (unat (sl_len L) - unat (sts_rpos L), if sts_rpos L \<noteq> 0 then 3 else 0)"
    using ok bd by (simp only: simps prod.inject simp_thms) (intro to_size_t_nat; auto)
  have "to_size_t (int s - 4) = s - 4" if "s > 4" using that bd by (intro to_size_t_nat) auto
  then show "reason_range L = (unat (sl_len L) + 4 - unat (sts_rpos L), unat (sts_rpos L) - 4)"
    using ok bd by (simp only: simps prod.inject) (intro conjI to_size_t_nat; auto)
qed

lemma layout_ok_in_bounds:
  assumes "layout_ok n L"
  shows "in_bounds n (startLine_range L)" "in_bounds n (headers_range L)" "in_bounds n (method_range L)"
    "in_bounds n (uri_range L)" "in_bounds n (protocol_range L)" "in_bounds n (status_range L)"
    "in_bounds n (reason_range L)"
proof -
  have nz: "unat (prt_rpos L) = 0 \<longleftrightarrow> prt_rpos L = 0" "unat (sts_rpos L) = 0 \<longleftrightarrow> sts_rpos L = 0"
    by (simp_all add: unat_eq_zero)
  note ok = assms [unfolded layout_ok_def p_headers_def]
  note r = layout_ok_ranges [OF assms]
  show "in_bounds n (startLine_range L)" using ok by (simp add: in_bounds_def startLine_range_def)
  show "in_bounds n (headers_range L)" using ok unfolding r in_bounds_def p_headers_def by simp
  show "in_bounds n (method_range L)" using ok unfolding r in_bounds_def by auto
  show "in_bounds n (uri_range L)" using ok r(3,4) by (cases "has_uri L") (auto simp: in_bounds_def)
  show "in_bounds n (protocol_range L)" using ok unfolding r in_bounds_def by auto
  show "in_bounds n (status_range L)" using ok nz unfolding r in_bounds_def by (cases "sts_rpos L = 0") auto
  show "in_bounds n (reason_range L)" using ok nz unfolding r in_bounds_def by auto
qed
section \<open>Views of assembled messages\<close>

definition msg_head :: "string \<Rightarrow> string \<Rightarrow> (string \<times> string) list \<Rightarrow> string" where
  "msg_head line nl fs = line @ nl @ join_lines nl (map field_line fs) @ nl"

lemma string_rem_nl_lines:
  assumes "is_nl nl"
  shows "string_rem_nl (join_lines nl ls @ nl) = join_lines nl ls"
proof (cases ls rule: rev_cases)
  case Nil
  with assms show ?thesis by (auto simp: string_rem_nl_def)
next
  case (snoc ks k)
  with assms show ?thesis by (auto simp: string_rem_nl_def butlast_append)
qed

lemma layout_of_unat:
  assumes "length line \<le> 65535" "length nl \<le> 2" "b \<le> 65535" "u < 256" "p < 256" "s < 256"
  shows "unat (sl_len (layout_of line nl b u p s)) = length line" "unat (sl_nl (layout_of line nl b u p s)) = length nl"
    "unat (p_body (layout_of line nl b u p s)) = b" "unat (uri_pos (layout_of line nl b u p s)) = u"
    "unat (prt_rpos (layout_of line nl b u p s)) = p" "unat (sts_rpos (layout_of line nl b u p s)) = s"
  using assms by (simp_all add: line_fields_def unat_of_nat_u8 unat_of_nat_u16)

text \<open>What every view of an assembled message shows, whatever its start-line.\<close>

lemma view_head:
  assumes nl: "is_nl nl" and fs: "list_all field_ok fs" and head: "head = msg_head line nl fs"
    and len: "length head \<le> 65535" "length (head @ body) < 2 ^ 64"
    and ups: "u < 256" "p < 256" "s < 256"
    and ok: "layout_ok (length (head @ body)) (layout_of line nl (length head) u p s)"
    and v: "v = \<lparr>mv_layout = layout_of line nl (length head) u p s, mv_msg = Some \<lparr>m_header = h, m_body = head @ body\<rparr>\<rparr>"
  shows "mv_raw v = head @ body" "mv_startLine v = line" "mv_headers v = map field_view fs"
    "mv_bodySize v = length body" "mv_bodyString v = body"
proof -
  let ?L = "layout_of line nl (length head) u p s"
  have "length line \<le> 65535" "length nl \<le> 2" using len(1) nl by (auto simp: head msg_head_def)
  note un = layout_of_unat [OF this len(1) ups]
  show raw: "mv_raw v = head @ body" by (simp add: v mv_raw_def)
  have lay: "mv_layout v = ?L" by (simp add: v)
  show "mv_startLine v = line"
    unfolding mv_startLine_def mv_string_def startLine_range_def raw lay un by (simp add: head msg_head_def)
  have "headers_range ?L = (length line + length nl, length head - (length line + length nl))"
    unfolding layout_ok_ranges(1) [OF ok] p_headers_def un ..
  then have "mv_string v (headers_range ?L) = join_lines nl (map field_line fs) @ nl"
    unfolding mv_string_def raw by (simp add: head msg_head_def)
  then show "mv_headers v = map field_view fs"
    unfolding mv_headers_def lay by (simp only: string_rem_nl_lines [OF nl] header_list_fields [OF nl fs])
  have "int (length (head @ body)) - uint (p_body ?L) = int (length body)"
    unfolding uint_int_unat un by simp
  then show size: "mv_bodySize v = length body"
    unfolding mv_bodySize_def raw lay by (subst to_size_t_id) (use len(2) in auto)
  show "mv_bodyString v = body"
    unfolding mv_bodyString_def mv_string_def size raw lay un by simp
qed

lemma view_make:
  assumes nl: "is_nl nl" and fs: "list_all field_ok fs" and head: "head = msg_head line nl fs"
    and len: "length head \<le> 65535" and eol: "eol_line line nl"
    and set: "set_parts line nl (parsed_type t line) (length head) = (Inr (), layout_of line nl (length head) u p s)"
  shows "layout_ok (length (head @ body)) (layout_of line nl (length head) u p s)"
    "msgview_make L0 (Some \<lparr>m_header = h, m_body = head @ body\<rparr>) t =
      Inr \<lparr>mv_layout = layout_of line nl (length head) u p s, mv_msg = Some \<lparr>m_header = h, m_body = head @ body\<rparr>\<rparr>"
proof -
  have "parse_msg (head @ body) t L = set_parts line nl (parsed_type t line) (length head)" for L
    by (rule parse_msg_lines [OF eol _ _ len]) (use fs in \<open>auto simp: head msg_head_def list_all_iff\<close>)
  then have parse: "parse_msg (head @ body) t L = (Inr (), layout_of line nl (length head) u p s)" for L
    unfolding set .
  show "layout_ok (length (head @ body)) (layout_of line nl (length head) u p s)"
    by (rule parse_msg_layout_ok [OF parse])
  show "msgview_make L0 (Some \<lparr>m_header = h, m_body = head @ body\<rparr>) t =
      Inr \<lparr>mv_layout = layout_of line nl (length head) u p s, mv_msg = Some \<lparr>m_header = h, m_body = head @ body\<rparr>\<rparr>"
    by (simp add: msgview_make_def parse)
qed

lemma view_request:
  assumes nl: "is_nl nl" and fs: "list_all field_ok fs" and line: "line = m @ SP # u @ SP # p"
    and head: "head = msg_head line nl fs" and len: "length head \<le> 65535" "length (head @ body) < 2 ^ 64"
    and words: "SP \<notin> set m" "SP \<notin> set u" "SP \<notin> set p" "p \<noteq> []" "no_newline line"
    and lim: "length m \<le> MAX_METHOD_LENGTH" "length p \<le> MAX_PRT_RPOS"
    and type: "parsed_type t line = REQUEST"
  obtains v where "msgview_make L0 (Some \<lparr>m_header = h, m_body = head @ body\<rparr>) t = Inr v"
    "mv_msgType v = REQUEST" "mv_startLine v = line" "mv_methodString v = m" "mv_uriString v = u"
    "mv_protocolString v = p" "mv_headers v = map field_view fs" "mv_bodySize v = length body"
    "mv_bodyString v = body"
proof -
  let ?L = "layout_of line nl (length head) (length m + 1) (length p) 0"
  have eol: "eol_line line nl" using nl words(5) by (auto simp: line)
  have le: "length line \<le> 65535" "length nl \<le> 2"
    using len(1) nl by (auto simp: head msg_head_def)
  note made = view_make [OF nl fs head len(1) eol, of t,
      unfolded type, OF set_parts_request [OF eol line words(1-4) lim le(1)]]
  have s: "length m + 1 < 256" "length p < 256" "(0 :: nat) < 256" using lim by simp_all
  note un = layout_of_unat [OF le len(1) s]
  have z: "prt_rpos ?L \<noteq> 0" using un(5) words(4) by (metis length_0_conv unat_0)
  have hu: "has_uri ?L" "has_method ?L"
    unfolding has_uri_def has_method_def unat_gt_0 [symmetric] un by (simp_all add: line)
  note ok = made(1) [where body = body]
  note view = view_head [OF nl fs head len s ok refl]
  note str = mv_string_def view(1) layout_ok_ranges(2,5) [OF ok] layout_ok_ranges(3) [OF ok hu(1)] un
    MsgView.simps
  show ?thesis
    by (rule that [OF made(2) _ view(2) _ _ _ view(3-5)],
        use hu in \<open>simp add: mv_msgType_def layout_type_def\<close>,
        unfold mv_methodString_def mv_uriString_def mv_protocolString_def str)
      (use z in \<open>simp_all add: head msg_head_def line\<close>)
qed

lemma view_reply:
  assumes nl: "is_nl nl" and fs: "list_all field_ok fs" and line: "line = p @ SP # s @ SP # r"
    and head: "head = msg_head line nl fs" and len: "length head \<le> 65535" "length (head @ body) < 2 ^ 64"
    and words: "SP \<notin> set p" "SP \<notin> set s" "length s = 3" "no_newline line"
    and lim: "length line \<le> MAX_PRT_RPOS" "length r \<le> MAX_REASON_LENGTH"
    and type: "parsed_type t line = REPLY"
  obtains v where "msgview_make L0 (Some \<lparr>m_header = h, m_body = head @ body\<rparr>) t = Inr v"
    "mv_msgType v = REPLY" "mv_startLine v = line" "mv_protocolString v = p" "mv_statusString v = s"
    "mv_reason v = r" "mv_headers v = map field_view fs" "mv_bodySize v = length body"
    "mv_bodyString v = body"
proof -
  let ?L = "layout_of line nl (length head) 0 (length line) (length r + 4)"
  have eol: "eol_line line nl" using nl words(4) by (auto simp: line)
  have le: "length line \<le> 65535" "length nl \<le> 2"
    using len(1) nl by (auto simp: head msg_head_def)
  note made = view_make [OF nl fs head len(1) eol, of t,
      unfolded type, OF set_parts_reply [OF eol line words(1-3) lim]]
  have b: "(0 :: nat) < 256" "length line < 256" "length r + 4 < 256" using lim by simp_all
  note un = layout_of_unat [OF le len(1) b]
  have z: "prt_rpos ?L \<noteq> 0" "sts_rpos ?L \<noteq> 0" "uri_pos ?L = 0"
    unfolding unat_gt_0 [symmetric] unat_eq_zero [symmetric] un by (simp_all add: line)
  have ty: "layout_type ?L = REPLY"
    unfolding layout_type_def has_uri_def has_method_def has_protocol_def z un using words(3) by (simp add: line)
  note ok = made(1) [where body = body]
  note view = view_head [OF nl fs head len b ok refl]
  note str = mv_string_def view(1) layout_ok_ranges(5-7) [OF ok] un MsgView.simps
  show ?thesis
    by (rule that [OF made(2) _ view(2) _ _ _ view(3-5)],
        use ty in \<open>simp add: mv_msgType_def\<close>,
        unfold mv_protocolString_def mv_statusString_def mv_reason_def str)
      (use z words(3) in \<open>simp_all add: head msg_head_def line\<close>)
qed

lemma view_report:
  assumes nl: "is_nl nl" and fs: "list_all field_ok fs" and line: "line = u @ SP # p @ SP # s @ SP # r"
    and head: "head = msg_head line nl fs" and len: "length head \<le> 65535" "length (head @ body) < 2 ^ 64"
    and words: "SP \<notin> set u" "SP \<notin> set p" "SP \<notin> set s" "length s = 3" "no_newline line"
    and lim: "length p + length r + 5 \<le> MAX_PRT_RPOS" "length r \<le> MAX_REASON_LENGTH"
    and type: "parsed_type t line = REPORT"
  obtains v where "msgview_make L0 (Some \<lparr>m_header = h, m_body = head @ body\<rparr>) t = Inr v"
    "mv_msgType v = REPORT" "mv_startLine v = line" "mv_uriString v = u" "mv_protocolString v = p"
    "mv_statusString v = s" "mv_reason v = r" "mv_headers v = map field_view fs"
    "mv_bodySize v = length body" "mv_bodyString v = body"
proof -
  let ?L = "layout_of line nl (length head) 0 (length p + length r + 5) (length r + 4)"
  have eol: "eol_line line nl" using nl words(5) by (auto simp: line)
  have le: "length line \<le> 65535" "length nl \<le> 2"
    using len(1) nl by (auto simp: head msg_head_def)
  note made = view_make [OF nl fs head len(1) eol, of t,
      unfolded type, OF set_parts_report [OF eol line words(1-4) lim le(1)]]
  have b: "(0 :: nat) < 256" "length p + length r + 5 < 256" "length r + 4 < 256" using lim by simp_all
  note un = layout_of_unat [OF le len(1) b]
  have z: "prt_rpos ?L \<noteq> 0" "sts_rpos ?L \<noteq> 0" "uri_pos ?L = 0"
    unfolding unat_gt_0 [symmetric] unat_eq_zero [symmetric] un by simp_all
  have hu: "has_uri ?L" unfolding has_uri_def un using words(4) by (simp add: line)
  have ty: "layout_type ?L = REPORT" unfolding layout_type_def has_method_def z using hu by simp
  note ok = made(1) [where body = body]
  note view = view_head [OF nl fs head len b ok refl]
  note str = mv_string_def view(1) layout_ok_ranges(5-7) [OF ok] layout_ok_ranges(3) [OF ok hu] un MsgView.simps
  show ?thesis
    by (rule that [OF made(2) _ view(2) _ _ _ _ view(3-5)],
        use ty in \<open>simp add: mv_msgType_def\<close>,
        unfold mv_uriString_def mv_protocolString_def mv_statusString_def mv_reason_def str)
      (use z words(4) in \<open>simp_all add: head msg_head_def line numeral_eq_Suc\<close>)
qed
section \<open>Completion\<close>

lemma str_find_sublist: "str_find p s \<longleftrightarrow> sublist p s"
  by (induction s) (auto simp: sublist_Cons_right)

lemma fold_completion_keep:
  "\<forall>h \<in> set hs. \<not> header_is h ''Content-Length'' \<Longrightarrow>
    mc_length_header (fold completion_header hs c) = mc_length_header c \<and>
    mc_message_length (fold completion_header hs c) = mc_message_length c \<and>
    mc_complete (fold completion_header hs c) = mc_complete c"
  by (induction hs arbitrary: c) (simp_all add: completion_header_def)

lemma fold_completion_chunked:
  "mc_is_chunked (fold completion_header hs c) \<longleftrightarrow> mc_is_chunked c \<or>
    (\<exists>h \<in> set hs. \<not> header_is h ''Content-Length'' \<and> header_is h ''Transfer-Encoding'' \<and> sublist ''chunked'' (hv_value h))"
  by (induction hs arbitrary: c) (auto simp: completion_header_def str_find_sublist)

lemma completion_length:
  assumes "mv_headers v = hs @ h # ks" "header_is h ''Content-Length''" "value_dec h 0 = int n" "n < 2 ^ 64"
    and "\<forall>k \<in> set ks. \<not> header_is k ''Content-Length''"
  shows "mc_length_header (completion v)" "mc_message_length (completion v) = n"
    "mc_complete (completion v) \<longleftrightarrow> n \<le> mv_bodySize v"
proof -
  let ?c0 = "\<lparr>mc_complete = False, mc_is_chunked = False, mc_length_header = False, mc_message_length = 0\<rparr>"
  define c where "c = fold completion_header (mv_headers v) ?c0"
  have complete: "mc_complete (fold completion_header hs c) = mc_complete c" for hs c
    by (induction hs arbitrary: c) (simp_all add: completion_header_def)
  have n: "to_size_t (int n) = n" using assms(4) by (subst to_size_t_id) auto
  have "c = fold completion_header ks (completion_header h (fold completion_header hs ?c0))"
    by (simp add: c_def assms(1))
  with fold_completion_keep [OF assms(5)] assms(2,3) n
  have c: "mc_length_header c" "mc_message_length c = n" "\<not> mc_complete c"
    by (simp_all add: completion_header_def complete)
  then show "mc_length_header (completion v)" "mc_message_length (completion v) = n"
    "mc_complete (completion v) \<longleftrightarrow> n \<le> mv_bodySize v"
    unfolding completion_def c_def [symmetric] by (simp_all add: Let_def mc_implicit_def)
qed

lemma completion_implicit:
  assumes "\<forall>h \<in> set (mv_headers v). \<not> header_is h ''Content-Length'' \<and>
      \<not> (header_is h ''Transfer-Encoding'' \<and> sublist ''chunked'' (hv_value h))"
  shows "mc_implicit (completion v)" "mc_complete (completion v) \<longleftrightarrow> \<not> is_http (mv_protocol v)"
proof -
  let ?c0 = "\<lparr>mc_complete = False, mc_is_chunked = False, mc_length_header = False, mc_message_length = 0\<rparr>"
  define c where "c = fold completion_header (mv_headers v) ?c0"
  have "\<not> mc_length_header c" "\<not> mc_complete c" "\<not> mc_is_chunked c"
    unfolding c_def using fold_completion_keep [of "mv_headers v" ?c0] assms
    by (auto simp: fold_completion_chunked)
  then show "mc_implicit (completion v)" "mc_complete (completion v) \<longleftrightarrow> \<not> is_http (mv_protocol v)"
    unfolding completion_def c_def [symmetric] by (auto simp: Let_def mc_implicit_def)
qed
section \<open>Errors\<close>

text \<open>Parsing fails with a message exception only, and its excerpt is not longer than the input or a fixed text.\<close>

lemma skip_headers_error: "skip_headers s = Inl e \<Longrightarrow> \<exists>c t. e = MsgExn c t \<and> length t \<le> length s"
proof (induction s rule: skip_headers.induct)
  case (1 s)
  obtain l r where l: "ConsumeLine s = (l, r)" by fastforce
  note le = ConsumeLine_le [OF l]
  from "1.prems" l have "l \<noteq> []" by (subst (asm) skip_headers.simps) (auto split: if_splits)
  show ?case
  proof (cases "r = []")
    case True
    with "1.prems" l \<open>l \<noteq> []\<close> le show ?thesis by (subst (asm) skip_headers.simps) auto
  next
    case False
    with "1.prems" l \<open>l \<noteq> []\<close> have "skip_headers r = Inl e" by (subst (asm) skip_headers.simps) auto
    with "1.IH" [OF sym [OF l] \<open>l \<noteq> []\<close> False] le show ?thesis by auto
  qed
qed

lemma verify_status_error: "verify_status line x L = (Inl e, L') \<Longrightarrow> \<exists>c. e = MsgExn c line"
  by (auto simp: verify_status_def Let_def split: if_splits)

lemma remove_eol_le: "length (remove_eol s) \<le> length s"
  by (simp add: remove_eol_def Let_def)

lemma setStartLine_error: "setStartLine line t u p q L = (Inl e, L') \<Longrightarrow> \<exists>c t. e = MsgExn c t \<and> length t \<le> length line"
  by (auto simp: setStartLine_def Let_def remove_eol_le split: if_splits MSG_TYPE.splits option.splits dest!: verify_status_error)

lemma parse_msg_error: "parse_msg s t L = (Inl e, L') \<Longrightarrow> \<exists>c t. e = MsgExn c t \<and> length t \<le> length s + 60"
  using ConsumeLine_le [of s]
  by (fastforce simp: parse_msg_def Let_def split: if_splits prod.splits sum.splits dest!: skip_headers_error setStartLine_error)

section \<open>Properties\<close>

text \<open>
  C2. Parsing is memory safe. Whatever bytes a message holds and whatever type it is parsed as, if
  parsing succeeds then every part that the view shows -- start-line, method, target, protocol,
  status, reason phrase, headers and body -- is empty or lies within the bytes of the message, and the
  headers end where the body begins.
\<close>

theorem parsed_ranges_in_bounds:
  assumes "msgview_make L0 (Some m) t = Inr v"
  shows "list_all (\<lambda>range. in_bounds (length (m_body m)) (range (mv_layout v)))
      [startLine_range, method_range, uri_range, protocol_range, status_range, reason_range, headers_range] \<and>
    fst (headers_range (mv_layout v)) + snd (headers_range (mv_layout v)) = unat (p_body (mv_layout v)) \<and>
    unat (p_body (mv_layout v)) \<le> length (m_body m)"
proof -
  obtain L where "parse_msg (m_body m) t L0 = (Inr (), L)" and v: "mv_layout v = L"
    using assms by (auto simp: msgview_make_def split: prod.splits sum.splits)
  then have ok: "layout_ok (length (m_body m)) L" by (intro parse_msg_layout_ok)
  have "fst (headers_range L) + snd (headers_range L) = unat (p_body L)"
    using ok unfolding layout_ok_ranges(1) [OF ok] layout_ok_def by simp
  moreover have "unat (p_body L) \<le> length (m_body m)" using ok by (simp add: layout_ok_def)
  ultimately show ?thesis using layout_ok_in_bounds [OF ok] by (simp add: v)
qed

abbreviation sample_line :: string where
  "sample_line \<equiv> ''GET'' @ SP # ''/a'' @ SP # protocol_toString Telling"

definition sample_msg :: nng_msg where
  "sample_msg = \<lparr>m_header = [], m_body = msg_head sample_line [LF] [(''Content-Length'', ''1'')] @ ''x''\<rparr>"

lemma sample_view:
  obtains v where "msgview_make parse_reset (Some sample_msg) UNKNOWN = Inr v" "mv_msgType v = REQUEST"
    "mv_headers v = [field_view (''Content-Length'', ''1'')]" "mv_bodySize v = 1"
proof -
  have c: "parsed_type UNKNOWN sample_line = REQUEST"
    using classify_request [of "''GET''" "''/a''" Telling] by (simp add: protocol_valid_def)
  show ?thesis
    by (rule view_request [of "[LF]" "[(''Content-Length'', ''1'')]" sample_line "''GET''" "''/a''"
          "protocol_toString Telling" "msg_head sample_line [LF] [(''Content-Length'', ''1'')]" "''x''" UNKNOWN
          parse_reset "[]", OF _ _ _ _ _ _ _ _ _ _ _ _ _ c])
      (simp_all add: that [unfolded sample_msg_def] field_ok_def field_line_def msg_head_def)
qed

theorem parsed_ranges_in_bounds_witness:
  "\<exists>v. msgview_make parse_reset (Some sample_msg) UNKNOWN = Inr v \<and>
    list_all (\<lambda>range. in_bounds (length (m_body sample_msg)) (range (mv_layout v)))
      [startLine_range, method_range, uri_range, protocol_range, status_range, reason_range, headers_range]"
  by (rule sample_view) (blast dest: parsed_ranges_in_bounds)

text \<open>
  A parsed message has the type it was parsed as: without a type, the one its start-line is
  classified as; with a type, that type, unless the start-line is empty.
\<close>

theorem parsed_type_shown:
  assumes "msgview_make L0 (Some m) t = Inr v" and "ConsumeLine (m_body m) = (line, rest)"
  shows "mv_msgType v =
    (if line = [] then UNKNOWN else if t = UNKNOWN then classify_parts (start_parts line) else t)"
proof -
  obtain L where "parse_msg (m_body m) t L0 = (Inr (), L)" and "mv_layout v = L"
    using assms(1) by (auto simp: msgview_make_def split: prod.splits sum.splits)
  with parse_msg_type [OF _ assms(2)] show ?thesis by (cases t) (simp_all add: mv_msgType_def)
qed

theorem parsed_type_shown_witness:
  "\<exists>v. msgview_make parse_reset (Some sample_msg) UNKNOWN = Inr v \<and> mv_msgType v = REQUEST"
proof -
  obtain v where v: "msgview_make parse_reset (Some sample_msg) UNKNOWN = Inr v" by (rule sample_view)
  have "ConsumeLine (m_body sample_msg) = (sample_line, join_lines [LF] [field_line (''Content-Length'', ''1'')] @ [LF] @ ''x'')"
    by (simp add: sample_msg_def msg_head_def field_line_def)
  from parsed_type_shown [OF v this] have "mv_msgType v = REQUEST"
    using classify_request [of "''GET''" "''/a''" Telling] by (simp add: protocol_valid_def)
  with v show ?thesis by blast
qed

text \<open>
  Completeness of a message. The last \<open>Content-Length\<close> header decides: the message is complete
  exactly when the body has that many bytes or more.
\<close>

theorem completion_content_length:
  assumes "mv_headers v = hs @ h # ks" "map to_lower (hv_name h) = map to_lower ''Content-Length''"
    and "hv_value h = dec_string n" "n < 2 ^ 63"
    and "\<forall>k \<in> set ks. map to_lower (hv_name k) \<noteq> map to_lower ''Content-Length''"
  shows "mc_length_header (completion v) \<and> mc_message_length (completion v) = n \<and>
    (mc_complete (completion v) \<longleftrightarrow> n \<le> mv_bodySize v)"
proof -
  have "value_dec h 0 = int n" by (rule value_dec_dec_string [OF assms(4,3)])
  moreover have "header_is h ''Content-Length''" "\<forall>k \<in> set ks. \<not> header_is k ''Content-Length''"
    using assms(2,5) unfolding header_is_iff by blast+
  ultimately show ?thesis using completion_length [OF assms(1), of n] assms(4) by simp
qed

theorem completion_content_length_witness:
  "\<exists>v. msgview_make parse_reset (Some sample_msg) UNKNOWN = Inr v \<and> mc_length_header (completion v) \<and>
    mc_message_length (completion v) = 1 \<and> mc_complete (completion v)"
proof -
  obtain v where v: "msgview_make parse_reset (Some sample_msg) UNKNOWN = Inr v"
    "mv_headers v = [field_view (''Content-Length'', ''1'')]" "mv_bodySize v = 1" by (rule sample_view)
  have "dec_string 1 = ''1''" by code_simp
  then have "hv_value (field_view (''Content-Length'', ''1'')) = dec_string 1"
    by (simp only:) (simp add: field_view_def trim_id is_blank_def)
  with completion_content_length [of v "[]" "field_view (''Content-Length'', ''1'')" "[]" 1] v show ?thesis
    by (simp add: field_view_def)
qed

text \<open>
  A message without \<open>Content-Length\<close> and without chunked transfer coding is complete exactly when its
  protocol is not HTTP; for HTTP, only the end of the connection completes it.
\<close>

theorem completion_without_length:
  assumes "\<forall>h \<in> set (mv_headers v). map to_lower (hv_name h) \<noteq> map to_lower ''Content-Length'' \<and>
      (map to_lower (hv_name h) = map to_lower ''Transfer-Encoding'' \<longrightarrow> \<not> sublist ''chunked'' (hv_value h))"
  shows "mc_implicit (completion v) \<and> (mc_complete (completion v) \<longleftrightarrow> \<not> is_http (mv_protocol v))"
  using assms completion_implicit [of v] unfolding header_is_iff by blast

theorem completion_without_length_witness:
  "mc_complete (completion \<lparr>mv_layout = parse_reset, mv_msg = Some \<lparr>m_header = [], m_body = []\<rparr>\<rparr>)"
proof -
  let ?v = "\<lparr>mv_layout = parse_reset, mv_msg = Some \<lparr>m_header = [], m_body = []\<rparr>\<rparr>"
  have "mv_headers ?v = []" "mv_protocol ?v = ProtocolNone"
    by (simp_all add: mv_headers_def mv_string_def mv_raw_def string_rem_nl_def header_list.simps
        mv_protocol_def mv_protocolString_def protocol_Parse_def)
  with completion_without_length [of ?v] show ?thesis by (simp add: is_http_def)
qed
end
