(* ===== verification/Msg_Writer.thy ===== *)
theory Msg_Writer
  imports Msg_View
begin

unbundle bit_operations_syntax

text \<open>
  Composing messages: \<open>include/telling/msg_writer.h\<close> and \<open>src/telling/msg_writer.cpp\<close>. The writer's
  state is the message under construction, its layout (set when the headers are closed), the
  protocol, and where space for the content length was reserved. The stream buffers the code opens
  with \<open>std::ios::ate\<close> append to the body of the message.
\<close>

section \<open>Model\<close>

fun NumDigits :: "nat \<Rightarrow> nat" where
  "NumDigits value = (if value div 10 = 0 then 1 else Suc (NumDigits (value div 10)))"

declare NumDigits.simps [simp del]

definition ContainsNewline :: "string \<Rightarrow> bool" where
  "ContainsNewline s = list_ex (\<lambda>c. c = CR \<or> c = LF) s"

definition ContainsWhitespace :: "string \<Rightarrow> bool" where
  "ContainsWhitespace s = list_ex (\<lambda>c. c = CR \<or> c = LF \<or> c = SP \<or> c = TAB) s"

record MsgWriter =
  w_layout :: MsgLayout
  w_msg :: "nng_msg option"
  w_protocol :: MsgProtocol
  w_lengthOffset :: u16
  w_lengthSize :: u16

type_synonym 'a writer_op = "MsgWriter \<Rightarrow> 'a result \<times> MsgWriter"

definition writer_new :: "MsgProtocol \<Rightarrow> MsgWriter" where
  "writer_new p =
    \<lparr>w_layout = parse_reset, w_msg = None, w_protocol = p, w_lengthOffset = 0, w_lengthSize = 0\<rparr>"

text \<open>Writing to the end of the message body; without a message there is nothing to write to.\<close>

definition append_body :: "string \<Rightarrow> unit writer_op" where
  "append_body text w =
    (case w_msg w of
      None \<Rightarrow> (Inl (Undefined ''write to a null message''), w)
    | Some m \<Rightarrow> (Inr (), w\<lparr>w_msg := Some (m\<lparr>m_body := m_body m @ text\<rparr>)\<rparr>))"

text \<open>
  The exceptions of the writer are made with null pointers for their two texts, \<open>MsgException(code, 0, 0)\<close>: a view of a string is made of a null pointer, which
  is undefined.
\<close>

definition null_text :: "MSG_ERROR \<Rightarrow> exn" where
  "null_text e = Undefined (''null text: '' @ msg_what e)"

definition malformed :: "MSG_ERROR \<Rightarrow> unit writer_op" where
  "malformed e w = (Inl (null_text e), w)"

definition startMsg :: "unit writer_op" where
  "startMsg w =
    (if w_msg w \<noteq> None then malformed ALREADY_WRITTEN w
     else (Inr (), (writer_new (w_protocol w))\<lparr>w_msg := Some \<lparr>m_header = [], m_body = []\<rparr>\<rparr>))"

definition newline :: "unit writer_op" where
  "newline w = append_body (preferred_newline (w_protocol w)) w"

definition autoCloseHeaders :: "unit writer_op" where
  "autoCloseHeaders w =
    (if p_body (w_layout w) = 0 then
       (case w_msg w of
         None \<Rightarrow> malformed ALREADY_WRITTEN w
       | Some m \<Rightarrow>
           ebind newline (\<lambda>_ w.
             let (r, L) = parse_msg (case w_msg w of None \<Rightarrow> [] | Some m \<Rightarrow> m_body m) UNKNOWN (w_layout w)
             in (r, w\<lparr>w_layout := L\<rparr>)) w)
     else (Inr (), w))"

definition startRequest :: "string \<Rightarrow> Method \<Rightarrow> unit writer_op" where
  "startRequest uri method = ebind startMsg (\<lambda>_ w.
    if \<not> method_valid method then malformed START_LINE_MALFORMED w
    else if ContainsWhitespace uri then malformed START_LINE_MALFORMED w
    else append_body (method_toString method @ SP # uri @ SP # protocol_toString (w_protocol w)
           @ preferred_newline (w_protocol w)) w)"

definition startReply :: "Status \<Rightarrow> string \<Rightarrow> unit writer_op" where
  "startReply status reason = ebind startMsg (\<lambda>_ w.
    if ContainsNewline reason then malformed START_LINE_MALFORMED w
    else append_body (protocol_toString (w_protocol w) @ SP # status_toString status @ SP # reason
           @ preferred_newline (w_protocol w)) w)"

definition startReport :: "string \<Rightarrow> Status \<Rightarrow> string \<Rightarrow> unit writer_op" where
  "startReport uri status reason = ebind startMsg (\<lambda>_ w.
    if ContainsWhitespace uri then malformed START_LINE_MALFORMED w
    else if ContainsNewline reason then malformed START_LINE_MALFORMED w
    else append_body (uri @ SP # protocol_toString (w_protocol w) @ SP # status_toString status
           @ SP # reason @ preferred_newline (w_protocol w)) w)"

definition writeHeader :: "string \<Rightarrow> string \<Rightarrow> unit writer_op" where
  "writeHeader name value w =
    (if w_msg w = None \<or> p_body (w_layout w) \<noteq> 0 then malformed ALREADY_WRITTEN w
     else if list_ex (\<lambda>c. c = CR \<or> c = LF \<or> c = COLON) name then malformed HEADER_MALFORMED w
     else if ContainsNewline value then malformed HEADER_MALFORMED w
     else append_body (name @ COLON # value @ preferred_newline (w_protocol w)) w)"

text \<open>
  The digits of the body size are written backwards from the position behind the last of them.
\<close>

fun write_digits :: "nat \<Rightarrow> nat \<Rightarrow> string \<Rightarrow> string" where
  "write_digits pos n s =
    (let s = s[pos - 1 := digit_char (n mod 10)]
     in if n div 10 = 0 then s else write_digits (pos - 1) (n div 10) s)"

declare write_digits.simps [simp del]

definition complete_length :: "unit writer_op" where
  "complete_length w =
    (if w_lengthSize w = 0 then (Inr (), w)
     else (case w_msg w of
       None \<Rightarrow> (Inl (Undefined ''read of a null message''), w)
     | Some m \<Rightarrow>
        (let bodySize = to_size_t (int (length (m_body m)) - uint (p_body (w_layout w)));
             digits = NumDigits bodySize
         in if digits > unat (w_lengthSize w)
            then (Inl (NngExn nng_nospc ''Content-Length header completion''), w)
            else (Inr (), w\<lparr>w_msg := Some (m\<lparr>m_body :=
                   write_digits (unat (w_lengthOffset w) + digits) bodySize (m_body m)\<rparr>)\<rparr>))))"

definition writer_release :: "nng_msg option writer_op" where
  "writer_release = ebind autoCloseHeaders (\<lambda>_. ebind complete_length (\<lambda>_ w.
    (Inr (w_msg w), w\<lparr>w_msg := None, w_lengthOffset := 0, w_lengthSize := 0\<rparr>)))"

definition setNNGHeader :: "string \<Rightarrow> unit writer_op" where
  "setNNGHeader data w =
    (case w_msg w of
      None \<Rightarrow> (Inl (Undefined ''header of a null message''), w)
    | Some m \<Rightarrow> (Inr (), w\<lparr>w_msg := Some (m\<lparr>m_header := data\<rparr>)\<rparr>))"

text \<open>The loop of \<open>writeHeader_Allow\<close> runs through the method codes in ascending order.\<close>

definition valid_methods :: "MethodCode list" where
  "valid_methods = [GET, HEAD, POST, PUT, DELETE, PATCH, OPTIONS, CONNECT, TRACE]"

definition allow_step :: "Methods \<Rightarrow> MethodCode \<Rightarrow> bool \<times> string \<Rightarrow> bool \<times> string" where
  "allow_step methods m acc =
    (case acc of (first, allowed) \<Rightarrow>
      if methods_contains m methods = Some True
      then (False, (if first then allowed else allowed @ '', '') @ method_toString m)
      else acc)"

definition allow_value :: "Methods \<Rightarrow> string" where
  "allow_value methods = snd (fold (allow_step methods) valid_methods (True, []))"

definition writeHeader_Allow :: "Methods \<Rightarrow> unit writer_op" where
  "writeHeader_Allow methods = writeHeader ''Allow'' (allow_value methods)"

definition writeHeader_Length :: "nat \<Rightarrow> unit writer_op" where
  "writeHeader_Length maxLength w =
    (if w_lengthSize w \<noteq> 0
     then (Inl (NngExn nng_nospc ''Content-Length header allocation''), w)
     else
       let digits = NumDigits maxLength in
       ebind (append_body ''Content-Length:'') (\<lambda>_ w.
         append_body (replicate digits SP @ preferred_newline (w_protocol w))
           (w\<lparr>w_lengthOffset := of_nat (case w_msg w of None \<Rightarrow> 0 | Some m \<Rightarrow> length (m_body m)),
              w_lengthSize := of_nat digits\<rparr>)) w)"

text \<open>
  \<open>writeBody\<close> is \<open>noexcept\<close> and gives a stream that appends to the body; here with the text that is
  put into the stream. \<open>reserveBodyBytes\<close> only closes the headers: a capacity is not observable.
\<close>

definition writeBody :: "string \<Rightarrow> unit writer_op" where
  "writeBody text w =
    (case autoCloseHeaders w of
      (Inl e, w) \<Rightarrow> (Inl Terminate, w)
    | (Inr _, w) \<Rightarrow> append_body text w)"

definition reserveBodyBytes :: "nat \<Rightarrow> unit writer_op" where
  "reserveBodyBytes capac = autoCloseHeaders"

definition WriteRequest :: "string \<Rightarrow> Method \<Rightarrow> unit result \<times> MsgWriter" where
  "WriteRequest uri method = startRequest uri method (writer_new Telling)"

definition WriteReply :: "Status \<Rightarrow> string option \<Rightarrow> unit result \<times> MsgWriter" where
  "WriteReply status reason =
    startReply status (case reason of None \<Rightarrow> reasonPhrase status | Some r \<Rightarrow> r) (writer_new Telling)"

definition WriteReport :: "string \<Rightarrow> Status \<Rightarrow> string option \<Rightarrow> unit result \<times> MsgWriter" where
  "WriteReport uri status reason =
    startReport uri status (case reason of None \<Rightarrow> reasonPhrase status | Some r \<Rightarrow> r) (writer_new Telling)"

definition HttpRequest :: "string \<Rightarrow> Method \<Rightarrow> unit result \<times> MsgWriter" where
  "HttpRequest uri method = startRequest uri method (writer_new Http)"

definition HttpReply :: "Status \<Rightarrow> string option \<Rightarrow> unit result \<times> MsgWriter" where
  "HttpReply status reason =
    startReply status (case reason of None \<Rightarrow> reasonPhrase status | Some r \<Rightarrow> r) (writer_new Http)"

text \<open>
  The replies that the exception classes build of themselves: \<open>ReplyableException::replyWithError\<close> and
  \<open>MsgException::replyWithError\<close> of \<open>src/telling/msg_util.cpp\<close>.
\<close>

definition exn_replyStatus :: "exn \<Rightarrow> Status option" where
  "exn_replyStatus e = (case e of MsgExn m _ \<Rightarrow> Some (msg_replyStatus m) | StatusExn s _ \<Rightarrow> Some s | _ \<Rightarrow> None)"

definition replyWithError :: "exn \<Rightarrow> string \<Rightarrow> nng_msg option result" where
  "replyWithError e error_context =
    (let text = (case e of
           MsgExn m excerpt \<Rightarrow>
             (if error_context \<noteq> [] then '' in `'' @ error_context @ ''`:'' @ [CR, LF, TAB] else []) @
             msg_what m @
             (if excerpt \<noteq> [] then [CR, LF] @ ''At location:'' @ [CR, LF, TAB] @ ''`'' @ excerpt @ ''`'' else []) @
             [CR, LF]
         | StatusExn s what \<Rightarrow> (if error_context \<noteq> [] then error_context @ '': '' else []) @ what
         | _ \<Rightarrow> [])
     in case exn_replyStatus e of
          None \<Rightarrow> Inl e
        | Some s \<Rightarrow> fst (ebind (\<lambda>_. WriteReply s None) (\<lambda>_.
            ebind (writeHeader ''Content-Type'' ''text/plain'') (\<lambda>_.
            ebind (writeBody text) (\<lambda>_. writer_release))) (writer_new Telling)))"

section \<open>Text written\<close>

lemma NumDigits_dec_string: "NumDigits n = length (dec_string n)"
proof (induction n rule: NumDigits.induct)
  case (1 n)
  show ?case
  proof (cases "n < 10")
    case True
    then show ?thesis by (simp add: NumDigits.simps [of n])
  next
    case False
    then have "n div 10 \<noteq> 0" by (simp add: div_eq_0_iff)
    with 1 False show ?thesis by (simp add: NumDigits.simps [of n] dec_string_step)
  qed
qed

lemma write_digits:
  "off + length (dec_string n) \<le> length s \<Longrightarrow> write_digits (off + length (dec_string n)) n s =
    take off s @ dec_string n @ drop (off + length (dec_string n)) s"
proof (induction n arbitrary: s rule: dec_string.induct)
  case (1 n)
  show ?case
  proof (cases "n < 10")
    case True
    with "1.prems" show ?thesis
      by (subst write_digits.simps) (simp add: upd_conv_take_nth_drop)
  next
    case False
    then have nz: "n div 10 \<noteq> 0" by (simp add: div_eq_0_iff)
    let ?l = "off + length (dec_string (n div 10))" and ?s = "s[off + length (dec_string (n div 10)) := digit_char (n mod 10)]"
    have d: "dec_string n = dec_string (n div 10) @ [digit_char (n mod 10)]" by (rule dec_string_step [OF False])
    have l: "?l < length s" using "1.prems" by (simp add: d)
    have "write_digits (off + length (dec_string n)) n s = write_digits ?l (n div 10) ?s"
      using nz by (subst write_digits.simps) (simp add: d)
    also have "\<dots> = take off ?s @ dec_string (n div 10) @ drop ?l ?s"
      using l by (intro "1.IH" [OF False]) simp
    also have "\<dots> = take off s @ dec_string n @ drop (off + length (dec_string n)) s"
      using l by (simp add: d drop_update_cancel Cons_nth_drop_Suc [symmetric] take_update_cancel)
    finally show ?thesis .
  qed
qed

lemma ContainsNewline_iff: "ContainsNewline s \<longleftrightarrow> \<not> no_newline s"
  by (auto simp: ContainsNewline_def no_newline_def list_ex_iff)

lemma ContainsWhitespaceD: "\<not> ContainsWhitespace s \<Longrightarrow> no_newline s \<and> SP \<notin> set s"
  by (auto simp: ContainsWhitespace_def no_newline_def list_ex_iff)

lemma field_ok_iff:
  "field_ok (n, v) \<longleftrightarrow> \<not> list_ex (\<lambda>c. c = CR \<or> c = LF \<or> c = COLON) n \<and> \<not> ContainsNewline v"
  by (auto simp: field_ok_def ContainsNewline_iff no_newline_def list_ex_iff)

section \<open>Messages under construction\<close>

text \<open>
  \<open>writing h line fs w\<close>: the start-line \<open>line\<close> and the header fields \<open>fs\<close> have been written and the headers
  are still open.
\<close>

definition writing :: "string \<Rightarrow> string \<Rightarrow> (string \<times> string) list \<Rightarrow> MsgWriter \<Rightarrow> bool" where
  "writing h line fs w \<longleftrightarrow> p_body (w_layout w) = 0 \<and> w_msg w = Some \<lparr>m_header = h, m_body =
    line @ preferred_newline (w_protocol w) @ join_lines (preferred_newline (w_protocol w)) (map field_line fs)\<rparr>"

abbreviation request_line :: "Method \<Rightarrow> string \<Rightarrow> MsgProtocol \<Rightarrow> string" where
  "request_line m uri p \<equiv> method_toString m @ SP # uri @ SP # protocol_toString p"

abbreviation reply_line :: "MsgProtocol \<Rightarrow> Status \<Rightarrow> string \<Rightarrow> string" where
  "reply_line p s r \<equiv> protocol_toString p @ SP # status_toString s @ SP # r"

abbreviation report_line :: "string \<Rightarrow> MsgProtocol \<Rightarrow> Status \<Rightarrow> string \<Rightarrow> string" where
  "report_line uri p s r \<equiv> uri @ SP # protocol_toString p @ SP # status_toString s @ SP # r"

text \<open>A start operation succeeds from a fresh writer and leaves its start-line.\<close>

definition starts :: "unit writer_op \<Rightarrow> MsgProtocol \<Rightarrow> string \<Rightarrow> bool" where
  "starts f p line \<longleftrightarrow> (\<exists>w. f (writer_new p) = (Inr (), w) \<and> writing [] line [] w \<and> w_protocol w = p \<and>
    w_lengthSize w = 0)"

lemma writer_new_simps [simp]:
  "w_layout (writer_new p) = parse_reset" "w_msg (writer_new p) = None" "w_protocol (writer_new p) = p"
  "w_lengthOffset (writer_new p) = 0" "w_lengthSize (writer_new p) = 0" "p_body parse_reset = 0"
  by (simp_all add: writer_new_def parse_reset_def)

lemma startMsg_new [simp]:
  "startMsg (writer_new p) = (Inr (), (writer_new p)\<lparr>w_msg := Some \<lparr>m_header = [], m_body = []\<rparr>\<rparr>)"
  by (simp add: startMsg_def)

lemma starts_request:
  "method_valid m \<Longrightarrow> \<not> ContainsWhitespace uri \<Longrightarrow> starts (startRequest uri m) p (request_line m uri p)"
  by (simp add: starts_def startRequest_def append_body_def writing_def)

lemma starts_reply: "\<not> ContainsNewline r \<Longrightarrow> starts (startReply s r) p (reply_line p s r)"
  by (simp add: starts_def startReply_def append_body_def writing_def)

lemma starts_report:
  "\<not> ContainsWhitespace uri \<Longrightarrow> \<not> ContainsNewline r \<Longrightarrow> starts (startReport uri s r) p (report_line uri p s r)"
  by (simp add: starts_def startReport_def append_body_def writing_def)

primrec writeHeaders :: "(string \<times> string) list \<Rightarrow> unit writer_op" where
  "writeHeaders [] = (\<lambda>w. (Inr (), w))"
| "writeHeaders (f # fs) = ebind (writeHeader (fst f) (snd f)) (\<lambda>_. writeHeaders fs)"

lemma writeHeader_writing:
  assumes "writing h line fs w" "field_ok f"
  obtains w' where "writeHeader (fst f) (snd f) w = (Inr (), w')" "writing h line (fs @ [f]) w'"
    "w_protocol w' = w_protocol w" "w_lengthOffset w' = w_lengthOffset w" "w_lengthSize w' = w_lengthSize w"
proof -
  obtain n v where f: "f = (n, v)" by (cases f)
  let ?nl = "preferred_newline (w_protocol w)"
  let ?w = "w\<lparr>w_msg := Some \<lparr>m_header = h, m_body =
    line @ ?nl @ join_lines ?nl (map field_line fs) @ n @ COLON # v @ ?nl\<rparr>\<rparr>"
  have "writeHeader (fst f) (snd f) w = (Inr (), ?w)"
    using assms unfolding f field_ok_iff by (simp add: writeHeader_def append_body_def writing_def)
  moreover have "writing h line (fs @ [f]) ?w" using assms(1) by (simp add: writing_def f field_line_def)
  ultimately show ?thesis by (rule that) simp_all
qed

lemma writeHeaders_writing:
  assumes "writing h line fs w" "list_all field_ok gs"
  obtains w' where "writeHeaders gs w = (Inr (), w')" "writing h line (fs @ gs) w'"
    "w_protocol w' = w_protocol w" "w_lengthOffset w' = w_lengthOffset w" "w_lengthSize w' = w_lengthSize w"
  using assms
proof (induction gs arbitrary: fs w thesis)
  case Nil
  then show ?case by simp
next
  case (Cons g gs)
  from Cons.prems(3) have "field_ok g" by simp
  from writeHeader_writing [OF Cons.prems(2) this] obtain w1 where
    w1: "writeHeader (fst g) (snd g) w = (Inr (), w1)" "writing h line (fs @ [g]) w1"
    "w_protocol w1 = w_protocol w" "w_lengthOffset w1 = w_lengthOffset w" "w_lengthSize w1 = w_lengthSize w" .
  from Cons.prems(3) have "list_all field_ok gs" by simp
  from Cons.IH [OF _ w1(2) this] obtain w2 where
    "writeHeaders gs w1 = (Inr (), w2)" "writing h line ((fs @ [g]) @ gs) w2"
    "w_protocol w2 = w_protocol w1" "w_lengthOffset w2 = w_lengthOffset w1" "w_lengthSize w2 = w_lengthSize w1" .
  with w1 show ?case by (intro Cons.prems(1) [of w2]) simp_all
qed
section \<open>Whole messages\<close>

text \<open>The four steps of composing a message, without and with a content length.\<close>

definition compose_msg :: "unit writer_op \<Rightarrow> (string \<times> string) list \<Rightarrow> string \<Rightarrow> nng_msg option writer_op" where
  "compose_msg start fs body =
    ebind start (\<lambda>_. ebind (writeHeaders fs) (\<lambda>_. ebind (writeBody body) (\<lambda>_. writer_release)))"

definition compose_msg_length ::
    "unit writer_op \<Rightarrow> (string \<times> string) list \<Rightarrow> nat \<Rightarrow> (string \<times> string) list \<Rightarrow> string \<Rightarrow> nng_msg option writer_op" where
  "compose_msg_length start fs maxLength gs body =
    ebind start (\<lambda>_. ebind (writeHeaders fs) (\<lambda>_. ebind (writeHeader_Length maxLength) (\<lambda>_.
    ebind (writeHeaders gs) (\<lambda>_. ebind (writeBody body) (\<lambda>_. writer_release)))))"

lemma set_parts_p_body:
  "eol_line line nl \<Longrightarrow> set_parts line nl t b = (Inr (), L) \<Longrightarrow> p_body L = of_nat b"
  by (erule (1) set_parts_fields) (simp add: line_fields_def)

lemma autoCloseHeaders_writing:
  assumes w: "writing h line fs w" and nl: "nl = preferred_newline (w_protocol w)"
    and head: "head = msg_head line nl fs" "length head \<le> 65535"
    and eol: "eol_line line nl" and fs: "list_all field_ok fs"
    and set: "set_parts line nl (classify_parts (start_parts line)) (length head) = (Inr (), L)"
  shows "autoCloseHeaders w = (Inr (), w\<lparr>w_layout := L, w_msg := Some \<lparr>m_header = h, m_body = head\<rparr>\<rparr>)"
proof -
  have "list_all (\<lambda>l. no_newline l \<and> l \<noteq> []) (map field_line fs)"
    using fs by (auto simp: list_all_iff)
  from parse_msg_lines [OF eol this head(1) [unfolded msg_head_def] head(2), where body = "[]" and t = UNKNOWN]
  have parse: "parse_msg head UNKNOWN L0 = (Inr (), L)" for L0
    using set by simp
  have "newline w = (Inr (), w\<lparr>w_msg := Some \<lparr>m_header = h, m_body = head\<rparr>\<rparr>)"
    using w by (simp add: newline_def append_body_def writing_def head msg_head_def nl)
  then show ?thesis using w by (simp add: autoCloseHeaders_def writing_def parse)
qed

lemma writeBody_writing:
  assumes "autoCloseHeaders w = (Inr (), w\<lparr>w_layout := L, w_msg := Some \<lparr>m_header = h, m_body = head\<rparr>\<rparr>)"
  shows "writeBody body w = (Inr (), w\<lparr>w_layout := L, w_msg := Some \<lparr>m_header = h, m_body = head @ body\<rparr>\<rparr>)"
  using assms by (simp add: writeBody_def append_body_def)

lemma compose_msg_ok:
  assumes start: "starts f p line" and nl: "nl = preferred_newline p"
    and head: "head = msg_head line nl fs" "length head \<le> 65535"
    and eol: "eol_line line nl" and fs: "list_all field_ok fs"
    and set: "set_parts line nl (classify_parts (start_parts line)) (length head) = (Inr (), L)"
  shows "\<exists>w. compose_msg f fs body (writer_new p) = (Inr (Some \<lparr>m_header = [], m_body = head @ body\<rparr>), w) \<and> w_msg w = None"
proof -
  from start obtain w1 where w1: "f (writer_new p) = (Inr (), w1)" "writing [] line [] w1"
    "w_protocol w1 = p" "w_lengthSize w1 = 0" by (auto simp: starts_def)
  from writeHeaders_writing [OF w1(2) fs] obtain w2 where w2: "writeHeaders fs w1 = (Inr (), w2)"
    "writing [] line fs w2" "w_protocol w2 = p" "w_lengthSize w2 = 0" using w1(3,4) by auto
  from autoCloseHeaders_writing [OF w2(2) _ head eol fs set] nl w2(3)
  have "autoCloseHeaders w2 = (Inr (), w2\<lparr>w_layout := L, w_msg := Some \<lparr>m_header = [], m_body = head\<rparr>\<rparr>)" by simp
  note body = writeBody_writing [OF this, of body]
  have "length head \<noteq> 0" using eol by (auto simp: head msg_head_def)
  with head(2) have "p_body L \<noteq> 0"
    unfolding set_parts_p_body [OF eol set] word_unat_eq_iff by (simp add: unat_of_nat_u16)
  then have "writer_release (w2\<lparr>w_layout := L, w_msg := Some \<lparr>m_header = [], m_body = head @ body\<rparr>\<rparr>) =
      (Inr (Some \<lparr>m_header = [], m_body = head @ body\<rparr>),
       w2\<lparr>w_layout := L, w_msg := None, w_lengthOffset := 0, w_lengthSize := 0\<rparr>)"
    by (simp add: writer_release_def autoCloseHeaders_def complete_length_def w2(4))
  with w1(1) w2(1) body show ?thesis by (simp add: compose_msg_def)
qed

text \<open>The reserved space lies right behind \<open>Content-Length:\<close>.\<close>

lemma writeHeader_Length_writing:
  assumes "writing h line fs w" "w_lengthSize w = 0" and nl: "nl = preferred_newline (w_protocol w)"
    and "off = length (line @ nl @ join_lines nl (map field_line fs) @ ''Content-Length:'')"
  obtains w' where "writeHeader_Length mx w = (Inr (), w')"
    "writing h line (fs @ [(''Content-Length'', replicate (NumDigits mx) SP)]) w'"
    "w_protocol w' = w_protocol w" "w_lengthOffset w' = of_nat off" "w_lengthSize w' = of_nat (NumDigits mx)"
proof -
  let ?w = "w\<lparr>w_msg := Some \<lparr>m_header = h, m_body = line @ nl @ join_lines nl (map field_line fs) @
      ''Content-Length:'' @ replicate (NumDigits mx) SP @ nl\<rparr>,
      w_lengthOffset := of_nat off, w_lengthSize := of_nat (NumDigits mx)\<rparr>"
  have "writeHeader_Length mx w = (Inr (), ?w)"
    using assms(1,2) unfolding writing_def writeHeader_Length_def append_body_def ebind_def Let_def assms(4) nl
    by (simp del: of_nat_add of_nat_Suc)
  moreover have "writing h line (fs @ [(''Content-Length'', replicate (NumDigits mx) SP)]) ?w"
    using assms(1) by (simp add: writing_def nl field_line_def)
  ultimately show ?thesis by (rule that) simp_all
qed
lemma fill_reserved:
  assumes "length (dec_string n) \<le> d"
  shows "write_digits (length pre + length (dec_string n)) n (pre @ replicate d SP @ post) =
    pre @ dec_string n @ replicate (d - length (dec_string n)) SP @ post"
  using write_digits [of "length pre" n "pre @ replicate d SP @ post"] assms by simp

lemma complete_length_ok:
  assumes "w_msg w = Some \<lparr>m_header = h, m_body = pre @ replicate d SP @ post\<rparr>" "w_layout w = L"
    and "w_lengthOffset w = of_nat (length pre)" "w_lengthSize w = of_nat d"
    and "to_size_t (int (length (pre @ replicate d SP @ post)) - uint (p_body L)) = n"
    and "NumDigits n \<le> d" "length pre < 65536" "d < 65536"
  shows "complete_length w = (Inr (), w\<lparr>w_msg := Some \<lparr>m_header = h, m_body =
    pre @ (dec_string n @ replicate (d - NumDigits n) SP) @ post\<rparr>\<rparr>)"
proof -
  have "d \<noteq> 0" using assms(6) by (cases d) (simp_all add: NumDigits_dec_string)
  then have "(of_nat d :: u16) \<noteq> 0" "unat (of_nat d :: u16) = d"
    "unat (of_nat (length pre) :: u16) = length pre"
    using assms(7,8) by (simp_all add: word_unat_eq_iff unat_of_nat_u16)
  moreover have "write_digits (length pre + NumDigits n) n (pre @ replicate d SP @ post) =
      pre @ (dec_string n @ replicate (d - NumDigits n) SP) @ post"
    using fill_reserved [of n d pre post] assms(6) unfolding NumDigits_dec_string by simp
  ultimately show ?thesis
    using assms by (simp add: complete_length_def Let_def del: length_append)
qed

lemma compose_msg_length_ok:
  assumes start: "starts f p line" and nl: "nl = preferred_newline p"
    and ok: "list_all field_ok fs" "list_all field_ok gs"
    and d: "d = NumDigits mx" "n = length body" "NumDigits n \<le> d"
    and head: "head = msg_head line nl (fs @ (''Content-Length'', replicate d SP) # gs)" "length head \<le> 65535"
    and len: "length (head @ body) < 2 ^ 64" and eol: "eol_line line nl"
    and set: "set_parts line nl (classify_parts (start_parts line)) (length head) = (Inr (), L)"
  shows "\<exists>w. compose_msg_length f fs mx gs body (writer_new p) = (Inr (Some \<lparr>m_header = [], m_body =
    msg_head line nl (fs @ (''Content-Length'', dec_string n @ replicate (d - NumDigits n) SP) # gs) @ body\<rparr>), w)"
proof -
  define pre where "pre = line @ nl @ join_lines nl (map field_line fs) @ ''Content-Length:''"
  define post where "post = nl @ join_lines nl (map field_line gs) @ nl"
  have fill: "msg_head line nl (fs @ (''Content-Length'', v) # gs) = pre @ v @ post" for v
    by (simp add: msg_head_def pre_def post_def field_line_def)
  have off: "length pre < 65536" and dd: "d < 65536" using head(2) unfolding head(1) fill by simp_all
  have all: "list_all field_ok (fs @ (''Content-Length'', replicate d SP) # gs)"
    using ok by (auto simp: field_ok_def no_newline_def)
  from start obtain w1 where w1: "f (writer_new p) = (Inr (), w1)" "writing [] line [] w1"
    "w_protocol w1 = p" "w_lengthSize w1 = 0" by (auto simp: starts_def)
  from writeHeaders_writing [OF w1(2) ok(1)] obtain w2 where w2: "writeHeaders fs w1 = (Inr (), w2)"
    "writing [] line fs w2" "w_protocol w2 = p" "w_lengthSize w2 = 0" using w1(3,4) by auto
  from writeHeader_Length_writing [OF w2(2,4), of nl "length pre" mx] nl w2(3) obtain w3 where
    w3: "writeHeader_Length mx w2 = (Inr (), w3)" "writing [] line (fs @ [(''Content-Length'', replicate d SP)]) w3"
    "w_protocol w3 = p" "w_lengthOffset w3 = of_nat (length pre)" "w_lengthSize w3 = of_nat d"
    unfolding pre_def d(1) by auto
  from writeHeaders_writing [OF w3(2) ok(2)] obtain w4 where w4: "writeHeaders gs w3 = (Inr (), w4)"
    "writing [] line (fs @ (''Content-Length'', replicate d SP) # gs) w4"
    "w_protocol w4 = p" "w_lengthOffset w4 = of_nat (length pre)" "w_lengthSize w4 = of_nat d"
    using w3(3-5) by auto
  from autoCloseHeaders_writing [OF w4(2) _ head eol all set] nl w4(3)
  have "autoCloseHeaders w4 = (Inr (), w4\<lparr>w_layout := L, w_msg := Some \<lparr>m_header = [], m_body = head\<rparr>\<rparr>)" by simp
  note body = writeBody_writing [OF this, of body]
  let ?w = "w4\<lparr>w_layout := L, w_msg := Some \<lparr>m_header = [], m_body = head @ body\<rparr>\<rparr>"
  have pb: "unat (p_body L) = length head"
    unfolding set_parts_p_body [OF eol set] using head(2) by (simp add: unat_of_nat_u16)
  have "length head \<noteq> 0" using eol by (auto simp: head msg_head_def)
  with pb have p0: "p_body L \<noteq> 0" by auto
  have size: "to_size_t (int (length (head @ body)) - uint (p_body L)) = n"
    unfolding uint_int_unat pb d(2) by (subst to_size_t_id) (use len in auto)
  have "complete_length ?w = (Inr (), ?w\<lparr>w_msg := Some \<lparr>m_header = [], m_body =
      pre @ (dec_string n @ replicate (d - NumDigits n) SP) @ post @ body\<rparr>\<rparr>)"
    by (rule complete_length_ok [where L = L]) (use w4(4,5) size d(3) off dd in \<open>simp_all add: head(1) fill\<close>)
  then have "complete_length ?w = (Inr (), ?w\<lparr>w_msg := Some \<lparr>m_header = [], m_body =
      msg_head line nl (fs @ (''Content-Length'', dec_string n @ replicate (d - NumDigits n) SP) # gs) @ body\<rparr>\<rparr>)"
    by (simp add: fill)
  with w1(1) w2(1) w3(1) w4(1) body p0 show ?thesis
    by (simp add: compose_msg_length_def writer_release_def autoCloseHeaders_def)
qed
section \<open>Properties\<close>

lemma status_toString_chars: "SP \<notin> set (status_toString s) \<and> no_newline (status_toString s)"
proof (cases "s \<le> 0 \<or> s > 999")
  case True
  then show ?thesis by (auto simp: status_toString_def no_newline_def)
next
  case False
  then have s: "status_toString s = [digit_char (nat s div 100 mod 10), digit_char (nat s div 10 mod 10),
      digit_char (nat s mod 10)]" unfolding status_toString_def by auto
  have "SP \<noteq> digit_char (k mod 10)" "LF \<noteq> digit_char (k mod 10)" "CR \<noteq> digit_char (k mod 10)" for k
    using digit_char_neq [of "k mod 10"] by (simp_all add: eq_commute)
  then show ?thesis unfolding s no_newline_def by simp
qed

lemma protocol_toString_line:
  "protocol_valid p \<Longrightarrow> SP \<notin> set (protocol_toString p) \<and> no_newline (protocol_toString p)"
  by (auto simp: protocol_valid_iff no_newline_def)

lemma method_toString_line:
  "method_valid m \<Longrightarrow> SP \<notin> set (method_toString m) \<and> no_newline (method_toString m)"
  using method_toString_chars [of m] by (auto simp: list_all_iff no_newline_def)

lemma request_words:
  assumes "protocol_valid p" "method_valid m" "\<not> ContainsWhitespace uri"
  shows "SP \<notin> set (method_toString m)" "SP \<notin> set uri" "SP \<notin> set (protocol_toString p)"
    "protocol_toString p \<noteq> []" "no_newline (request_line m uri p)" "length (method_toString m) \<le> MAX_METHOD_LENGTH"
    "length (protocol_toString p) \<le> MAX_PRT_RPOS" "classify_parts (start_parts (request_line m uri p)) = REQUEST"
  using assms method_toString_line [OF assms(2)] protocol_toString_line [OF assms(1)]
    ContainsWhitespaceD [OF assms(3)] method_toString_length [OF assms(2)] protocol_toString_valid [OF assms(1)]
  by (auto intro: classify_request)

lemma composed_request:
  assumes a1: "protocol_valid p" and a2: "method_valid m" and a3: "\<not> ContainsWhitespace uri" and a4: "list_all field_ok fs"
    and a5: "length (msg_head (request_line m uri p) (preferred_newline p) fs) \<le> 65535"
  shows "\<exists>w. compose_msg (startRequest uri m) fs body (writer_new p) =
      (Inr (Some \<lparr>m_header = [], m_body = msg_head (request_line m uri p) (preferred_newline p) fs @ body\<rparr>), w)"
proof -
  let ?line = "request_line m uri p" and ?nl = "preferred_newline p"
  note words = request_words [OF a1 a2 a3]
  have eol: "eol_line ?line ?nl" using words(5) preferred_newline_cases [of p] by auto
  have le: "length ?line \<le> 65535" using a5 by (simp add: msg_head_def)
  have "\<exists>w. compose_msg (startRequest uri m) fs body (writer_new p) =
      (Inr (Some \<lparr>m_header = [], m_body = msg_head ?line ?nl fs @ body\<rparr>), w) \<and> w_msg w = None"
    by (rule compose_msg_ok [OF starts_request [OF a2 a3] refl refl a5 eol a4],
        unfold words(8), rule set_parts_request [OF eol refl words(1-4,6,7) le])
  then show ?thesis by blast
qed

lemma written_request:
  assumes "protocol_valid p" "method_valid m" "\<not> ContainsWhitespace uri" "list_all field_ok fs"
    and "length (msg_head (request_line m uri p) (preferred_newline p) fs) \<le> 65535"
    and "length (msg_head (request_line m uri p) (preferred_newline p) fs @ body) < 2 ^ 64"
    and "t = UNKNOWN \<or> t = REQUEST"
  shows "\<exists>w v. compose_msg (startRequest uri m) fs body (writer_new p) = (Inr (Some \<lparr>m_header = [], m_body = msg_head (request_line m uri p) (preferred_newline p) fs @ body\<rparr>), w) \<and>
    msgview_make L0 (Some \<lparr>m_header = [], m_body = msg_head (request_line m uri p) (preferred_newline p) fs @ body\<rparr>) t = Inr v \<and> mv_msgType v = REQUEST \<and> mv_method v = m \<and>
    mv_uriString v = uri \<and> mv_protocol v = p \<and> mv_headers v = map field_view fs \<and> mv_bodyString v = body"
proof -
  let ?line = "request_line m uri p" and ?nl = "preferred_newline p"
  note words = request_words [OF assms(1-3)]
  have "\<exists>w. compose_msg (startRequest uri m) fs body (writer_new p) =
      (Inr (Some \<lparr>m_header = [], m_body = msg_head (request_line m uri p) (preferred_newline p) fs @ body\<rparr>), w)"
    using composed_request [OF assms(1) assms(2) assms(3) assms(4) assms(5)] .
  moreover have "parsed_type t ?line = REQUEST" using assms(7) words(8) by auto
  then obtain v where "msgview_make L0 (Some \<lparr>m_header = [], m_body = msg_head ?line ?nl fs @ body\<rparr>) t = Inr v"
    "mv_msgType v = REQUEST" "mv_methodString v = method_toString m" "mv_uriString v = uri"
    "mv_protocolString v = protocol_toString p" "mv_headers v = map field_view fs" "mv_bodyString v = body"
    by (rule view_request [OF preferred_newline_cases assms(4) refl refl assms(5,6) words(1-7)])
  ultimately show ?thesis
    using assms(1,2) by (auto simp: mv_method_def mv_protocol_def method_Parse_toString protocol_Parse_toString)
qed

text \<open>
  C1. A request that is written is read back. For every valid protocol and method, every target
  without white space, every list of writable header fields and every body within the size limits of
  the format, composing the request succeeds, and parsing the released message -- as a message of
  unknown type or as a request -- shows the same method, target, protocol, header fields (values
  trimmed of blanks) and body.
\<close>

theorem request_roundtrip:
  assumes "protocol_valid p" "method_valid m" "\<not> ContainsWhitespace uri" "list_all field_ok fs"
    and "length (msg_head (request_line m uri p) (preferred_newline p) fs) \<le> 65535"
    and "length (msg_head (request_line m uri p) (preferred_newline p) fs @ body) < 2 ^ 64"
    and "t = UNKNOWN \<or> t = REQUEST"
  shows "\<exists>msg w v. compose_msg (startRequest uri m) fs body (writer_new p) = (Inr (Some msg), w) \<and>
    msgview_make L0 (Some msg) t = Inr v \<and> mv_msgType v = REQUEST \<and> mv_method v = m \<and>
    mv_uriString v = uri \<and> mv_protocol v = p \<and> mv_headers v = map field_view fs \<and> mv_bodyString v = body"
  using written_request [OF assms] by blast

theorem request_roundtrip_witness:
  "\<exists>msg w v. compose_msg (startRequest ''/a'' GET) [(''Accept'', ''*'')] ''hello'' (writer_new Telling) = (Inr (Some msg), w) \<and>
    msgview_make parse_reset (Some msg) UNKNOWN = Inr v \<and> mv_msgType v = REQUEST \<and> mv_method v = GET \<and>
    mv_uriString v = ''/a'' \<and> mv_protocol v = Telling \<and> mv_headers v = map field_view [(''Accept'', ''*'')] \<and>
    mv_bodyString v = ''hello''"
  by (rule request_roundtrip)
    (simp_all add: protocol_valid_def method_valid_def ContainsWhitespace_def field_ok_def msg_head_def
      preferred_newline_def field_line_def)
lemma reply_words:
  assumes "protocol_valid p" "\<not> ContainsNewline r" "length r \<le> MAX_REASON_LENGTH"
    and "\<not> protocol_valid (protocol_Parse (takeWhile (\<lambda>c. c \<noteq> SP) r))"
  shows "SP \<notin> set (protocol_toString p)" "SP \<notin> set (status_toString s)" "length (status_toString s) = 3"
    "no_newline (reply_line p s r)" "length (reply_line p s r) \<le> MAX_PRT_RPOS"
    "classify_parts (start_parts (reply_line p s r)) = REPLY"
  using assms protocol_toString_line [OF assms(1)] status_toString_chars [of s]
    protocol_toString_valid(2) [OF assms(1)]
  by (auto intro: classify_reply simp: ContainsNewline_iff)

lemma composed_reply:
  assumes a1: "protocol_valid p" and a4: "\<not> ContainsNewline r"
    and a5: "length r \<le> MAX_REASON_LENGTH" and a6: "\<not> protocol_valid (protocol_Parse (takeWhile (\<lambda>c. c \<noteq> SP) r))" and a7: "list_all field_ok fs"
    and a8: "length (msg_head (reply_line p s r) (preferred_newline p) fs) \<le> 65535"
  shows "\<exists>w. compose_msg (startReply s r) fs body (writer_new p) =
      (Inr (Some \<lparr>m_header = [], m_body = msg_head (reply_line p s r) (preferred_newline p) fs @ body\<rparr>), w)"
proof -
  let ?line = "reply_line p s r" and ?nl = "preferred_newline p"
  note words = reply_words [OF a1 a4 a5 a6]
  have eol: "eol_line ?line ?nl" using words(4) preferred_newline_cases [of p] by auto
  have "\<exists>w. compose_msg (startReply s r) fs body (writer_new p) =
      (Inr (Some \<lparr>m_header = [], m_body = msg_head ?line ?nl fs @ body\<rparr>), w) \<and> w_msg w = None"
    by (rule compose_msg_ok [OF starts_reply [OF a4] refl refl a8 eol a7],
        unfold words(6), rule set_parts_reply [OF eol refl words(1-3,5) a5])
  then show ?thesis by blast
qed

lemma written_reply:
  assumes "protocol_valid p" "0 < s" "s \<le> 999" "\<not> ContainsNewline r" "length r \<le> MAX_REASON_LENGTH"
    and "\<not> protocol_valid (protocol_Parse (takeWhile (\<lambda>c. c \<noteq> SP) r))" "list_all field_ok fs"
    and "length (msg_head (reply_line p s r) (preferred_newline p) fs) \<le> 65535"
    and "length (msg_head (reply_line p s r) (preferred_newline p) fs @ body) < 2 ^ 64"
    and "t = UNKNOWN \<or> t = REPLY"
  shows "\<exists>w v. compose_msg (startReply s r) fs body (writer_new p) = (Inr (Some \<lparr>m_header = [], m_body = msg_head (reply_line p s r) (preferred_newline p) fs @ body\<rparr>), w) \<and>
    msgview_make L0 (Some \<lparr>m_header = [], m_body = msg_head (reply_line p s r) (preferred_newline p) fs @ body\<rparr>) t = Inr v \<and> mv_msgType v = REPLY \<and> mv_protocol v = p \<and>
    mv_status v = s \<and> mv_reason v = r \<and> mv_headers v = map field_view fs \<and> mv_bodyString v = body"
proof -
  let ?line = "reply_line p s r" and ?nl = "preferred_newline p"
  note words = reply_words [OF assms(1,4-6)]
  have "\<exists>w. compose_msg (startReply s r) fs body (writer_new p) =
      (Inr (Some \<lparr>m_header = [], m_body = msg_head (reply_line p s r) (preferred_newline p) fs @ body\<rparr>), w)"
    using composed_reply [OF assms(1) assms(4) assms(5) assms(6) assms(7) assms(8)] .
  moreover have "parsed_type t ?line = REPLY" using assms(10) words(6) by auto
  then obtain v where "msgview_make L0 (Some \<lparr>m_header = [], m_body = msg_head ?line ?nl fs @ body\<rparr>) t = Inr v"
    "mv_msgType v = REPLY" "mv_protocolString v = protocol_toString p" "mv_statusString v = status_toString s"
    "mv_reason v = r" "mv_headers v = map field_view fs" "mv_bodyString v = body"
    by (rule view_reply [OF preferred_newline_cases assms(7) refl refl assms(8,9) words(1-5) assms(5)])
  ultimately show ?thesis
    using assms(1-3) by (auto simp: mv_status_def mv_protocol_def status_Parse_toString protocol_Parse_toString)
qed

text \<open>
  C17. A reply that is written is read back: protocol, status, reason phrase, header fields and body,
  when the reason phrase is on one line of at most 128 characters, the status has at most three
  digits, and the reason phrase does not begin with the name of a protocol (such a line would be
  taken for a request).
\<close>

theorem reply_roundtrip:
  assumes "protocol_valid p" "0 < s" "s \<le> 999" "\<not> ContainsNewline r" "length r \<le> MAX_REASON_LENGTH"
    and "\<not> protocol_valid (protocol_Parse (takeWhile (\<lambda>c. c \<noteq> SP) r))" "list_all field_ok fs"
    and "length (msg_head (reply_line p s r) (preferred_newline p) fs) \<le> 65535"
    and "length (msg_head (reply_line p s r) (preferred_newline p) fs @ body) < 2 ^ 64"
    and "t = UNKNOWN \<or> t = REPLY"
  shows "\<exists>msg w v. compose_msg (startReply s r) fs body (writer_new p) = (Inr (Some msg), w) \<and>
    msgview_make L0 (Some msg) t = Inr v \<and> mv_msgType v = REPLY \<and> mv_protocol v = p \<and>
    mv_status v = s \<and> mv_reason v = r \<and> mv_headers v = map field_view fs \<and> mv_bodyString v = body"
  using written_reply [OF assms] by blast

theorem reply_roundtrip_witness:
  "\<exists>msg w v. compose_msg (startReply NotFound ''Not Found'') [(''Allow'', ''GET'')] ''gone'' (writer_new Http) = (Inr (Some msg), w) \<and>
    msgview_make parse_reset (Some msg) REPLY = Inr v \<and> mv_msgType v = REPLY \<and> mv_protocol v = Http \<and>
    mv_status v = NotFound \<and> mv_reason v = ''Not Found'' \<and> mv_headers v = map field_view [(''Allow'', ''GET'')] \<and>
    mv_bodyString v = ''gone''"
  by (rule reply_roundtrip)
    (simp_all add: protocol_valid_def ContainsNewline_def protocol_Parse_def field_ok_def msg_head_def
      preferred_newline_def field_line_def status_toString_def)

lemma report_words:
  assumes "protocol_valid p" "\<not> ContainsWhitespace uri" "\<not> ContainsNewline r" "length r \<le> MAX_REASON_LENGTH"
  shows "SP \<notin> set uri" "SP \<notin> set (protocol_toString p)" "SP \<notin> set (status_toString s)"
    "length (status_toString s) = 3" "no_newline (report_line uri p s r)"
    "length (protocol_toString p) + length r + 5 \<le> MAX_PRT_RPOS"
    "classify_parts (start_parts (report_line uri p s r)) = REPORT"
  using assms protocol_toString_line [OF assms(1)] status_toString_chars [of s]
    protocol_toString_valid(2) [OF assms(1)] ContainsWhitespaceD [OF assms(2)]
  by (auto intro: classify_report simp: ContainsNewline_iff)

lemma composed_report:
  assumes a1: "protocol_valid p" and a4: "\<not> ContainsWhitespace uri"
    and a5: "\<not> ContainsNewline r" and a6: "length r \<le> MAX_REASON_LENGTH" and a7: "list_all field_ok fs"
    and a8: "length (msg_head (report_line uri p s r) (preferred_newline p) fs) \<le> 65535"
  shows "\<exists>w. compose_msg (startReport uri s r) fs body (writer_new p) =
      (Inr (Some \<lparr>m_header = [], m_body = msg_head (report_line uri p s r) (preferred_newline p) fs @ body\<rparr>), w)"
proof -
  let ?line = "report_line uri p s r" and ?nl = "preferred_newline p"
  note words = report_words [OF a1 a4 a5 a6]
  have eol: "eol_line ?line ?nl" using words(5) preferred_newline_cases [of p] by auto
  have le: "length ?line \<le> 65535" using a8 by (simp add: msg_head_def)
  have "\<exists>w. compose_msg (startReport uri s r) fs body (writer_new p) =
      (Inr (Some \<lparr>m_header = [], m_body = msg_head ?line ?nl fs @ body\<rparr>), w) \<and> w_msg w = None"
    by (rule compose_msg_ok [OF starts_report [OF a4 a5] refl refl a8 eol a7],
        unfold words(7), rule set_parts_report [OF eol refl words(1-4,6) a6 le])
  then show ?thesis by blast
qed

lemma written_report:
  assumes "protocol_valid p" "0 < s" "s \<le> 999" "\<not> ContainsWhitespace uri" "\<not> ContainsNewline r"
    and "length r \<le> MAX_REASON_LENGTH" "list_all field_ok fs"
    and "length (msg_head (report_line uri p s r) (preferred_newline p) fs) \<le> 65535"
    and "length (msg_head (report_line uri p s r) (preferred_newline p) fs @ body) < 2 ^ 64"
    and "t = UNKNOWN \<or> t = REPORT"
  shows "\<exists>w v. compose_msg (startReport uri s r) fs body (writer_new p) = (Inr (Some \<lparr>m_header = [], m_body = msg_head (report_line uri p s r) (preferred_newline p) fs @ body\<rparr>), w) \<and>
    msgview_make L0 (Some \<lparr>m_header = [], m_body = msg_head (report_line uri p s r) (preferred_newline p) fs @ body\<rparr>) t = Inr v \<and> mv_msgType v = REPORT \<and> mv_uriString v = uri \<and>
    mv_protocol v = p \<and> mv_status v = s \<and> mv_reason v = r \<and> mv_headers v = map field_view fs \<and>
    mv_bodyString v = body"
proof -
  let ?line = "report_line uri p s r" and ?nl = "preferred_newline p"
  note words = report_words [OF assms(1,4-6)]
  have "\<exists>w. compose_msg (startReport uri s r) fs body (writer_new p) =
      (Inr (Some \<lparr>m_header = [], m_body = msg_head (report_line uri p s r) (preferred_newline p) fs @ body\<rparr>), w)"
    using composed_report [OF assms(1) assms(4) assms(5) assms(6) assms(7) assms(8)] .
  moreover have "parsed_type t ?line = REPORT" using assms(10) words(7) by auto
  then obtain v where "msgview_make L0 (Some \<lparr>m_header = [], m_body = msg_head ?line ?nl fs @ body\<rparr>) t = Inr v"
    "mv_msgType v = REPORT" "mv_uriString v = uri" "mv_protocolString v = protocol_toString p"
    "mv_statusString v = status_toString s" "mv_reason v = r" "mv_headers v = map field_view fs"
    "mv_bodyString v = body"
    by (rule view_report [OF preferred_newline_cases assms(7) refl refl assms(8,9) words(1-6) assms(6)])
  ultimately show ?thesis
    using assms(1-3) by (auto simp: mv_status_def mv_protocol_def status_Parse_toString protocol_Parse_toString)
qed

text \<open>
  C19. A report that is written is read back: target, protocol, status, reason phrase, header fields
  and body, for every target without white space and every one-line reason phrase of at most 128
  characters.
\<close>

theorem report_roundtrip:
  assumes "protocol_valid p" "0 < s" "s \<le> 999" "\<not> ContainsWhitespace uri" "\<not> ContainsNewline r"
    and "length r \<le> MAX_REASON_LENGTH" "list_all field_ok fs"
    and "length (msg_head (report_line uri p s r) (preferred_newline p) fs) \<le> 65535"
    and "length (msg_head (report_line uri p s r) (preferred_newline p) fs @ body) < 2 ^ 64"
    and "t = UNKNOWN \<or> t = REPORT"
  shows "\<exists>msg w v. compose_msg (startReport uri s r) fs body (writer_new p) = (Inr (Some msg), w) \<and>
    msgview_make L0 (Some msg) t = Inr v \<and> mv_msgType v = REPORT \<and> mv_uriString v = uri \<and>
    mv_protocol v = p \<and> mv_status v = s \<and> mv_reason v = r \<and> mv_headers v = map field_view fs \<and>
    mv_bodyString v = body"
  using written_report [OF assms] by blast

theorem report_roundtrip_witness:
  "\<exists>msg w v. compose_msg (startReport ''/sensor'' OK ''OK'') [] ''42'' (writer_new Telling) = (Inr (Some msg), w) \<and>
    msgview_make parse_reset (Some msg) UNKNOWN = Inr v \<and> mv_msgType v = REPORT \<and> mv_uriString v = ''/sensor'' \<and>
    mv_protocol v = Telling \<and> mv_status v = OK \<and> mv_reason v = ''OK'' \<and> mv_headers v = map field_view [] \<and>
    mv_bodyString v = ''42''"
  by (rule report_roundtrip)
    (simp_all add: protocol_valid_def ContainsNewline_def ContainsWhitespace_def msg_head_def
      preferred_newline_def status_toString_def)
lemma trim_padded_digits: "trim (dec_string n @ replicate k SP) = dec_string n"
proof -
  have d: "\<forall>c \<in> set (dec_string n). \<not> is_blank c"
    using dec_string_digit digit_char_neq(3,4) unfolding is_blank_def by metis
  then have e: "\<not> is_blank (hd (dec_string n))" "\<not> is_blank (last (dec_string n))" by simp_all
  then have drop: "dropWhile is_blank (dec_string n @ s) = dec_string n @ s" for s
    by (cases "dec_string n") simp_all
  have "trim (dec_string n @ replicate k SP) = trim_right (dec_string n)"
    unfolding trim_def drop by (rule trim_right_blanks) simp
  also have "\<dots> = trim (dec_string n)" unfolding trim_def using drop [of "[]"] by simp
  also have "\<dots> = dec_string n" using e by (intro trim_id) simp
  finally show ?thesis .
qed

lemma no_newline_padded_digits: "no_newline (dec_string n @ replicate k SP)"
proof -
  have "LF \<notin> set (dec_string n)" "CR \<notin> set (dec_string n)"
    using dec_string_digit digit_char_neq(5,6) by metis+
  then show ?thesis by (simp add: no_newline_def)
qed

text \<open>
  C18. Content length. When the space for the length was reserved among the headers of a request with
  a bound of at least as many digits as the body's size, the released message announces exactly the
  size of its body, and the parsed message is complete.
\<close>

theorem content_length_completes:
  assumes "protocol_valid p" "method_valid m" "\<not> ContainsWhitespace uri" "list_all field_ok fs" "list_all field_ok gs"
    and "NumDigits (length body) \<le> NumDigits maxLength" "length body < 2 ^ 63"
    and "\<forall>g \<in> set gs. map to_lower (fst g) \<noteq> map to_lower ''Content-Length''"
    and "length (msg_head (request_line m uri p) (preferred_newline p)
           (fs @ (''Content-Length'', replicate (NumDigits maxLength) SP) # gs)) \<le> 65535"
  shows "\<exists>msg w v. compose_msg_length (startRequest uri m) fs maxLength gs body (writer_new p) = (Inr (Some msg), w) \<and>
    msgview_make L0 (Some msg) UNKNOWN = Inr v \<and> mv_bodyString v = body \<and>
    mc_complete (completion v) \<and> mc_length_header (completion v) \<and> mc_message_length (completion v) = length body"
proof -
  define n where "n = length body"
  define val where "val = dec_string n @ replicate (NumDigits maxLength - NumDigits n) SP"
  let ?line = "request_line m uri p" and ?nl = "preferred_newline p"
  let ?hs = "fs @ (''Content-Length'', val) # gs"
  note words = request_words [OF assms(1-3)]
  have eol: "eol_line ?line ?nl" using words(5) preferred_newline_cases [of p] by auto
  have le: "length ?line \<le> 65535" using assms(9) by (simp add: msg_head_def)
  have same: "length (msg_head ?line ?nl ?hs) =
      length (msg_head ?line ?nl (fs @ (''Content-Length'', replicate (NumDigits maxLength) SP) # gs))"
    using assms(6) by (simp add: msg_head_def field_line_def val_def n_def NumDigits_dec_string)
  have len: "length (msg_head ?line ?nl ?hs) \<le> 65535" "length (msg_head ?line ?nl ?hs @ body) < 2 ^ 64"
    using assms(7,9) unfolding length_append same by simp_all
  have ok: "list_all field_ok ?hs"
    using assms(4,5) no_newline_padded_digits by (simp add: field_ok_def val_def)
  let ?h0 = "msg_head ?line ?nl (fs @ (''Content-Length'', replicate (NumDigits maxLength) SP) # gs)"
  have len0: "length (?h0 @ body) < 2 ^ 64" using len(2) unfolding length_append same .
  have set: "set_parts ?line ?nl (classify_parts (start_parts ?line)) (length ?h0) =
      (Inr (), layout_of ?line ?nl (length ?h0) (length (method_toString m) + 1) (length (protocol_toString p)) 0)"
    unfolding words(8) by (rule set_parts_request [OF eol refl words(1-4,6,7) le])
  from compose_msg_length_ok [OF starts_request [OF assms(2,3)] refl assms(4,5) refl refl assms(6) refl assms(9) len0 eol set]
  obtain w where w: "compose_msg_length (startRequest uri m) fs maxLength gs body (writer_new p) =
      (Inr (Some \<lparr>m_header = [], m_body = msg_head ?line ?nl ?hs @ body\<rparr>), w)"
    unfolding val_def n_def by (rule exE)
  have "parsed_type UNKNOWN ?line = REQUEST" using words(8) by simp
  then obtain v where v: "msgview_make L0 (Some \<lparr>m_header = [], m_body = msg_head ?line ?nl ?hs @ body\<rparr>) UNKNOWN = Inr v"
    "mv_headers v = map field_view ?hs" "mv_bodySize v = length body" "mv_bodyString v = body"
    by (rule view_request [OF preferred_newline_cases ok refl refl len words(1-7)])
  have "value_dec (field_view (''Content-Length'', val)) 0 = int n"
    by (rule value_dec_dec_string) (use assms(7) in \<open>simp_all add: n_def field_view_def val_def trim_padded_digits\<close>)
  then have "mc_length_header (completion v)" "mc_message_length (completion v) = n" "mc_complete (completion v)"
    using completion_length [of v "map field_view fs" "field_view (''Content-Length'', val)" "map field_view gs" n]
      v(2,3) assms(7,8) by (simp_all add: header_is_iff field_view_def n_def)
  with w v(1,4) show ?thesis by (auto simp: n_def)
qed

theorem content_length_completes_witness:
  "\<exists>msg w v. compose_msg_length (startRequest ''/a'' POST) [] 1000 [(''Accept'', ''*'')] ''hello'' (writer_new Http) = (Inr (Some msg), w) \<and>
    msgview_make parse_reset (Some msg) UNKNOWN = Inr v \<and> mv_bodyString v = ''hello'' \<and>
    mc_complete (completion v) \<and> mc_length_header (completion v) \<and> mc_message_length (completion v) = length ''hello''"
proof -
  have "NumDigits 1000 = 4" "NumDigits (length ''hello'') = 1" by code_simp+
  moreover have "map to_lower ''Accept'' \<noteq> map to_lower ''Content-Length''" by code_simp
  ultimately show ?thesis
    by (intro content_length_completes)
      (simp_all add: protocol_valid_def method_valid_def ContainsWhitespace_def field_ok_def
        msg_head_def preferred_newline_def field_line_def)
qed

text \<open>
  The \<open>Allow\<close> header names exactly the methods of the set, each once, in the order of their codes,
  separated by commas.
\<close>

theorem allow_lists_methods:
  "allow_value ms = concat (case map method_toString (filter (\<lambda>m. bit ms (shift_count m)) valid_methods) of
      [] \<Rightarrow> [] | n # ns \<Rightarrow> n # map (\<lambda>n. '', '' @ n) ns)"
proof -
  define P where "P m = bit ms (shift_count m)" for m
  have "fold (allow_step ms) xs (False, a) = (False, a @ concat (map (\<lambda>m. '', '' @ method_toString m) (filter P xs)))"
    if "MethodUnknown \<notin> set xs" for xs a
    using that by (induction xs arbitrary: a) (auto simp: allow_step_def contains_bit P_def)
  then have "snd (fold (allow_step ms) xs (True, [])) = concat (case map method_toString (filter P xs) of
      [] \<Rightarrow> [] | n # ns \<Rightarrow> n # map (\<lambda>n. '', '' @ n) ns)" if "MethodUnknown \<notin> set xs" for xs
    using that by (induction xs) (auto simp: allow_step_def contains_bit P_def comp_def)
  moreover have "MethodUnknown \<notin> set valid_methods" by (simp add: valid_methods_def)
  moreover have "P = (\<lambda>m. bit ms (shift_count m))" by (simp add: P_def fun_eq_iff)
  ultimately show ?thesis unfolding allow_value_def by (simp only: simp_thms)
qed

text \<open>
  What the writer refuses at the start. A target with white space, an invalid method or a reason
  phrase with a line break is refused before anything is written, and a message that is already begun
  cannot be started again; each refusal is an exception that cannot be made.
\<close>

theorem writer_refuses_start:
  assumes "w_msg w = None" and "w_msg u \<noteq> None"
    and "\<not> method_valid m \<or> ContainsWhitespace uri" and "ContainsWhitespace uri' \<or> \<not> no_newline r'" and "\<not> no_newline r"
  shows "(\<exists>w'. startRequest uri m w = (Inl (null_text START_LINE_MALFORMED), w') \<and> map_option m_body (w_msg w') = Some []) \<and>
    (\<exists>w'. startReply s r w = (Inl (null_text START_LINE_MALFORMED), w') \<and> map_option m_body (w_msg w') = Some []) \<and>
    (\<exists>w'. startReport uri' s r' w = (Inl (null_text START_LINE_MALFORMED), w') \<and> map_option m_body (w_msg w') = Some []) \<and>
    startRequest x y u = (Inl (null_text ALREADY_WRITTEN), u) \<and> startReply s z u = (Inl (null_text ALREADY_WRITTEN), u) \<and>
    startReport x s z u = (Inl (null_text ALREADY_WRITTEN), u)"
  using assms by (auto simp: startRequest_def startReply_def startReport_def startMsg_def malformed_def
      ebind_def ContainsNewline_iff)

theorem writer_refuses_start_witness:
  "\<exists>w'. startRequest ''/a b'' GET (writer_new Telling) = (Inl (null_text START_LINE_MALFORMED), w') \<and>
    map_option m_body (w_msg w') = Some []"
  using writer_refuses_start [of "writer_new Telling" "(writer_new Telling)\<lparr>w_msg := Some \<lparr>m_header = [], m_body = []\<rparr>\<rparr>"
      GET "''/a b''" "''/a b''" "[]" "[LF]" OK]
  by (simp add: ContainsWhitespace_def)

text \<open>
  What the writer refuses in the headers. A field with a line break in it, or with a colon in its
  name, leaves the message as it is; once the headers are closed, or the message is released, no field
  can be added. Together with the round trips this rules out header injection.
\<close>

theorem writer_refuses_header:
  assumes "w_msg w \<noteq> None" "p_body (w_layout w) = 0" "\<not> field_ok (n, v)"
    and "w_msg u = None \<or> p_body (w_layout u) \<noteq> 0"
  shows "writeHeader n v w = (Inl (null_text HEADER_MALFORMED), w) \<and>
    writeHeader n' v' u = (Inl (null_text ALREADY_WRITTEN), u)"
  using assms by (auto simp: writeHeader_def malformed_def field_ok_iff)

theorem writer_refuses_header_witness:
  "fst (writeHeader ''A'' (''b'' @ [CR, LF] @ ''C: d'') ((writer_new Telling)\<lparr>w_msg := Some \<lparr>m_header = [], m_body = []\<rparr>\<rparr>)) =
    Inl (null_text HEADER_MALFORMED)"
  using writer_refuses_header [of "(writer_new Telling)\<lparr>w_msg := Some \<lparr>m_header = [], m_body = []\<rparr>\<rparr>" "''A''"
      "''b'' @ [CR, LF] @ ''C: d''" "writer_new Telling" "[]" "[]"]
  by (simp add: field_ok_def)

end
