(* ===== verification/Pattern.thy ===== *)
theory Pattern
  imports Decimal
begin

text \<open>
  Communication patterns, roles and socket protocols: \<open>include/telling/pattern.h\<close>. An enumeration
  value outside its named enumerators is not modelled; \<open>PATTERN_COUNT\<close> is, because it is an
  enumerator. Enumerator names that occur in two of the C++ enumerations are prefixed.
\<close>

datatype PATTERN = NO_PATTERN | REQ_REP | PUB_SUB | PUSH_PULL | PATTERN_PAIR | PATTERN_COUNT

primrec pattern_int :: "PATTERN \<Rightarrow> int" where
  "pattern_int NO_PATTERN = -1"
| "pattern_int REQ_REP = 0"
| "pattern_int PUB_SUB = 1"
| "pattern_int PUSH_PULL = 2"
| "pattern_int PATTERN_PAIR = 3"
| "pattern_int PATTERN_COUNT = 4"

definition pattern_Name :: "PATTERN \<Rightarrow> string" where
  "pattern_Name p = (case p of REQ_REP \<Rightarrow> ''REQ_REP'' | PUB_SUB \<Rightarrow> ''PUB_SUB'' | PUSH_PULL \<Rightarrow> ''PUSHPULL''
    | PATTERN_PAIR \<Rightarrow> ''PEER'' | _ \<Rightarrow> ''none'')"

datatype ROLE = NO_ROLE | CLIENT | SERVICE | BROKER | PEER

definition role_Name :: "ROLE \<Rightarrow> string" where
  "role_Name r = (case r of CLIENT \<Rightarrow> ''CLIENT'' | SERVICE \<Rightarrow> ''SERVICE'' | BROKER \<Rightarrow> ''BROKER''
    | PEER \<Rightarrow> ''PEER'' | NO_ROLE \<Rightarrow> ''none'')"

definition role_Name4c :: "ROLE \<Rightarrow> string" where
  "role_Name4c r = (case r of CLIENT \<Rightarrow> ''CLNT'' | SERVICE \<Rightarrow> ''SRVC'' | BROKER \<Rightarrow> ''BROK''
    | PEER \<Rightarrow> ''PEER'' | NO_ROLE \<Rightarrow> ''none'')"

datatype PROTOCOL = NO_PROTOCOL | PROTOCOL_PAIR | REQ | REP | SUB | PUB | PUSH | PULL

definition socket_protocol_Name :: "PROTOCOL \<Rightarrow> string" where
  "socket_protocol_Name p = (case p of PROTOCOL_PAIR \<Rightarrow> ''PAIR'' | REQ \<Rightarrow> ''REQ'' | REP \<Rightarrow> ''REP'' | SUB \<Rightarrow> ''SUB''
    | PUB \<Rightarrow> ''PUB'' | PUSH \<Rightarrow> ''PUSH'' | PULL \<Rightarrow> ''PULL'' | NO_PROTOCOL \<Rightarrow> ''none'')"

definition ClientSide :: "PATTERN \<Rightarrow> PROTOCOL" where
  "ClientSide p = (case p of REQ_REP \<Rightarrow> REQ | PUB_SUB \<Rightarrow> SUB | PUSH_PULL \<Rightarrow> PUSH | _ \<Rightarrow> NO_PROTOCOL)"

definition ServerSide :: "PATTERN \<Rightarrow> PROTOCOL" where
  "ServerSide p = (case p of REQ_REP \<Rightarrow> REP | PUB_SUB \<Rightarrow> PUB | PUSH_PULL \<Rightarrow> PULL | _ \<Rightarrow> NO_PROTOCOL)"

definition Choose :: "ROLE \<Rightarrow> PATTERN \<Rightarrow> PROTOCOL" where
  "Choose r p = (case r of
      CLIENT \<Rightarrow> ClientSide p
    | SERVICE \<Rightarrow> ServerSide p
    | BROKER \<Rightarrow> ServerSide p
    | PEER \<Rightarrow> (case p of PATTERN_PAIR \<Rightarrow> PROTOCOL_PAIR | _ \<Rightarrow> NO_PROTOCOL)
    | NO_ROLE \<Rightarrow> NO_PROTOCOL)"

definition IsStateful :: "PROTOCOL \<Rightarrow> bool" where
  "IsStateful p = (case p of REQ \<Rightarrow> True | REP \<Rightarrow> True | SUB \<Rightarrow> True | PULL \<Rightarrow> True | _ \<Rightarrow> False)"

section \<open>Lemmas\<close>

text \<open>The protocol at the other end of a socket.\<close>

definition counterpart :: "PROTOCOL \<Rightarrow> PROTOCOL" where
  "counterpart p = (case p of REQ \<Rightarrow> REP | REP \<Rightarrow> REQ | SUB \<Rightarrow> PUB | PUB \<Rightarrow> SUB | PUSH \<Rightarrow> PULL | PULL \<Rightarrow> PUSH
    | PROTOCOL_PAIR \<Rightarrow> PROTOCOL_PAIR | NO_PROTOCOL \<Rightarrow> NO_PROTOCOL)"

lemma Choose_eq_no_protocol:
  "Choose r p = NO_PROTOCOL \<longleftrightarrow>
    (if r \<in> {CLIENT, SERVICE, BROKER} then p \<notin> {REQ_REP, PUB_SUB, PUSH_PULL} else r = PEER \<longrightarrow> p \<noteq> PATTERN_PAIR)"
  by (cases r; cases p) (simp_all add: Choose_def ClientSide_def ServerSide_def)

section \<open>Properties\<close>

text \<open>
  The two ends of a communication pattern get matching sockets: what a service or a broker opens
  for a pattern is the counterpart of what a client opens, a peer's socket is its own counterpart, and
  different patterns never give a role the same socket.
\<close>

theorem roles_match:
  "Choose SERVICE p = counterpart (Choose CLIENT p) \<and> Choose BROKER p = Choose SERVICE p \<and>
    Choose PEER p = counterpart (Choose PEER p) \<and>
    (Choose r p = Choose r q \<and> Choose r p \<noteq> NO_PROTOCOL \<longrightarrow> p = q)"
  by (cases r; cases p; cases q) (simp_all add: Choose_def ClientSide_def ServerSide_def counterpart_def)

theorem roles_match_witness: "Choose SERVICE REQ_REP = counterpart (Choose CLIENT REQ_REP)"
  using roles_match [of REQ_REP CLIENT REQ_REP] by simp

end
