(* ===== verification/Host_Address.thy ===== *)
theory Host_Address
  imports Pattern
begin

text \<open>
  Host addresses: \<open>include/telling/host_address.h\<close>. The prefix of inter-process addresses depends on
  the platform the library is compiled for, so the platform is an argument.
\<close>

section \<open>Model\<close>

datatype TRANSPORT = NO_TRANSPORT | INPROC | IPC | TCP | TRANSPORT_COUNT

record HostAddress =
  ha_transport :: TRANSPORT
  ha_number :: u16
  ha_name :: string

definition host_nil :: HostAddress where
  "host_nil = \<lparr>ha_transport = NO_TRANSPORT, ha_number = 0, ha_name = []\<rparr>"

definition host_TCP :: "string \<Rightarrow> u16 \<Rightarrow> HostAddress" where
  "host_TCP host port = \<lparr>ha_transport = TCP, ha_number = port, ha_name = host\<rparr>"

definition host_TCP_Local :: "u16 \<Rightarrow> HostAddress" where
  "host_TCP_Local port = host_TCP ''localhost'' port"

definition host_InProc :: "string \<Rightarrow> HostAddress" where
  "host_InProc n = \<lparr>ha_transport = INPROC, ha_number = 0, ha_name = n\<rparr>"

definition host_IPC :: "string \<Rightarrow> HostAddress" where
  "host_IPC n = \<lparr>ha_transport = IPC, ha_number = 0, ha_name = n\<rparr>"

definition host_bool :: "HostAddress \<Rightarrow> bool" where
  "host_bool a \<longleftrightarrow> ha_transport a \<noteq> NO_TRANSPORT"

definition host_eq :: "HostAddress \<Rightarrow> HostAddress \<Rightarrow> bool" where
  "host_eq a b \<longleftrightarrow> ha_transport a = ha_transport b \<and>
    (if ha_transport a = TCP then ha_number a = ha_number b else ha_name a = ha_name b)"

datatype platform = Windows | Apple | Other_Platform

text \<open>
  The decimal text of the port: the digits are collected from the last to the first into an array
  of five characters whose first is \<open>0\<close>, and read backwards, at least one of them.
\<close>

fun port_digits :: "nat \<Rightarrow> string" where
  "port_digits port = (if port = 0 then [] else digit_char (port mod 10) # port_digits (port div 10))"

declare port_digits.simps [simp del]

definition port_string :: "u16 \<Rightarrow> string" where
  "port_string number =
    (let portstr = port_digits (unat number) in if portstr = [] then ''0'' else rev portstr)"

definition host_string :: "platform \<Rightarrow> HostAddress \<Rightarrow> string" where
  "host_string os a = (case ha_transport a of
      INPROC \<Rightarrow> ''inproc://'' @ ha_name a
    | IPC \<Rightarrow> (case os of Windows \<Rightarrow> ''ipc://'' | Apple \<Rightarrow> ''ipc:///tmp/'' | Other_Platform \<Rightarrow> ''ipc:///var/run/'')
             @ ha_name a
    | TCP \<Rightarrow> ''tcp://'' @ (if ha_name a \<noteq> [] then ha_name a else ''localhost'') @ '':'' @ port_string (ha_number a)
    | _ \<Rightarrow> ''unknown'')"

definition Extension :: "PATTERN \<Rightarrow> string option" where
  "Extension p = (case p of REQ_REP \<Rightarrow> Some ''.req'' | PUB_SUB \<Rightarrow> Some ''.sub'' | PUSH_PULL \<Rightarrow> Some ''.push'' | _ \<Rightarrow> None)"

definition PortOffset :: "u16 \<Rightarrow> PATTERN \<Rightarrow> u16" where
  "PortOffset base_port p = base_port + word_of_int (pattern_int p)"

text \<open>\<open>HostAddress::Base\<close> holds one address; \<open>derived\<close> is the address of a pattern.\<close>

type_synonym HostAddress_Base = HostAddress

definition derived :: "HostAddress_Base \<Rightarrow> PATTERN \<Rightarrow> HostAddress" where
  "derived base p = (case ha_transport base of
      TCP \<Rightarrow> \<lparr>ha_transport = TCP, ha_number = PortOffset (ha_number base) p, ha_name = ha_name base\<rparr>
    | INPROC \<Rightarrow> (case Extension p of Some sfx \<Rightarrow> base\<lparr>ha_name := ha_name base @ sfx\<rparr> | None \<Rightarrow> host_nil)
    | IPC \<Rightarrow> (case Extension p of Some sfx \<Rightarrow> base\<lparr>ha_name := ha_name base @ sfx\<rparr> | None \<Rightarrow> host_nil)
    | _ \<Rightarrow> host_nil)"

definition DefaultServerID :: string where
  "DefaultServerID = ''telling.v0''"

definition DefaultInProc :: HostAddress_Base where
  "DefaultInProc = host_InProc DefaultServerID"

section \<open>Lemmas\<close>

lemma port_digits_dec_string: "0 < n \<Longrightarrow> port_digits n = rev (dec_string n)"
proof (induction n rule: port_digits.induct)
  case (1 n)
  show ?case
  proof (cases "n < 10")
    case True
    with "1.prems" show ?thesis by (simp add: port_digits.simps)
  next
    case False
    with 1 have "port_digits (n div 10) = rev (dec_string (n div 10))" by (simp add: div_greater_zero_iff)
    with False show ?thesis by (simp add: port_digits.simps [of n] dec_string_step)
  qed
qed

lemma port_string_dec: "port_string n = dec_string (unat n)"
proof (cases "unat n = 0")
  case True
  have "dec_string 0 = ''0''" by code_simp
  with True show ?thesis by (simp add: port_string_def port_digits.simps)
next
  case False
  then show ?thesis by (simp add: port_string_def port_digits_dec_string)
qed

lemma dec_string_inject: "dec_string m = dec_string n \<longleftrightarrow> m = n"
  by (metis dec_value_dec_string)

lemma length_port_digits: "length (port_digits (unat (n :: u16))) \<le> 5"
proof (cases "unat n = 0")
  case True
  then show ?thesis by (simp add: port_digits.simps)
next
  case False
  have "unat n \<le> 65535" using unat_u16_bound [of n] by linarith
  then have "length (dec_string (unat n)) \<le> length (dec_string 65535)" by (rule length_dec_string_mono)
  moreover have "length (dec_string 65535) = 5" by (simp add: dec_string_step)
  ultimately show ?thesis using False by (simp add: port_digits_dec_string)
qed

lemma PortOffset_inject:
  assumes "p \<in> {REQ_REP, PUB_SUB, PUSH_PULL}" "q \<in> {REQ_REP, PUB_SUB, PUSH_PULL}"
  shows "PortOffset n p = PortOffset n q \<longleftrightarrow> p = q"
  using assms by (auto simp: PortOffset_def)

section \<open>Properties\<close>

text \<open>
  The port of a TCP address is written in decimal, in at most five digits, so the five-character
  buffer of the conversion never overflows.
\<close>

theorem port_text_exact:
  "port_string n = dec_string (unat n) \<and> length (port_digits (unat n)) \<le> 5"
  using port_string_dec length_port_digits by blast

text \<open>
  The addresses of the three patterns of a host never collide: for a host with a transport,
  different patterns derive addresses that are unequal and have different texts.
\<close>

theorem derived_addresses_distinct:
  assumes "ha_transport base \<in> {INPROC, IPC, TCP}"
    and "p \<in> {REQ_REP, PUB_SUB, PUSH_PULL}" "q \<in> {REQ_REP, PUB_SUB, PUSH_PULL}" "p \<noteq> q"
  shows "\<not> host_eq (derived base p) (derived base q) \<and>
    host_string os (derived base p) \<noteq> host_string os (derived base q)"
proof (cases "ha_transport base = TCP")
  case True
  then show ?thesis
    using PortOffset_inject [OF assms(2,3)] assms(4)
    by (auto simp: derived_def host_eq_def host_string_def port_string_dec dec_string_inject word_unat_eq_iff [symmetric])
next
  case False
  with assms(1) have "ha_transport base = INPROC \<or> ha_transport base = IPC" by auto
  then show ?thesis
    using assms(2-4) by (auto simp: derived_def host_eq_def host_string_def Extension_def)
qed

theorem derived_addresses_distinct_witness:
  "\<not> host_eq (derived DefaultInProc REQ_REP) (derived DefaultInProc PUB_SUB)"
  using derived_addresses_distinct [of DefaultInProc REQ_REP PUB_SUB Windows]
  by (simp add: DefaultInProc_def host_InProc_def)

text \<open>
  Comparison of TCP addresses ignores the host: addresses of two different hosts on the same port
  compare equal although their texts differ. For the other transports, equal addresses have equal
  texts.
\<close>

theorem host_eq_text:
  "host_eq (host_TCP ''a'' port) (host_TCP ''b'' port) \<and>
    host_string os (host_TCP ''a'' port) \<noteq> host_string os (host_TCP ''b'' port) \<and>
    (host_eq x y \<and> ha_transport x \<noteq> TCP \<longrightarrow> host_string os x = host_string os y)"
  by (auto simp: host_eq_def host_TCP_def host_string_def split: TRANSPORT.splits)

theorem host_eq_text_witness:
  "host_string Apple (host_IPC ''s'') = host_string Apple (host_IPC ''s'')"
  using host_eq_text [of 0 Apple "host_IPC ''s''" "host_IPC ''s''"] by (simp add: host_eq_def host_IPC_def)

end
