(* ===== verification/Io_Queue.thy ===== *)
theory Io_Queue
  imports Msg_Util
begin

text \<open>
  Message queues and queued input and output: \<open>include/telling/io_queue.h\<close>. Every operation of a queue
  runs under its mutex, so operations are atomic steps; the message-passing library (contexts and
  asynchronous operations) is the environment that completes what \<open>ctx.send\<close> and \<open>ctx.recv\<close> begin. The
  message type is a parameter, as in the C++ templates.
\<close>

section \<open>Queues\<close>

type_synonym 'm RecvQueueMtx = "'m list"

definition rq_push :: "'m \<Rightarrow> 'm RecvQueueMtx \<Rightarrow> 'm RecvQueueMtx" where
  "rq_push m q = q @ [m]"

definition rq_pull :: "'m RecvQueueMtx \<Rightarrow> 'm option \<times> 'm RecvQueueMtx" where
  "rq_pull q = (case q of [] \<Rightarrow> (None, q) | m # rest \<Rightarrow> (Some m, rest))"

definition rq_clear :: "'m RecvQueueMtx \<Rightarrow> 'm RecvQueueMtx" where
  "rq_clear q = []"

definition rq_empty :: "'m RecvQueueMtx \<Rightarrow> bool" where
  "rq_empty q \<longleftrightarrow> q = []"

record 'm SendQueueMtx =
  sq_deq :: "'m list"
  sq_busy :: bool

definition sq_new :: "'m SendQueueMtx" where
  "sq_new = \<lparr>sq_deq = [], sq_busy = False\<rparr>"

text \<open>
  \<open>produce\<close> returns whether the message was queued; the second component is the caller's message
  afterwards, which is empty when it was moved into the queue.
\<close>

definition sq_produce :: "'m \<Rightarrow> 'm SendQueueMtx \<Rightarrow> bool \<times> 'm option \<times> 'm SendQueueMtx" where
  "sq_produce m q =
    (if sq_busy q then (True, None, q\<lparr>sq_deq := sq_deq q @ [m]\<rparr>)
     else (False, Some m, q\<lparr>sq_busy := True\<rparr>))"

definition sq_consume :: "'m SendQueueMtx \<Rightarrow> 'm option \<times> 'm SendQueueMtx" where
  "sq_consume q = (case sq_deq q of
      [] \<Rightarrow> (None, q\<lparr>sq_busy := False\<rparr>)
    | m # rest \<Rightarrow> (Some m, q\<lparr>sq_deq := rest\<rparr>))"

definition sq_clear :: "'m SendQueueMtx \<Rightarrow> 'm SendQueueMtx" where
  "sq_clear q = q\<lparr>sq_deq := []\<rparr>"

section \<open>Queued receiving\<close>

text \<open>
  An asynchronous operation that does not exist, is idle, or is under way (for sending, with the
  message it carries).
\<close>

datatype 'm aio = AioNone | AioIdle | AioSending 'm | AioReceiving

record 'm QueuedRecv =
  qr_aio :: "'m aio"
  qr_ctx :: bool
  qr_queue :: "'m RecvQueueMtx"

definition qr_new :: "'m QueuedRecv" where
  "qr_new = \<lparr>qr_aio = AioNone, qr_ctx = False, qr_queue = []\<rparr>"

definition qr_close :: "'m QueuedRecv \<Rightarrow> 'm QueuedRecv" where
  "qr_close s = s\<lparr>qr_aio := AioNone, qr_ctx := False\<rparr>"

definition qr_open :: "'m QueuedRecv \<Rightarrow> 'm QueuedRecv" where
  "qr_open s = (let s = (if qr_aio s \<noteq> AioNone then qr_close s else s)
    in s\<lparr>qr_ctx := True, qr_aio := AioReceiving\<rparr>)"

definition qr_pull :: "'m QueuedRecv \<Rightarrow> 'm option \<times> 'm QueuedRecv" where
  "qr_pull s = (case rq_pull (qr_queue s) of (m, q) \<Rightarrow> (m, s\<lparr>qr_queue := q\<rparr>))"

text \<open>The callback, with the result of the operation: the message received, or an error.\<close>

definition qr_aioReceived :: "nng_error + 'm \<Rightarrow> 'm QueuedRecv \<Rightarrow> 'm QueuedRecv" where
  "qr_aioReceived result s =
    (case result of
      Inl e \<Rightarrow> s\<lparr>qr_aio := AioIdle\<rparr>
    | Inr m \<Rightarrow> s\<lparr>qr_queue := rq_push m (qr_queue s), qr_aio := AioReceiving\<rparr>)"

section \<open>Queued sending\<close>

record 'm QueuedSend =
  qs_aio :: "'m aio"
  qs_ctx :: bool
  qs_queue :: "'m SendQueueMtx"

definition qs_new :: "'m QueuedSend" where
  "qs_new = \<lparr>qs_aio = AioNone, qs_ctx = False, qs_queue = sq_new\<rparr>"

text \<open>
  The callback: after a success the next message is taken from the queue; after any other result
  the operation is left idle.
\<close>

definition qs_aioSent :: "nng_error \<Rightarrow> 'm QueuedSend \<Rightarrow> 'm QueuedSend" where
  "qs_aioSent result s =
    (if result \<noteq> nng_success then s\<lparr>qs_aio := AioIdle\<rparr>
     else (case sq_consume (qs_queue s) of
        (Some m, q) \<Rightarrow> s\<lparr>qs_queue := q, qs_aio := AioSending m\<rparr>
      | (None, q) \<Rightarrow> s\<lparr>qs_queue := q, qs_aio := AioIdle\<rparr>))"

text \<open>Stopping an operation that is under way runs its callback with \<open>nng::error::canceled\<close>.\<close>

definition qs_stop :: "'m QueuedSend \<Rightarrow> 'm QueuedSend" where
  "qs_stop s = (case qs_aio s of AioSending m \<Rightarrow> qs_aioSent nng_canceled s | _ \<Rightarrow> s)"

definition qs_close :: "'m QueuedSend \<Rightarrow> 'm QueuedSend" where
  "qs_close s = (let s = qs_stop s
    in s\<lparr>qs_aio := AioNone, qs_ctx := False, qs_queue := sq_clear (qs_queue s)\<rparr>)"

definition qs_open :: "'m QueuedSend \<Rightarrow> 'm QueuedSend" where
  "qs_open s = (let s = (if qs_aio s \<noteq> AioNone then qs_close s else s)
    in s\<lparr>qs_ctx := True, qs_aio := AioIdle\<rparr>)"

definition qs_send :: "'m \<Rightarrow> 'm QueuedSend \<Rightarrow> unit result \<times> 'm QueuedSend" where
  "qs_send m s =
    (if \<not> qs_ctx s then (Inl (NngExn nng_closed ''QueuedSend is not open.''), s)
     else (case sq_produce m (qs_queue s) of
        (True, _, q) \<Rightarrow> (Inr (), s\<lparr>qs_queue := q\<rparr>)
      | (False, None, q) \<Rightarrow> (Inr (), s\<lparr>qs_queue := q\<rparr>)
      | (False, Some m, q) \<Rightarrow> (Inr (), s\<lparr>qs_queue := q, qs_aio := AioSending m\<rparr>)))"

section \<open>The contract of an outgoing queue\<close>

text \<open>
  A component that serialises outgoing messages over one asynchronous operation: \<open>submit\<close> hands it a
  message and gives back the message to transmit at once, if any; \<open>sent\<close> reports that a transmission
  has succeeded and gives back the next message, if any; \<open>waiting\<close> are the messages it holds back and
  \<open>active\<close> says whether it believes that a transmission is under way.
\<close>

locale outbox =
  fixes submit :: "'m \<Rightarrow> 's \<Rightarrow> 'm option \<times> 's"
    and sent :: "'s \<Rightarrow> 'm option \<times> 's"
    and waiting :: "'s \<Rightarrow> 'm list"
    and active :: "'s \<Rightarrow> bool"
  assumes submit_active: "active s \<Longrightarrow> fst (submit m s) = None \<and> active (snd (submit m s)) \<and>
      waiting (snd (submit m s)) = waiting s @ [m]"
    and submit_idle: "\<not> active s \<Longrightarrow> fst (submit m s) = Some m \<and> active (snd (submit m s)) \<and>
      waiting (snd (submit m s)) = waiting s"
    and sent_none: "waiting s = [] \<Longrightarrow> fst (sent s) = None \<and> \<not> active (snd (sent s)) \<and> waiting (snd (sent s)) = []"
    and sent_some: "waiting s = x # xs \<Longrightarrow> fst (sent s) = Some x \<and> active (snd (sent s)) = active s \<and>
      waiting (snd (sent s)) = xs"
begin

text \<open>
  A link: the outbox, the message under way, the messages transmitted so far and the messages
  submitted so far.
\<close>

definition good :: "'s \<times> 'm option \<times> 'm list \<times> 'm list \<Rightarrow> bool" where
  "good L = (case L of (s, flight, wire, given) \<Rightarrow>
    (active s \<longleftrightarrow> flight \<noteq> None) \<and> (flight = None \<longrightarrow> waiting s = []) \<and>
    given = wire @ (case flight of None \<Rightarrow> [] | Some m \<Rightarrow> [m]) @ waiting s)"

definition do_submit :: "'m \<Rightarrow> 's \<times> 'm option \<times> 'm list \<times> 'm list \<Rightarrow> 's \<times> 'm option \<times> 'm list \<times> 'm list" where
  "do_submit m L = (case L of (s, flight, wire, given) \<Rightarrow>
    (case submit m s of (out, s') \<Rightarrow>
      (s', (case out of None \<Rightarrow> flight | Some x \<Rightarrow> Some x), wire, given @ [m])))"

definition do_sent :: "'s \<times> 'm option \<times> 'm list \<times> 'm list \<Rightarrow> 's \<times> 'm option \<times> 'm list \<times> 'm list" where
  "do_sent L = (case L of (s, flight, wire, given) \<Rightarrow>
    (case flight of
      None \<Rightarrow> L
    | Some x \<Rightarrow> (case sent s of (out, s') \<Rightarrow> (s', out, wire @ [x], given))))"

lemma good_submit: "good L \<Longrightarrow> good (do_submit m L)"
  using submit_active [of "fst L" m] submit_idle [of "fst L" m]
  by (cases L; cases "active (fst L)") (auto simp: good_def do_submit_def split: prod.splits option.splits)

lemma good_sent: "good L \<Longrightarrow> good (do_sent L)"
proof -
  obtain s flight wire given where L: "L = (s, flight, wire, given)" by (cases L)
  assume "good L"
  then show ?thesis
    using sent_none [of s] sent_some [of s] unfolding L
    by (cases "waiting s") (auto simp: good_def do_sent_def split: prod.splits option.splits)
qed

text \<open>A message never replaces one that is under way.\<close>

lemma submit_keeps_flight: "good (s, Some x, wire, given) \<Longrightarrow> fst (submit m s) = None"
  using submit_active [of s m] by (simp add: good_def)

text \<open>When every transmission succeeds, all messages that were submitted are transmitted, in order.\<close>

lemma drained:
  "good (s, flight, wire, given) \<Longrightarrow> n = length given - length wire \<Longrightarrow>
    \<exists>s'. (do_sent ^^ n) (s, flight, wire, given) = (s', None, given, given) \<and> \<not> active s'"
proof (induction n arbitrary: s flight wire)
  case 0
  then show ?case by (auto simp: good_def split: option.splits)
next
  case (Suc n)
  then obtain x where f: "flight = Some x" by (auto simp: good_def split: option.splits)
  obtain out s' where sent: "sent s = (out, s')" by (cases "sent s")
  have step: "do_sent (s, flight, wire, given) = (s', out, wire @ [x], given)"
    by (simp add: do_sent_def f sent)
  with good_sent [OF Suc.prems(1)] have "good (s', out, wire @ [x], given)" by simp
  moreover have "n = length given - length (wire @ [x])" using Suc.prems(2) by simp
  ultimately have "\<exists>s''. (do_sent ^^ n) (s', out, wire @ [x], given) = (s'', None, given, given) \<and> \<not> active s''"
    by (rule Suc.IH)
  with step show ?case by (simp add: funpow_Suc_right del: funpow.simps)
qed

end

text \<open>The send queue of this file fulfils the contract.\<close>

lemma sq_consume_cases:
  "sq_deq q = [] \<Longrightarrow> sq_consume q = (None, q\<lparr>sq_busy := False\<rparr>)"
  "sq_deq q = m # rest \<Longrightarrow> sq_consume q = (Some m, q\<lparr>sq_deq := rest\<rparr>)"
  by (simp_all add: sq_consume_def)

interpretation sq: outbox "\<lambda>m q. (fst (snd (sq_produce m q)), snd (snd (sq_produce m q)))" sq_consume sq_deq sq_busy
  by unfold_locales (simp_all add: sq_produce_def sq_consume_cases)

section \<open>Queued sending over time\<close>

text \<open>
  A \<open>QueuedSend\<close> object with the messages its link has transmitted and the messages it has accepted. The
  steps are the public operations and the completions of the environment.
\<close>

record 'm qs_link =
  ql_state :: "'m QueuedSend"
  ql_wire :: "'m list"
  ql_given :: "'m list"

inductive qs_step :: "'m qs_link \<Rightarrow> 'm qs_link \<Rightarrow> bool" where
  send: "qs_send m (ql_state l) = (Inr (), s') \<Longrightarrow> qs_step l (l\<lparr>ql_state := s', ql_given := ql_given l @ [m]\<rparr>)"
| sent: "qs_aio (ql_state l) = AioSending m \<Longrightarrow>
    qs_step l (l\<lparr>ql_state := qs_aioSent nng_success (ql_state l), ql_wire := ql_wire l @ [m]\<rparr>)"
| failed: "qs_aio (ql_state l) = AioSending m \<Longrightarrow> e \<noteq> nng_success \<Longrightarrow>
    qs_step l (l\<lparr>ql_state := qs_aioSent e (ql_state l)\<rparr>)"
| opened: "qs_step l (l\<lparr>ql_state := qs_open (ql_state l)\<rparr>)"
| closed: "qs_step l (l\<lparr>ql_state := qs_close (ql_state l)\<rparr>)"

definition qs_start :: "'m qs_link" where
  "qs_start = \<lparr>ql_state = qs_new, ql_wire = [], ql_given = []\<rparr>"

fun qs_flight :: "'m aio \<Rightarrow> 'm list" where
  "qs_flight (AioSending m) = [m]"
| "qs_flight _ = []"

definition qs_inv :: "'m qs_link \<Rightarrow> bool" where
  "qs_inv l = (let s = ql_state l in
    (qs_ctx s \<longleftrightarrow> qs_aio s \<noteq> AioNone) \<and> qs_aio s \<noteq> AioReceiving \<and>
    (\<not> sq_busy (qs_queue s) \<longrightarrow> qs_flight (qs_aio s) = [] \<and> sq_deq (qs_queue s) = []) \<and>
    subseq (ql_wire l @ qs_flight (qs_aio s) @ sq_deq (qs_queue s)) (ql_given l))"

lemmas qs_simps = qs_send_def qs_aioSent_def qs_open_def qs_close_def qs_stop_def sq_produce_def sq_consume_def sq_clear_def

lemma subseq_drop_middle: "subseq (a @ b @ c) g \<Longrightarrow> subseq (a @ c) g"
  by (erule subseq_order.trans [rotated]) (simp add: subseq_append' subseq_drop_many)

lemma subseq_drop_end: "subseq (a @ b) g \<Longrightarrow> subseq a g"
  by (erule subseq_order.trans [rotated]) (simp add: prefix_imp_subseq)

lemma subseq_snoc: "subseq (a @ b) g \<Longrightarrow> subseq (a @ b @ [m]) (g @ [m])"
  using subseq_append [of "a @ b" "[m]" g] by simp

lemma qs_inv_step: "qs_step l l' \<Longrightarrow> qs_inv l \<Longrightarrow> qs_inv l'"
proof (induction rule: qs_step.induct)
  case (send m l s')
  then show ?case
    using subseq_snoc [of "ql_wire l" "sq_deq (qs_queue (ql_state l))" "ql_given l" m]
      subseq_snoc [of "ql_wire l" "_ # sq_deq (qs_queue (ql_state l))" "ql_given l" m]
      subseq_snoc [of "ql_wire l" "[]" "ql_given l" m]
    by (cases "qs_aio (ql_state l)") (auto simp: qs_inv_def Let_def qs_simps split: if_splits)
next
  case (sent l m)
  then show ?case
    by (auto simp: qs_inv_def Let_def qs_simps split: list.splits)
next
  case (failed l m e)
  then show ?case
    using subseq_drop_middle [of "ql_wire l" "[m]" "sq_deq (qs_queue (ql_state l))" "ql_given l"]
    by (auto simp: qs_inv_def Let_def qs_simps)
next
  case (opened l)
  then show ?case
    using subseq_drop_end [of "ql_wire l"] by (auto simp: qs_inv_def Let_def qs_simps split: aio.splits)
next
  case (closed l)
  then show ?case
    using subseq_drop_end [of "ql_wire l"] by (auto simp: qs_inv_def Let_def qs_simps split: aio.splits)
qed

lemma qs_inv_start: "qs_inv qs_start"
  by (simp add: qs_inv_def qs_start_def qs_new_def sq_new_def)

lemma qs_reachable_inv: "qs_step\<^sup>*\<^sup>* l l' \<Longrightarrow> qs_inv l \<Longrightarrow> qs_inv l'"
  by (induction rule: rtranclp_induct) (auto intro: qs_inv_step)

text \<open>An open object that has seen no error is a link of the outgoing queue's contract.\<close>

definition qs_view :: "'m qs_link \<Rightarrow> 'm SendQueueMtx \<times> 'm option \<times> 'm list \<times> 'm list" where
  "qs_view l = (qs_queue (ql_state l),
    (case qs_aio (ql_state l) of AioSending m \<Rightarrow> Some m | _ \<Rightarrow> None), ql_wire l, ql_given l)"

lemma qs_send_refines:
  assumes "qs_send m (ql_state l) = (Inr (), s')" "sq.good (qs_view l)" "qs_ctx (ql_state l)"
  shows "qs_view (l\<lparr>ql_state := s', ql_given := ql_given l @ [m]\<rparr>) = sq.do_submit m (qs_view l)"
  using assms unfolding qs_view_def sq.do_submit_def sq.good_def
  by (auto simp: qs_simps split: if_splits aio.splits)

lemma qs_sent_refines:
  assumes "qs_aio (ql_state l) = AioSending m"
  shows "qs_view (l\<lparr>ql_state := qs_aioSent nng_success (ql_state l), ql_wire := ql_wire l @ [m]\<rparr>) = sq.do_sent (qs_view l)"
  using assms unfolding qs_view_def sq.do_sent_def by (auto simp: qs_simps split: list.splits)

text \<open>
  A history with the messages that were accepted and are not going to be transmitted: those whose
  transmission failed, and those that were under way or queued when the object was closed.
\<close>

inductive qs_history :: "'m qs_link \<Rightarrow> 'm list \<Rightarrow> bool" where
  start: "qs_history qs_start []"
| send: "qs_history l lost \<Longrightarrow> qs_send m (ql_state l) = (Inr (), s') \<Longrightarrow>
    qs_history (l\<lparr>ql_state := s', ql_given := ql_given l @ [m]\<rparr>) lost"
| sent: "qs_history l lost \<Longrightarrow> qs_aio (ql_state l) = AioSending m \<Longrightarrow>
    qs_history (l\<lparr>ql_state := qs_aioSent nng_success (ql_state l), ql_wire := ql_wire l @ [m]\<rparr>) lost"
| failed: "qs_history l lost \<Longrightarrow> qs_aio (ql_state l) = AioSending m \<Longrightarrow> e \<noteq> nng_success \<Longrightarrow>
    qs_history (l\<lparr>ql_state := qs_aioSent e (ql_state l)\<rparr>) (lost @ [m])"
| reopened: "qs_history l lost \<Longrightarrow> qs_aio (ql_state l) \<noteq> AioNone \<Longrightarrow>
    qs_history (l\<lparr>ql_state := qs_open (ql_state l)\<rparr>) (lost @ qs_flight (qs_aio (ql_state l)) @ sq_deq (qs_queue (ql_state l)))"
| opened: "qs_history l lost \<Longrightarrow> qs_aio (ql_state l) = AioNone \<Longrightarrow> qs_history (l\<lparr>ql_state := qs_open (ql_state l)\<rparr>) lost"
| closed: "qs_history l lost \<Longrightarrow>
    qs_history (l\<lparr>ql_state := qs_close (ql_state l)\<rparr>) (lost @ qs_flight (qs_aio (ql_state l)) @ sq_deq (qs_queue (ql_state l)))"

lemma qs_history_steps: "qs_history l lost \<Longrightarrow> qs_step\<^sup>*\<^sup>* qs_start l"
  by (induction rule: qs_history.induct) (auto intro: qs_step.intros rtranclp.rtrancl_into_rtrancl)

lemma qs_steps_history: "qs_step\<^sup>*\<^sup>* qs_start l \<Longrightarrow> \<exists>lost. qs_history l lost"
proof (induction rule: rtranclp_induct)
  case (step l l')
  then obtain lost where h: "qs_history l lost" by blast
  from step.hyps(2) h show ?case
  proof cases
    case opened
    with h show ?thesis by (cases "qs_aio (ql_state l) = AioNone") (blast intro: qs_history.intros)+
  qed (blast intro: qs_history.intros)+
qed (blast intro: qs_history.start)

lemma shuffles_append_left: "xs \<in> shuffles a b \<Longrightarrow> xs @ ys \<in> shuffles (a @ ys) b"
proof (induction a b arbitrary: xs rule: shuffles.induct)
  case (1 b)
  then show ?case by (induction b arbitrary: xs) (auto simp: Cons_in_shuffles_iff)
next
  case (3 x a y b)
  then show ?case by (auto simp: Cons_in_shuffles_iff)
qed simp

lemma shuffles_append_right: "xs \<in> shuffles a b \<Longrightarrow> xs @ ys \<in> shuffles a (b @ ys)"
  using shuffles_append_left [of xs b a ys] by (simp add: shuffles_commutes)

definition qs_accounts :: "'m qs_link \<Rightarrow> 'm list \<Rightarrow> bool" where
  "qs_accounts l lost \<longleftrightarrow> (\<exists>settled. ql_given l = settled @ qs_flight (qs_aio (ql_state l)) @ sq_deq (qs_queue (ql_state l)) \<and>
    settled \<in> shuffles (ql_wire l) lost)"

lemma qs_accountsI:
  "ql_given l = settled @ qs_flight (qs_aio (ql_state l)) @ sq_deq (qs_queue (ql_state l)) \<Longrightarrow> settled \<in> shuffles (ql_wire l) lost \<Longrightarrow> qs_accounts l lost"
  by (auto simp: qs_accounts_def)

lemma qs_history_accounts:
  assumes "qs_history l lost"
  shows "qs_accounts l lost"
  using assms
proof (induction rule: qs_history.induct)
  case start
  show ?case by (simp add: qs_accounts_def qs_start_def qs_new_def sq_new_def)
next
  case (send l lost m s')
  have "qs_inv l" using qs_reachable_inv [OF qs_history_steps [OF send(1)] qs_inv_start] .
  with send show ?case by (auto simp: qs_accounts_def qs_inv_def Let_def qs_simps split: if_splits)
next
  case (sent l lost m)
  then obtain x where x: "ql_given l = x @ m # sq_deq (qs_queue (ql_state l))" "x @ [m] \<in> shuffles (ql_wire l @ [m]) lost"
    by (auto simp: qs_accounts_def shuffles_append_left)
  then show ?case by (intro qs_accountsI [of _ "x @ [m]"]) (simp_all add: qs_simps split: list.split)
next
  case (failed l lost m e)
  then obtain x where "ql_given l = x @ m # sq_deq (qs_queue (ql_state l))" "x @ [m] \<in> shuffles (ql_wire l) (lost @ [m])"
    by (auto simp: qs_accounts_def shuffles_append_right)
  with failed(3) show ?case by (intro qs_accountsI [of _ "x @ [m]"]) (simp_all add: qs_simps)
next
  case (reopened l lost)
  then have "ql_given l \<in> shuffles (ql_wire l) (lost @ qs_flight (qs_aio (ql_state l)) @ sq_deq (qs_queue (ql_state l)))"
    by (auto simp: qs_accounts_def shuffles_append_right)
  with reopened(2) show ?case by (intro qs_accountsI [of _ "ql_given l"]) (simp_all add: qs_simps Let_def split: aio.split)
next
  case (opened l lost)
  then show ?case by (simp add: qs_accounts_def qs_simps Let_def)
next
  case (closed l lost)
  then have "ql_given l \<in> shuffles (ql_wire l) (lost @ qs_flight (qs_aio (ql_state l)) @ sq_deq (qs_queue (ql_state l)))"
    by (auto simp: qs_accounts_def shuffles_append_right)
  then show ?case by (intro qs_accountsI [of _ "ql_given l"]) (simp_all add: qs_simps Let_def split: aio.split)
qed

section \<open>Properties\<close>

text \<open>
  C12. Queued sending accounts for every message and keeps their order: in every state that sends, completions
  with any result, and closing and reopening can reach, the accepted messages are, first, an interleaving, each in its order, of those
  transmitted and those lost to a failed transmission or to closing, then the one that is
  under way, and then those that are queued, in order. Nothing is dropped, duplicated or overtaken; and a message that is accepted while
  another is under way is queued and leaves that one alone.
\<close>

theorem queued_send_in_order:
  assumes "qs_history l lost"
  shows "(\<exists>settled. ql_given l = settled @ qs_flight (qs_aio (ql_state l)) @ sq_deq (qs_queue (ql_state l)) \<and>
      settled \<in> shuffles (ql_wire l) lost) \<and>
    (qs_aio (ql_state l) = AioSending x \<longrightarrow> fst (qs_send m (ql_state l)) = Inr () \<and>
      qs_aio (snd (qs_send m (ql_state l))) = AioSending x \<and> sq_deq (qs_queue (snd (qs_send m (ql_state l)))) = sq_deq (qs_queue (ql_state l)) @ [m])"
proof -
  have "qs_inv l" using qs_reachable_inv [OF qs_history_steps [OF assms] qs_inv_start] .
  then have "qs_aio (ql_state l) = AioSending x \<longrightarrow> fst (qs_send m (ql_state l)) = Inr () \<and>
      qs_aio (snd (qs_send m (ql_state l))) = AioSending x \<and> sq_deq (qs_queue (snd (qs_send m (ql_state l)))) = sq_deq (qs_queue (ql_state l)) @ [m]"
    by (auto simp: qs_inv_def Let_def qs_simps)
  with qs_history_accounts [OF assms] show ?thesis by (simp add: qs_accounts_def)
qed

text \<open>Three messages are accepted; the first is transmitted, the second fails, and the object is opened again, which drops the third; it stays busy, and a fourth is queued.\<close>

definition example_link :: "nat qs_link" where
  "example_link = \<lparr>ql_state = \<lparr>qs_aio = AioIdle, qs_ctx = True, qs_queue = \<lparr>sq_deq = [4], sq_busy = True\<rparr>\<rparr>, ql_wire = [1], ql_given = [1, 2, 3, 4]\<rparr>"

lemma example_link_history: "qs_history example_link [2, 3]"
proof -
  let ?l = "\<lambda>aio deq busy wire given. \<lparr>ql_state = \<lparr>qs_aio = aio, qs_ctx = True, qs_queue = \<lparr>sq_deq = deq, sq_busy = busy\<rparr>\<rparr>, ql_wire = wire, ql_given = given\<rparr> :: nat qs_link"
  note start = qs_history.opened [OF qs_history.start [where 'm = nat]]
  have "qs_history (?l AioIdle [] False [] []) []" using start by (simp add: qs_start_def qs_new_def sq_new_def qs_open_def)
  from qs_history.send [OF this, of 1] have "qs_history (?l (AioSending 1) [] True [] [1]) []" by (simp add: qs_simps)
  from qs_history.send [OF this, of 2] have "qs_history (?l (AioSending 1) [2] True [] [1, 2]) []" by (simp add: qs_simps)
  from qs_history.send [OF this, of 3] have "qs_history (?l (AioSending 1) [2, 3] True [] [1, 2, 3]) []" by (simp add: qs_simps)
  from qs_history.sent [OF this] have "qs_history (?l (AioSending 2) [3] True [1] [1, 2, 3]) []" by (simp add: qs_simps)
  from qs_history.failed [OF this, of 2 nng_timedout] have "qs_history (?l AioIdle [3] True [1] [1, 2, 3]) [2]" by (simp add: qs_simps)
  from qs_history.reopened [OF this] have "qs_history (?l AioIdle [] True [1] [1, 2, 3]) [2, 3]" by (simp add: qs_simps)
  from qs_history.send [OF this, of 4] show ?thesis by (simp add: qs_simps example_link_def)
qed

theorem queued_send_in_order_witness:
  "qs_history example_link [2, 3] \<and> (\<exists>settled. [1, 2, 3, 4] = settled @ [4] \<and> settled \<in> shuffles [1] [2, 3 :: nat])"
  using queued_send_in_order [OF example_link_history, of 0 0] example_link_history by (auto simp: example_link_def)

text \<open>A session without errors: an opened object that accepts messages and whose transmissions succeed.\<close>

inductive qs_calm :: "'m qs_link \<Rightarrow> bool" where
  opened: "qs_calm (qs_start\<lparr>ql_state := qs_open qs_new\<rparr>)"
| send: "qs_calm l \<Longrightarrow> qs_send m (ql_state l) = (Inr (), s') \<Longrightarrow> qs_calm (l\<lparr>ql_state := s', ql_given := ql_given l @ [m]\<rparr>)"
| sent: "qs_calm l \<Longrightarrow> qs_aio (ql_state l) = AioSending m \<Longrightarrow>
    qs_calm (l\<lparr>ql_state := qs_aioSent nng_success (ql_state l), ql_wire := ql_wire l @ [m]\<rparr>)"

lemma qs_calm_good: "qs_calm l \<Longrightarrow> sq.good (qs_view l) \<and> qs_ctx (ql_state l)"
proof (induction rule: qs_calm.induct)
  case opened
  show ?case unfolding qs_view_def sq.good_def by (simp add: qs_start_def qs_open_def qs_new_def sq_new_def)
next
  case (send l m s')
  then have "sq.good (qs_view (l\<lparr>ql_state := s', ql_given := ql_given l @ [m]\<rparr>))"
    by (simp only: qs_send_refines sq.good_submit)
  moreover have "qs_ctx s'" using send by (auto simp: qs_simps split: if_splits)
  ultimately show ?case by simp
next
  case (sent l m)
  then have "sq.good (qs_view (l\<lparr>ql_state := qs_aioSent nng_success (ql_state l), ql_wire := ql_wire l @ [m]\<rparr>))"
    by (simp only: qs_sent_refines sq.good_sent)
  moreover have "qs_ctx (qs_aioSent nng_success (ql_state l))" using sent by (simp add: qs_simps split: list.splits)
  ultimately show ?case by simp
qed

definition qs_complete :: "'m qs_link \<Rightarrow> 'm qs_link" where
  "qs_complete l = (case qs_aio (ql_state l) of
      AioSending m \<Rightarrow> l\<lparr>ql_state := qs_aioSent nng_success (ql_state l), ql_wire := ql_wire l @ [m]\<rparr>
    | _ \<Rightarrow> l)"

lemma qs_complete_view: "qs_view ((qs_complete ^^ k) l) = (sq.do_sent ^^ k) (qs_view l)"
proof (induction k)
  case (Suc k)
  have "qs_view (qs_complete l) = sq.do_sent (qs_view l)" for l :: "'a qs_link"
    using qs_sent_refines [of l]
    by (cases "qs_aio (ql_state l)") (simp_all add: qs_complete_def qs_view_def sq.do_sent_def)
  with Suc show ?case by simp
qed simp

text \<open>
  Without errors nothing is lost: in a session that has seen no error, what was accepted is what
  was transmitted, what is under way and what is queued; and as many successful completions as there
  are messages outstanding transmit them all in order and leave the object idle.
\<close>

theorem queued_send_drains:
  assumes "qs_calm l" "n = length (ql_given l) - length (ql_wire l)"
  shows "ql_given l = ql_wire l @ qs_flight (qs_aio (ql_state l)) @ sq_deq (qs_queue (ql_state l)) \<and>
    ql_wire ((qs_complete ^^ n) l) = ql_given l \<and> \<not> sq_busy (qs_queue (ql_state ((qs_complete ^^ n) l)))"
proof -
  have good: "sq.good (qs_view l)" using qs_calm_good [OF assms(1)] ..
  then obtain q' where "(sq.do_sent ^^ n) (qs_view l) = (q', None, ql_given l, ql_given l)" "\<not> sq_busy q'"
    using sq.drained [OF _ assms(2)] unfolding qs_view_def by blast
  then have "ql_wire ((qs_complete ^^ n) l) = ql_given l \<and> \<not> sq_busy (qs_queue (ql_state ((qs_complete ^^ n) l)))"
    using qs_complete_view [of n l] by (simp add: qs_view_def [of "(qs_complete ^^ n) l"])
  moreover have "ql_given l = ql_wire l @ qs_flight (qs_aio (ql_state l)) @ sq_deq (qs_queue (ql_state l))"
    using good unfolding qs_view_def sq.good_def by (cases "qs_aio (ql_state l)") simp_all
  ultimately show ?thesis by blast
qed

theorem queued_send_drains_witness:
  "ql_wire (qs_complete (\<lparr>ql_state = snd (qs_send 7 (qs_open qs_new)), ql_wire = [], ql_given = [7]\<rparr> :: nat qs_link)) = [7]"
proof -
  define l :: "nat qs_link" where "l = \<lparr>ql_state = snd (qs_send 7 (qs_open qs_new)), ql_wire = [], ql_given = [7]\<rparr>"
  have "qs_send 7 (qs_open qs_new) = (Inr (), snd (qs_send (7 :: nat) (qs_open qs_new)))"
    by (simp add: qs_simps qs_new_def sq_new_def)
  with qs_calm.send [OF qs_calm.opened, of "7 :: nat"] have "qs_calm l"
    by (simp add: qs_start_def l_def)
  moreover have "1 = length (ql_given l) - length (ql_wire l)" by (simp add: l_def)
  ultimately have "ql_wire ((qs_complete ^^ 1) l) = ql_given l" using queued_send_drains by blast
  then show ?thesis by (simp add: l_def)
qed

text \<open>
  After one failed transmission the object accepts messages but never transmits again, not even
  after it is closed and opened: the queue still believes that a transmission is under way.
\<close>

theorem queued_send_stuck_after_error:
  assumes "qs_aio s = AioSending m" "qs_ctx s" "sq_busy (qs_queue s)" "e \<noteq> nng_success"
  defines "s1 \<equiv> qs_aioSent e s"
  shows "qs_aio (foldl (\<lambda>s x. snd (qs_send x s)) s1 xs) = AioIdle \<and>
    qs_aio (foldl (\<lambda>s x. snd (qs_send x s)) (qs_open (qs_close s1)) xs) = AioIdle \<and>
    sq_deq (qs_queue (foldl (\<lambda>s x. snd (qs_send x s)) (qs_open (qs_close s1)) xs)) = xs"
proof -
  have run: "qs_ctx t \<Longrightarrow> qs_aio t = AioIdle \<Longrightarrow> sq_busy (qs_queue t) \<Longrightarrow>
      qs_aio (foldl (\<lambda>s x. snd (qs_send x s)) t xs) = AioIdle \<and>
      sq_deq (qs_queue (foldl (\<lambda>s x. snd (qs_send x s)) t xs)) = sq_deq (qs_queue t) @ xs" for t :: "'a QueuedSend"
    by (induction xs arbitrary: t) (simp_all add: qs_send_def sq_produce_def)
  have "qs_ctx s1 \<and> qs_aio s1 = AioIdle \<and> sq_busy (qs_queue s1)"
    using assms by (simp add: qs_aioSent_def)
  moreover from this have "qs_ctx (qs_open (qs_close s1)) \<and> qs_aio (qs_open (qs_close s1)) = AioIdle \<and>
      sq_busy (qs_queue (qs_open (qs_close s1))) \<and> sq_deq (qs_queue (qs_open (qs_close s1))) = []"
    by (simp add: qs_open_def qs_close_def qs_stop_def sq_clear_def)
  ultimately show ?thesis using run by simp
qed

theorem queued_send_stuck_after_error_witness:
  "qs_aio (snd (qs_send 2 (qs_aioSent nng_timedout (snd (qs_send (1 :: nat) (qs_open qs_new)))))) = AioIdle"
  using queued_send_stuck_after_error [of "snd (qs_send 1 (qs_open qs_new))" "1 :: nat" nng_timedout "[2]"]
  by (simp add: qs_simps qs_new_def sq_new_def)

datatype 'm qr_event = Arrive 'm | Pull

fun qr_run :: "'m qr_event list \<Rightarrow> 'm QueuedRecv \<Rightarrow> 'm list \<times> 'm QueuedRecv" where
  "qr_run [] s = ([], s)"
| "qr_run (Arrive m # es) s = qr_run es (qr_aioReceived (Inr m) s)"
| "qr_run (Pull # es) s =
    (case qr_pull s of (r, s') \<Rightarrow> (case qr_run es s' of (ms, s'') \<Rightarrow> ((case r of None \<Rightarrow> ms | Some m \<Rightarrow> m # ms), s'')))"

fun arrivals :: "'m qr_event list \<Rightarrow> 'm list" where
  "arrivals [] = []"
| "arrivals (Arrive m # es) = m # arrivals es"
| "arrivals (Pull # es) = arrivals es"

lemma qr_run_queue: "qr_run es s = (pulled, s') \<Longrightarrow> pulled @ qr_queue s' = qr_queue s @ arrivals es"
  by (induction es s arbitrary: pulled s' rule: qr_run.induct)
    (auto simp: qr_aioReceived_def rq_push_def qr_pull_def rq_pull_def split: prod.splits list.splits option.splits)


text \<open>
  Queued receiving is a first-in first-out queue: whatever the order in which messages arrive and
  are pulled, the messages pulled followed by those still queued are those that arrived, in order, and
  a pull fails exactly when everything that arrived has been pulled.
\<close>

theorem queued_recv_fifo:
  assumes "qr_run es (qr_open qr_new) = (pulled, s)"
  shows "pulled @ qr_queue s = arrivals es \<and> (fst (qr_pull s) = None \<longleftrightarrow> pulled = arrivals es)"
  using qr_run_queue [OF assms]
  by (auto simp: qr_open_def qr_new_def qr_pull_def rq_pull_def split: list.splits)

theorem queued_recv_fifo_witness:
  "fst (qr_run [Arrive 1, Pull, Arrive 2, Arrive 3, Pull] (qr_open qr_new)) = [1 :: nat, 2]"
proof -
  obtain p s where r: "qr_run [Arrive 1, Pull, Arrive 2, Arrive 3, Pull] (qr_open qr_new) = (p, s :: nat QueuedRecv)"
    by fastforce
  then have "length (qr_queue s) = 1"
    by (auto simp: qr_open_def qr_new_def qr_pull_def rq_pull_def qr_aioReceived_def rq_push_def)
  with queued_recv_fifo [OF r] r show ?thesis by (auto simp: length_Suc_conv)
qed

end
