(* ===== verification/Async_Loop.thy ===== *)
theory Async_Loop
  imports Io_Queue
begin

text \<open>
  Asynchronous handlers and the loops that drive them: \<open>include/telling/async.h\<close>,
  \<open>include/telling/async_loop.h\<close> and \<open>include/telling/async_queue.h\<close>. A handler is user code: a record of
  functions on its own state. A loop holds its handler weakly, so the handler may be gone; that is
  \<open>None\<close>, and losing it is a step of the environment. The message-passing library completes the
  operations that \<open>ctx.send\<close> and \<open>ctx.recv\<close> begin by running the callbacks.
\<close>

section \<open>Handlers\<close>

record AsyncError =
  ae_status :: nng_error
  ae_msg :: string

definition async_error_of :: "nng_error \<Rightarrow> AsyncError" where
  "async_error_of e = \<lparr>ae_status = e, ae_msg = []\<rparr>"

text \<open>The text of an error; \<open>to_string\<close> is \<open>nng::to_string\<close>.\<close>

definition async_error_what :: "(nng_error \<Rightarrow> string) \<Rightarrow> AsyncError \<Rightarrow> string" where
  "async_error_what to_string e =
    (if ae_msg e \<noteq> [] then ae_msg e else if ae_status e \<noteq> nng_success then to_string (ae_status e) else ''success'')"

text \<open>
  \<open>SendPrompt\<close>: a destination for a message, which may be absent. Invoking it with a message assigns
  the destination and reports whether the message was moved.
\<close>

definition send_prompt :: "bool \<Rightarrow> 'm \<Rightarrow> 'm option \<Rightarrow> 'm option \<times> 'm option" where
  "send_prompt has_dest m dest = (if has_dest then (Some m, None) else (dest, Some m))"

record ('h, 'm) RecvHandler =
  ar_start :: "'h \<Rightarrow> unit result \<times> 'h"
  ar_stop :: "AsyncError \<Rightarrow> 'h \<Rightarrow> 'h"
  ar_error :: "AsyncError \<Rightarrow> 'h \<Rightarrow> 'h"
  ar_recv :: "'m \<Rightarrow> 'h \<Rightarrow> 'h"

text \<open>
  \<open>as_prep\<close> gives the caller's message after the call (it may have been taken or replaced) or an
  exception; \<open>as_sent\<close> and \<open>as_error\<close> give the message they put into the prompt of their tag.
\<close>

record ('h, 'm) SendHandler =
  as_start :: "'h \<Rightarrow> unit result \<times> 'h"
  as_stop :: "AsyncError \<Rightarrow> 'h \<Rightarrow> 'h"
  as_error :: "AsyncError \<Rightarrow> 'h \<Rightarrow> 'm option \<times> 'h"
  as_prep :: "'m \<Rightarrow> 'h \<Rightarrow> ('m option) result \<times> 'h"
  as_sent :: "'h \<Rightarrow> 'm option \<times> 'h"

section \<open>The receiving loop\<close>

record ('h, 'm) RecvLoop =
  rl_handler :: "'h option"
  rl_aio :: "'m aio"

definition recv_loop_new :: "('h, 'm) RecvLoop" where
  "recv_loop_new = \<lparr>rl_handler = None, rl_aio = AioIdle\<rparr>"

definition recv_callback :: "('h, 'm) RecvHandler \<Rightarrow> nng_error + 'm \<Rightarrow> ('h, 'm) RecvLoop \<Rightarrow> ('h, 'm) RecvLoop" where
  "recv_callback H aioResult s =
    (case rl_handler s of
      None \<Rightarrow> s\<lparr>rl_aio := AioIdle\<rparr>
    | Some h \<Rightarrow>
        (case aioResult of
          Inr m \<Rightarrow> s\<lparr>rl_handler := Some (ar_recv H m h), rl_aio := AioReceiving\<rparr>
        | Inl e \<Rightarrow>
            if e = nng_timedout
            then s\<lparr>rl_handler := Some (ar_error H (async_error_of e) h), rl_aio := AioReceiving\<rparr>
            else s\<lparr>rl_handler := Some (ar_stop H (async_error_of e) (ar_error H (async_error_of e) h)),
                   rl_aio := AioIdle\<rparr>))"

definition recv_start ::
    "('h, 'm) RecvHandler \<Rightarrow> 'h option \<Rightarrow> ('h, 'm) RecvLoop \<Rightarrow> unit result \<times> ('h, 'm) RecvLoop" where
  "recv_start H new_handler s =
    (if rl_handler s \<noteq> None then (Inl (NngExn nng_busy ''Receive start: already started''), s)
     else (case new_handler of
        None \<Rightarrow> (Inl (NngExn nng_closed ''Receive start: handler has expired''), s)
      | Some h \<Rightarrow>
          (case ar_start H h of
            (Inl e, h) \<Rightarrow> (Inl e, s\<lparr>rl_handler := Some h\<rparr>)
          | (Inr _, h) \<Rightarrow> (Inr (), s\<lparr>rl_handler := Some h, rl_aio := AioReceiving\<rparr>))))"

text \<open>Stopping an operation that is under way runs its callback with \<open>nng::error::canceled\<close> first.\<close>

definition recv_stop :: "('h, 'm) RecvHandler \<Rightarrow> ('h, 'm) RecvLoop \<Rightarrow> ('h, 'm) RecvLoop" where
  "recv_stop H s =
    (let s = (if rl_aio s = AioReceiving then recv_callback H (Inl nng_canceled) s else s)
     in case rl_handler s of
          None \<Rightarrow> s
        | Some h \<Rightarrow> s\<lparr>rl_handler := Some (ar_stop H (async_error_of nng_success) h)\<rparr>)"

section \<open>The sending loop\<close>

record ('h, 'm) SendLoop =
  sl_handler :: "'h option"
  sl_aio :: "'m aio"

definition send_loop_new :: "('h, 'm) SendLoop" where
  "send_loop_new = \<lparr>sl_handler = None, sl_aio = AioIdle\<rparr>"

definition send_next :: "'m option \<Rightarrow> ('h, 'm) SendLoop \<Rightarrow> ('h, 'm) SendLoop" where
  "send_next nextMsg s = s\<lparr>sl_aio := (case nextMsg of None \<Rightarrow> AioIdle | Some m \<Rightarrow> AioSending m)\<rparr>"

definition send_callback :: "('h, 'm) SendHandler \<Rightarrow> nng_error \<Rightarrow> ('h, 'm) SendLoop \<Rightarrow> ('h, 'm) SendLoop" where
  "send_callback H aioResult s =
    (case sl_handler s of
      None \<Rightarrow> s\<lparr>sl_aio := AioIdle\<rparr>
    | Some h \<Rightarrow>
        if aioResult = nng_success then
          (case as_sent H h of (nextMsg, h) \<Rightarrow> send_next nextMsg (s\<lparr>sl_handler := Some h\<rparr>))
        else if aioResult = nng_canceled then
          (case as_error H (async_error_of aioResult) h of (_, h) \<Rightarrow> send_next None (s\<lparr>sl_handler := Some h\<rparr>))
        else
          (case as_error H (async_error_of aioResult) h of (nextMsg, h) \<Rightarrow> send_next nextMsg (s\<lparr>sl_handler := Some h\<rparr>)))"

definition send_init ::
    "('h, 'm) SendHandler \<Rightarrow> 'h option \<Rightarrow> ('h, 'm) SendLoop \<Rightarrow> unit result \<times> ('h, 'm) SendLoop" where
  "send_init H new_handler s =
    (if sl_handler s \<noteq> None then (Inl (NngExn nng_busy ''Send init: already started''), s)
     else (case new_handler of
        None \<Rightarrow> (Inl (NngExn nng_closed ''Send init: handler has expired''), s)
      | Some h \<Rightarrow> (case as_start H h of (r, h) \<Rightarrow> (r, s\<lparr>sl_handler := Some h\<rparr>))))"

definition send_msg :: "('h, 'm) SendHandler \<Rightarrow> 'm \<Rightarrow> ('h, 'm) SendLoop \<Rightarrow> unit result \<times> ('h, 'm) SendLoop" where
  "send_msg H m s =
    (case sl_handler s of
      None \<Rightarrow> (Inl (NngExn nng_exist ''AsyncSendLoop::send_msg: handler does not exist''), s)
    | Some h \<Rightarrow>
        (case as_prep H m h of
          (Inl e, h) \<Rightarrow> (Inl e, s\<lparr>sl_handler := Some h\<rparr>)
        | (Inr None, h) \<Rightarrow> (Inr (), s\<lparr>sl_handler := Some h\<rparr>)
        | (Inr (Some m), h) \<Rightarrow> (Inr (), s\<lparr>sl_handler := Some h, sl_aio := AioSending m\<rparr>)))"

definition send_stop :: "('h, 'm) SendHandler \<Rightarrow> ('h, 'm) SendLoop \<Rightarrow> ('h, 'm) SendLoop" where
  "send_stop H s = (case sl_aio s of AioSending m \<Rightarrow> send_callback H nng_canceled s | _ \<Rightarrow> s)"

definition send_loop_destroy :: "('h, 'm) SendHandler \<Rightarrow> ('h, 'm) SendLoop \<Rightarrow> ('h, 'm) SendLoop" where
  "send_loop_destroy H s =
    (let s = send_stop H s
     in case sl_handler s of
          None \<Rightarrow> s
        | Some h \<Rightarrow> s\<lparr>sl_handler := Some (as_stop H (async_error_of nng_success) h)\<rparr>)"

section \<open>Queues as handlers\<close>

definition recv_queue_handler :: "('m RecvQueueMtx, 'm) RecvHandler" where
  "recv_queue_handler =
    \<lparr>ar_start = (\<lambda>q. (Inr (), q)), ar_stop = (\<lambda>_ q. q), ar_error = (\<lambda>_ q. q), ar_recv = rq_push\<rparr>"

text \<open>
  \<open>send_msg\<close> passes its own tag, whose prompt has no destination, so the prompt in \<open>async_prep\<close> leaves
  the message with the caller; in \<open>async_sent\<close> the prompt has one.
\<close>

definition send_queue_prep :: "'m \<Rightarrow> 'm SendQueueMtx \<Rightarrow> ('m option) result \<times> 'm SendQueueMtx" where
  "send_queue_prep m q =
    (case sq_produce m q of
      (True, msg, q) \<Rightarrow> (Inr msg, q)
    | (False, None, q) \<Rightarrow> (Inr None, q)
    | (False, Some msg, q) \<Rightarrow> (Inr (snd (send_prompt False msg None)), q))"

definition send_queue_sent :: "'m SendQueueMtx \<Rightarrow> 'm option \<times> 'm SendQueueMtx" where
  "send_queue_sent q =
    (case sq_consume q of
      (None, q) \<Rightarrow> (None, q)
    | (Some m, q) \<Rightarrow> (fst (send_prompt True m None), q))"

definition send_queue_handler :: "('m SendQueueMtx, 'm) SendHandler" where
  "send_queue_handler =
    \<lparr>as_start = (\<lambda>q. (Inr (), q)), as_stop = (\<lambda>_ q. q), as_error = (\<lambda>_ q. (None, q)),
     as_prep = send_queue_prep, as_sent = send_queue_sent\<rparr>"

section \<open>The receiving loop over time\<close>

text \<open>A handler that records what it is told.\<close>

datatype 'm async_event = Started | Received 'm | Failed nng_error | Stopped nng_error

definition log_handler :: "('m async_event list, 'm) RecvHandler" where
  "log_handler = \<lparr>ar_start = (\<lambda>l. (Inr (), l @ [Started])), ar_stop = (\<lambda>e l. l @ [Stopped (ae_status e)]),
    ar_error = (\<lambda>e l. l @ [Failed (ae_status e)]), ar_recv = (\<lambda>m l. l @ [Received m])\<rparr>"

text \<open>The environment completes the operation, if one is under way.\<close>

definition recv_complete :: "('h, 'm) RecvHandler \<Rightarrow> nng_error + 'm \<Rightarrow> ('h, 'm) RecvLoop \<Rightarrow> ('h, 'm) RecvLoop" where
  "recv_complete H r s = (if rl_aio s = AioReceiving then recv_callback H r s else s)"

fun recv_trace :: "(nng_error + 'm) list \<Rightarrow> 'm async_event list" where
  "recv_trace [] = []"
| "recv_trace (Inr m # rs) = Received m # recv_trace rs"
| "recv_trace (Inl e # rs) = (if e = nng_timedout then Failed e # recv_trace rs else [Failed e, Stopped e])"

fun recv_alive :: "(nng_error + 'm) list \<Rightarrow> bool" where
  "recv_alive [] \<longleftrightarrow> True"
| "recv_alive (Inr m # rs) \<longleftrightarrow> recv_alive rs"
| "recv_alive (Inl e # rs) \<longleftrightarrow> e = nng_timedout \<and> recv_alive rs"

lemma log_handler_simps [simp]:
  "ar_start log_handler l = (Inr (), l @ [Started])" "ar_stop log_handler e l = l @ [Stopped (ae_status e)]"
  "ar_error log_handler e l = l @ [Failed (ae_status e)]" "ar_recv log_handler m l = l @ [Received m]"
  by (simp_all add: log_handler_def)

lemma recv_complete_idle: "rl_aio s = AioIdle \<Longrightarrow> fold (recv_complete H) rs s = s"
  by (induction rs) (simp_all add: recv_complete_def)

lemma recv_run:
  "fold (recv_complete log_handler) rs \<lparr>rl_handler = Some l, rl_aio = AioReceiving\<rparr> =
    \<lparr>rl_handler = Some (l @ recv_trace rs), rl_aio = (if recv_alive rs then AioReceiving else AioIdle)\<rparr>"
  by (induction rs arbitrary: l rule: recv_trace.induct)
    (simp_all add: recv_complete_def recv_callback_def async_error_of_def recv_complete_idle)

section \<open>The sending loop with a queue\<close>

lemma send_queue_handler_simps [simp]:
  "as_start send_queue_handler q = (Inr (), q)" "as_stop send_queue_handler e q = q"
  "as_error send_queue_handler e q = (None, q)" "as_prep send_queue_handler = send_queue_prep"
  "as_sent send_queue_handler = send_queue_sent"
  by (simp_all add: send_queue_handler_def)

lemma send_queue_prep_eq:
  "send_queue_prep m q = (if sq_busy q then (Inr None, q\<lparr>sq_deq := sq_deq q @ [m]\<rparr>) else (Inr (Some m), q\<lparr>sq_busy := True\<rparr>))"
  by (simp add: send_queue_prep_def sq_produce_def send_prompt_def)

lemma send_queue_sent_eq: "send_queue_sent q = sq_consume q"
  by (simp add: send_queue_sent_def send_prompt_def sq_consume_def split: list.split)

text \<open>A queue that handles a sending loop fulfils the contract of an outgoing queue.\<close>

interpretation asq: outbox
    "\<lambda>m q. (case send_queue_prep m q of (Inr out, q) \<Rightarrow> (out, q) | (Inl e, q) \<Rightarrow> (None, q))"
    send_queue_sent sq_deq sq_busy
  by unfold_locales (simp_all add: send_queue_prep_eq send_queue_sent_eq sq_consume_cases)

definition loop_as_queued :: "('m SendQueueMtx, 'm) SendLoop \<Rightarrow> 'm QueuedSend" where
  "loop_as_queued s = \<lparr>qs_aio = sl_aio s, qs_ctx = (sl_handler s \<noteq> None),
    qs_queue = (case sl_handler s of None \<Rightarrow> sq_new | Some q \<Rightarrow> q)\<rparr>"

section \<open>Properties\<close>

text \<open>
  A receiving loop tells its handler what happened, in order: it starts once, every message and
  every timeout is passed on, and the first other error is reported, followed by the stop, after which
  nothing more is received or reported.
\<close>

theorem recv_loop_reports:
  "\<exists>s. recv_start log_handler (Some []) (recv_loop_new :: ('m async_event list, 'm) RecvLoop) = (Inr (), s) \<and>
    rl_handler (fold (recv_complete log_handler) rs s) = Some (Started # recv_trace rs) \<and>
    (rl_aio (fold (recv_complete log_handler) rs s) = AioReceiving \<longleftrightarrow> recv_alive rs)"
  by (simp add: recv_start_def recv_loop_new_def recv_run)

text \<open>
  Stopping a receiving loop reports two stops: the cancellation of the operation under way
  reports one and \<open>recv_stop\<close> itself another; and a loop that has stopped after an error refuses to
  be started again while its handler lives.
\<close>

theorem recv_loop_stops_twice:
  fixes s0 :: "('m async_event list, 'm) RecvLoop"
  defines "s0 \<equiv> \<lparr>rl_handler = Some [], rl_aio = AioReceiving\<rparr>"
  shows "rl_handler (recv_stop log_handler (fold (recv_complete log_handler) rs s0)) =
      Some (recv_trace rs @ (if recv_alive rs then [Failed nng_canceled, Stopped nng_canceled] else []) @ [Stopped nng_success]) \<and>
    fst (recv_start log_handler (Some l) (fold (recv_complete log_handler) rs s0)) =
      Inl (NngExn nng_busy ''Receive start: already started'')"
  by (simp add: s0_def recv_run recv_stop_def recv_callback_def recv_start_def async_error_of_def)

lemma loop_send_queued:
  assumes "sl_handler s = Some q"
  shows "fst (send_msg send_queue_handler m s) = fst (qs_send m (loop_as_queued s)) \<and>
    loop_as_queued (snd (send_msg send_queue_handler m s)) = snd (qs_send m (loop_as_queued s))"
  using assms by (auto simp: send_msg_def loop_as_queued_def qs_send_def send_queue_prep_eq sq_produce_def)

lemma loop_sent_queued:
  assumes "sl_handler s = Some q"
  shows "loop_as_queued (send_callback send_queue_handler e s) = qs_aioSent e (loop_as_queued s)"
  using assms by (auto simp: send_callback_def loop_as_queued_def qs_aioSent_def send_queue_sent_eq sq_consume_def
      send_next_def split: list.splits)

text \<open>
  C26. A sending loop whose handler is a send queue is a queued sender: sending a message and the
  completion of a transmission, with success or with an error, have the same effect as the operations
  of \<open>QueuedSend\<close>.
\<close>

theorem send_loop_refines_queued_send:
  assumes "sl_handler s = Some q"
  shows "fst (send_msg send_queue_handler m s) = fst (qs_send m (loop_as_queued s)) \<and>
    loop_as_queued (snd (send_msg send_queue_handler m s)) = snd (qs_send m (loop_as_queued s)) \<and>
    loop_as_queued (send_callback send_queue_handler e s) = qs_aioSent e (loop_as_queued s)"
  using loop_send_queued [OF assms] loop_sent_queued [OF assms] by simp

theorem send_loop_refines_queued_send_witness:
  "loop_as_queued (snd (send_msg send_queue_handler 5 \<lparr>sl_handler = Some sq_new, sl_aio = AioIdle\<rparr>)) =
    snd (qs_send (5 :: nat) \<lparr>qs_aio = AioIdle, qs_ctx = True, qs_queue = sq_new\<rparr>)"
  using send_loop_refines_queued_send [of "\<lparr>sl_handler = Some sq_new, sl_aio = AioIdle\<rparr>" sq_new "5 :: nat" nng_success]
  by (simp add: loop_as_queued_def)

text \<open>
  Without its handler a loop does nothing more: a completion leaves a sending or a receiving loop
  idle, sending is refused with an error, and a fresh handler can be installed.
\<close>

theorem loops_without_handler:
  assumes "sl_handler s = None" "rl_handler r = None"
  shows "sl_aio (send_callback H e s) = AioIdle \<and> rl_aio (recv_callback R res r) = AioIdle \<and>
    fst (send_msg H m s) = Inl (NngExn nng_exist ''AsyncSendLoop::send_msg: handler does not exist'') \<and>
    sl_handler (snd (send_init H (Some h) s)) = Some (snd (as_start H h)) \<and>
    rl_handler (snd (recv_start R (Some k) r)) = Some (snd (ar_start R k))"
  using assms by (simp add: send_callback_def recv_callback_def send_msg_def send_init_def recv_start_def
      split: prod.split sum.split)

theorem loops_without_handler_witness:
  "fst (send_msg send_queue_handler (1 :: nat) send_loop_new) =
    Inl (NngExn nng_exist ''AsyncSendLoop::send_msg: handler does not exist'')"
proof -
  have "sl_handler (send_loop_new :: (nat SendQueueMtx, nat) SendLoop) = None"
    "rl_handler (recv_loop_new :: (nat list, nat) RecvLoop) = None"
    by (simp_all add: send_loop_new_def recv_loop_new_def)
  from loops_without_handler [OF this, where H = send_queue_handler and m = 1] show ?thesis by blast
qed

end
