(* ===== verification/Sockets.thy ===== *)
theory Sockets
  imports Host_Address Msg_Util
begin

text \<open>
  Sockets with their dialers and listeners: \<open>include/telling/socket.h\<close> and \<open>src/telling/socket.cpp\<close>.
  Opening a socket and making a dialer or listener are calls of the message-passing library; their
  outcome is an argument. Every operation holds the socket's mutex, so operations are atomic.
\<close>

section \<open>Model\<close>

datatype VARIANT = STANDARD | RAW

datatype pipe_ev = add_pre | add_post | rem_post

text \<open>A dialer or a listener, with the number the library gave it.\<close>

record ListenerOrDialer =
  ld_isListener :: bool
  ld_id :: nat

record 'h Socket =
  sk_role :: ROLE
  sk_pattern :: PATTERN
  sk_protocol :: PROTOCOL
  sk_variant :: VARIANT
  sk_open :: bool
  sk_pipe_count :: u32
  sk_pipe_handler :: "'h option"
  sk_connectors :: "string \<rightharpoonup> ListenerOrDialer"

definition ld_bool :: "ListenerOrDialer \<Rightarrow> bool" where
  "ld_bool c \<longleftrightarrow> ld_id c \<noteq> 0"

definition ld_dialer :: "ListenerOrDialer \<Rightarrow> nat option" where
  "ld_dialer c = (if ld_isListener c then None else Some (ld_id c))"

definition ld_listener :: "ListenerOrDialer \<Rightarrow> nat option" where
  "ld_listener c = (if \<not> ld_isListener c then None else Some (ld_id c))"

text \<open>\<open>opened\<close> is the result of the library's \<open>open\<close> or \<open>open_raw\<close> for the protocol.\<close>

definition socket_make :: "nng_error \<Rightarrow> 'h option \<Rightarrow> ROLE \<Rightarrow> PATTERN \<Rightarrow> VARIANT \<Rightarrow> 'h Socket result" where
  "socket_make opened handler role pattern variant =
    (let protocol = Choose role pattern in
     if protocol = NO_PROTOCOL then
       Inl (NngExn nng_inval (case variant of
           STANDARD \<Rightarrow> ''Socket: invalid role/pattern configuration''
         | RAW \<Rightarrow> ''Socket: invalid RAW role/pattern configuration''))
     else if opened \<noteq> nng_success then Inl (NngExn opened ''open'')
     else Inr \<lparr>sk_role = role, sk_pattern = pattern, sk_protocol = protocol, sk_variant = variant,
               sk_open = True, sk_pipe_count = 0, sk_pipe_handler = handler, sk_connectors = Map.empty\<rparr>)"

definition setPipeHandler :: "'h option \<Rightarrow> 'h Socket \<Rightarrow> unit result \<times> 'h Socket" where
  "setPipeHandler new_handler s =
    (if sk_pipe_handler s \<noteq> None then (Inl (NngExn nng_busy ''telling::Socket::setPipeHandler''), s)
     else (Inr (), s\<lparr>sk_pipe_handler := new_handler\<rparr>))"

definition socket_close :: "'h Socket \<Rightarrow> 'h Socket" where
  "socket_close s = (if sk_open s then s\<lparr>sk_connectors := Map.empty, sk_open := False\<rparr> else s)"

definition socket_isReady :: "'h Socket \<Rightarrow> bool" where
  "socket_isReady s \<longleftrightarrow> sk_connectors s \<noteq> Map.empty"

definition socket_isConnected :: "'h Socket \<Rightarrow> bool" where
  "socket_isConnected s \<longleftrightarrow> sk_pipe_count s > 0"

text \<open>The callback counts the pipes and passes the event to the handler's function, if it is alive.\<close>

definition pipeCallback :: "(nat \<Rightarrow> pipe_ev \<Rightarrow> 'h \<Rightarrow> 'h) \<Rightarrow> nat \<Rightarrow> pipe_ev \<Rightarrow> 'h Socket \<Rightarrow> 'h Socket" where
  "pipeCallback pipeEvent pipe event s =
    (let s = (case event of
         add_post \<Rightarrow> s\<lparr>sk_pipe_count := sk_pipe_count s + 1\<rparr>
       | rem_post \<Rightarrow> (if sk_pipe_count s \<noteq> 0 then s\<lparr>sk_pipe_count := sk_pipe_count s - 1\<rparr> else s)
       | add_pre \<Rightarrow> s)
     in s\<lparr>sk_pipe_handler := map_option (pipeEvent pipe event) (sk_pipe_handler s)\<rparr>)"

text \<open>
  \<open>made\<close> is the outcome of \<open>nng::make_dialer\<close> or \<open>nng::make_listener\<close>. An entry that exists is kept; the
  new dialer or listener is then destroyed at once.
\<close>

definition socket_connect :: "bool \<Rightarrow> nng_error + nat \<Rightarrow> string \<Rightarrow> 'h Socket \<Rightarrow> unit result \<times> 'h Socket" where
  "socket_connect isListener made uri s =
    (if \<not> sk_open s then (Inl (NngExn nng_closed ''The socket is not open.''), s)
     else (case made of
        Inl e \<Rightarrow> (Inl (NngExn e uri), s)
      | Inr n \<Rightarrow> (Inr (), if uri \<in> dom (sk_connectors s) then s
          else s\<lparr>sk_connectors := (sk_connectors s)(uri \<mapsto> \<lparr>ld_isListener = isListener, ld_id = n\<rparr>)\<rparr>)))"

definition socket_dial :: "nng_error + nat \<Rightarrow> string \<Rightarrow> 'h Socket \<Rightarrow> unit result \<times> 'h Socket" where
  "socket_dial made uri s = socket_connect False made uri s"

definition socket_listen :: "nng_error + nat \<Rightarrow> string \<Rightarrow> 'h Socket \<Rightarrow> unit result \<times> 'h Socket" where
  "socket_listen made uri s = socket_connect True made uri s"

definition socket_disconnect :: "string \<Rightarrow> 'h Socket \<Rightarrow> 'h Socket" where
  "socket_disconnect uri s = s\<lparr>sk_connectors := (sk_connectors s)(uri := None)\<rparr>"

definition socket_disconnectAll :: "'h Socket \<Rightarrow> 'h Socket" where
  "socket_disconnectAll s = s\<lparr>sk_connectors := Map.empty\<rparr>"

text \<open>The overloads that take the base of a range of addresses.\<close>

definition base_uri :: "platform \<Rightarrow> HostAddress_Base \<Rightarrow> 'h Socket \<Rightarrow> string" where
  "base_uri os base s = host_string os (derived base (sk_pattern s))"

definition socket_dial_base where
  "socket_dial_base os made base s = socket_dial made (base_uri os base s) s"

definition socket_listen_base where
  "socket_listen_base os made base s = socket_listen made (base_uri os base s) s"

definition socket_disconnect_base where
  "socket_disconnect_base os base s = socket_disconnect (base_uri os base s) s"

section \<open>Communicators\<close>

text \<open>A communicator refers to a socket, or to none.\<close>

record 'h Communicator =
  co_role :: ROLE
  co_pattern :: PATTERN
  co_protocol :: PROTOCOL
  co_socket :: "'h Socket option"

text \<open>The variant that the constructor takes is not passed on to the socket.\<close>

definition communicator_make :: "nng_error \<Rightarrow> ROLE \<Rightarrow> PATTERN \<Rightarrow> VARIANT \<Rightarrow> 'h Communicator result" where
  "communicator_make opened role pattern variant =
    (case socket_make opened None role pattern STANDARD of
      Inl e \<Rightarrow> Inl e
    | Inr s \<Rightarrow> Inr \<lparr>co_role = role, co_pattern = pattern, co_protocol = Choose role pattern, co_socket = Some s\<rparr>)"

definition communicator_share :: "'h Socket option \<Rightarrow> 'h Communicator" where
  "communicator_share s =
    (let role = (case s of None \<Rightarrow> NO_ROLE | Some s \<Rightarrow> sk_role s);
         pattern = (case s of None \<Rightarrow> NO_PATTERN | Some s \<Rightarrow> sk_pattern s)
     in \<lparr>co_role = role, co_pattern = pattern, co_protocol = Choose role pattern, co_socket = s\<rparr>)"

definition communicator_isOpen :: "('h, 'z) Communicator_scheme \<Rightarrow> bool" where
  "communicator_isOpen c = (case co_socket c of None \<Rightarrow> False | Some s \<Rightarrow> sk_open s)"

definition communicator_isReady :: "('h, 'z) Communicator_scheme \<Rightarrow> bool" where
  "communicator_isReady c = (case co_socket c of None \<Rightarrow> False | Some s \<Rightarrow> socket_isReady s)"

definition communicator_connectionCount :: "('h, 'z) Communicator_scheme \<Rightarrow> u32" where
  "communicator_connectionCount c = (case co_socket c of None \<Rightarrow> 0 | Some s \<Rightarrow> sk_pipe_count s)"

definition communicator_isConnected :: "('h, 'z) Communicator_scheme \<Rightarrow> bool" where
  "communicator_isConnected c = (case co_socket c of None \<Rightarrow> False | Some s \<Rightarrow> socket_isConnected s)"

definition communicator_close :: "('h, 'z) Communicator_scheme \<Rightarrow> ('h, 'z) Communicator_scheme" where
  "communicator_close c = c\<lparr>co_socket := map_option socket_close (co_socket c)\<rparr>"

text \<open>The other proxy methods follow the pointer to the socket without a test.\<close>

definition communicator_on ::
    "('h Socket \<Rightarrow> unit result \<times> 'h Socket) \<Rightarrow> ('h, 'z) Communicator_scheme \<Rightarrow>
      unit result \<times> ('h, 'z) Communicator_scheme" where
  "communicator_on f c =
    (case co_socket c of
      None \<Rightarrow> (Inl (Undefined ''null pointer''), c)
    | Some s \<Rightarrow> (case f s of (r, s) \<Rightarrow> (r, c\<lparr>co_socket := Some s\<rparr>)))"

definition communicator_dial where
  "communicator_dial made uri = communicator_on (socket_dial made uri)"

definition communicator_listen where
  "communicator_listen made uri = communicator_on (socket_listen made uri)"

definition communicator_disconnect where
  "communicator_disconnect uri = communicator_on (\<lambda>s. (Inr (), socket_disconnect uri s))"

definition communicator_disconnectAll where
  "communicator_disconnectAll = communicator_on (\<lambda>s. (Inr (), socket_disconnectAll s))"

section \<open>Several sockets at once\<close>

text \<open>
  \<open>Dial\<close> and \<open>Listen\<close> on several sockets (an argument that is a null pointer is skipped). C++ does
  not fix the order in which the arguments of a call are evaluated, so the order is an argument: a
  list of positions. An exception ends the evaluation, and every socket is then disconnected from
  the address.
\<close>

fun connect_each ::
    "(nat \<Rightarrow> 'h Socket \<Rightarrow> unit result \<times> 'h Socket) \<Rightarrow> nat list \<Rightarrow> 'h Socket option list \<Rightarrow>
      unit result \<times> 'h Socket option list" where
  "connect_each f [] socks = (Inr (), socks)"
| "connect_each f (i # is) socks =
    (case socks ! i of
      None \<Rightarrow> connect_each f is socks
    | Some s \<Rightarrow>
        (case f i s of
          (Inl e, s') \<Rightarrow> (Inl e, socks[i := Some s'])
        | (Inr _, s') \<Rightarrow> connect_each f is (socks[i := Some s'])))"

definition connect_or_rollback ::
    "platform \<Rightarrow> HostAddress_Base \<Rightarrow> (nat \<Rightarrow> 'h Socket \<Rightarrow> unit result \<times> 'h Socket) \<Rightarrow> nat list \<Rightarrow>
      'h Socket option list \<Rightarrow> unit result \<times> 'h Socket option list" where
  "connect_or_rollback os base f order socks =
    (case connect_each f order socks of
      (Inr _, socks) \<Rightarrow> (Inr (), socks)
    | (Inl e, socks) \<Rightarrow> (Inl e, map (map_option (socket_disconnect_base os base)) socks))"

definition Dial where
  "Dial os made base = connect_or_rollback os base (\<lambda>i. socket_dial_base os (made i) base)"

definition Listen where
  "Listen os made base = connect_or_rollback os base (\<lambda>i. socket_listen_base os (made i) base)"

definition Close :: "'h Socket option list \<Rightarrow> 'h Socket option list" where
  "Close socks = map (map_option socket_close) socks"

definition Disconnect :: "platform \<Rightarrow> HostAddress_Base \<Rightarrow> 'h Socket option list \<Rightarrow> 'h Socket option list" where
  "Disconnect os base socks = map (map_option (socket_disconnect_base os base)) socks"

definition DisconnectAll :: "'h Socket option list \<Rightarrow> 'h Socket option list" where
  "DisconnectAll socks = map (map_option socket_disconnectAll) socks"

text \<open>A communicator with one dialer, for examples.\<close>

definition example_communicator :: "ROLE \<Rightarrow> PATTERN \<Rightarrow> unit Communicator" where
  "example_communicator role pattern =
    \<lparr>co_role = role, co_pattern = pattern, co_protocol = Choose role pattern,
     co_socket = Some \<lparr>sk_role = role, sk_pattern = pattern, sk_protocol = Choose role pattern, sk_variant = STANDARD,
       sk_open = True, sk_pipe_count = 0, sk_pipe_handler = None,
       sk_connectors = [''inproc://example'' \<mapsto> \<lparr>ld_isListener = False, ld_id = 1\<rparr>]\<rparr>\<rparr>"

section \<open>Lemmas\<close>

lemma example_communicator_socket:
  "\<exists>s. co_socket (example_communicator role pattern) = Some s \<and> socket_isReady s"
  by (simp add: example_communicator_def socket_isReady_def)

lemma socket_connect_ok:
  "socket_connect b made uri s = (Inr (), s') \<Longrightarrow>
    sk_open s \<and> sk_open s' \<and> sk_pattern s' = sk_pattern s \<and> dom (sk_connectors s') = insert uri (dom (sk_connectors s))"
  by (auto simp: socket_connect_def split: if_splits sum.splits)

lemma socket_connect_error: "socket_connect b made uri s = (Inl e, s') \<Longrightarrow> s' = s"
  by (auto simp: socket_connect_def split: if_splits sum.splits)

text \<open>
  What a connecting operation of a socket does: it leaves the pattern alone, and when it succeeds the
  socket is connected at the address of its pattern.
\<close>

locale connector =
  fixes os :: platform and base :: HostAddress_Base
    and connect :: "nat \<Rightarrow> 'h Socket \<Rightarrow> unit result \<times> 'h Socket"
  assumes connected: "connect i s = (Inr (), s') \<Longrightarrow> base_uri os base s' \<in> dom (sk_connectors s')"
begin

lemma each_length: "length (snd (connect_each connect order socks)) = length socks"
  by (induction order arbitrary: socks) (simp_all split: option.split prod.split sum.split)

lemma each_other: "i \<notin> set order \<Longrightarrow> snd (connect_each connect order socks) ! i = socks ! i"
  by (induction order arbitrary: socks) (auto split: option.split prod.split sum.split)

lemma each_connected:
  "connect_each connect order socks = (Inr (), socks') \<Longrightarrow> distinct order \<Longrightarrow> set order \<subseteq> {..<length socks} \<Longrightarrow>
    \<forall>i \<in> set order. \<forall>s. socks' ! i = Some s \<longrightarrow> base_uri os base s \<in> dom (sk_connectors s)"
proof (induction order arbitrary: socks)
  case (Cons i js)
  show ?case
  proof (cases "socks ! i")
    case None
    with Cons.prems(1) have r: "connect_each connect js socks = (Inr (), socks')" by simp
    moreover have "snd (connect_each connect js socks) ! i = socks ! i"
      using Cons.prems(2) by (intro each_other) simp
    ultimately show ?thesis using Cons.IH [OF r] Cons.prems(2,3) None by simp
  next
    case (Some s)
    obtain res s1 where f: "connect i s = (res, s1)" by (cases "connect i s")
    with Cons.prems(1) Some have ok: "res = Inr ()"
      and r: "connect_each connect js (socks[i := Some s1]) = (Inr (), socks')"
      by (auto split: sum.splits)
    have "snd (connect_each connect js (socks[i := Some s1])) ! i = Some s1"
      using Cons.prems(2,3) by (subst each_other) simp_all
    moreover have "base_uri os base s1 \<in> dom (sk_connectors s1)" using connected f ok by simp
    ultimately show ?thesis
      using Cons.IH [OF r] Cons.prems(2,3) r by simp
  qed
qed simp

lemma all_or_nothing:
  assumes "connect_or_rollback os base connect order socks = (r, socks')"
    and "distinct order" "set order = {..<length socks}"
  shows "\<forall>s. Some s \<in> set socks' \<longrightarrow> (base_uri os base s \<in> dom (sk_connectors s) \<longleftrightarrow> r = Inr ())"
proof (cases "connect_each connect order socks")
  case (Pair res socks1)
  show ?thesis
  proof (cases res)
    case (Inr u)
    with Pair assms(1) have "r = Inr ()" "socks' = socks1" by (simp_all add: connect_or_rollback_def)
    moreover have "length socks1 = length socks" using each_length [of order socks] Pair by simp
    ultimately show ?thesis
      using each_connected [of order socks socks1] Pair Inr assms(2,3) by (auto simp: in_set_conv_nth)
  next
    case (Inl e)
    with Pair assms(1) have "r = Inl e" "socks' = map (map_option (socket_disconnect_base os base)) socks1"
      by (simp_all add: connect_or_rollback_def)
    then show ?thesis
      by (auto simp: socket_disconnect_base_def socket_disconnect_def base_uri_def map_option_eq_Some
          dest!: sym [of "Some _"])
  qed
qed

end

lemma connect_base_ok:
  "socket_connect b made (base_uri os base s) s = (Inr (), s') \<Longrightarrow> base_uri os base s' \<in> dom (sk_connectors s')"
  using socket_connect_ok [of b made "base_uri os base s" s s'] by (simp add: base_uri_def)

interpretation dialer: connector os base "\<lambda>i. socket_dial_base os (made i) base"
  by unfold_locales (simp_all add: socket_dial_base_def socket_dial_def connect_base_ok)

interpretation listener: connector os base "\<lambda>i. socket_listen_base os (made i) base"
  by unfold_locales (simp_all add: socket_listen_base_def socket_listen_def connect_base_ok)

section \<open>A socket over time\<close>

inductive socket_step :: "'h Socket \<Rightarrow> 'h Socket \<Rightarrow> bool" where
  dial: "socket_step s (snd (socket_dial made uri s))"
| listen: "socket_step s (snd (socket_listen made uri s))"
| disconnect: "socket_step s (socket_disconnect uri s)"
| disconnectAll: "socket_step s (socket_disconnectAll s)"
| set_handler: "socket_step s (snd (setPipeHandler h s))"
| pipe: "socket_step s (pipeCallback f p e s)"
| close: "socket_step s (socket_close s)"

definition socket_inv :: "'h Socket \<Rightarrow> bool" where
  "socket_inv s \<longleftrightarrow> sk_protocol s = Choose (sk_role s) (sk_pattern s) \<and> sk_protocol s \<noteq> NO_PROTOCOL \<and>
    (\<not> sk_open s \<longrightarrow> sk_connectors s = Map.empty)"

lemma socket_inv_make: "socket_make r h role pattern v = Inr s \<Longrightarrow> socket_inv s"
  by (auto simp: socket_make_def socket_inv_def Let_def split: if_splits)

lemma socket_inv_step: "socket_step s s' \<Longrightarrow> socket_inv s \<Longrightarrow> socket_inv s'"
  by (induction rule: socket_step.induct)
    (auto simp: socket_inv_def socket_dial_def socket_listen_def socket_connect_def socket_disconnect_def
      socket_disconnectAll_def setPipeHandler_def pipeCallback_def socket_close_def Let_def
      split: sum.splits pipe_ev.splits)

lemma closed_stays_closed: "socket_step s s' \<Longrightarrow> \<not> sk_open s \<Longrightarrow> \<not> sk_open s'"
  by (induction rule: socket_step.induct)
    (auto simp: socket_dial_def socket_listen_def socket_connect_def socket_disconnect_def
      socket_disconnectAll_def setPipeHandler_def pipeCallback_def socket_close_def Let_def
      split: sum.splits pipe_ev.splits)

section \<open>Properties\<close>

text \<open>
  C28. Dialing or listening with several sockets at once is all or nothing, in whatever order the
  sockets are taken: when the call succeeds every socket is connected at the address of its pattern,
  and when it throws none is.
\<close>

theorem dial_all_or_nothing:
  assumes "distinct order" "set order = {..<length socks}"
    and "Dial os made base order socks = (r, dialed)" "Listen os made base order socks = (q, listening)"
  shows "(\<forall>s. Some s \<in> set dialed \<longrightarrow> (base_uri os base s \<in> dom (sk_connectors s) \<longleftrightarrow> r = Inr ())) \<and>
    (\<forall>s. Some s \<in> set listening \<longrightarrow> (base_uri os base s \<in> dom (sk_connectors s) \<longleftrightarrow> q = Inr ()))"
  using dialer.all_or_nothing [OF assms(3) [unfolded Dial_def] assms(1,2)]
    listener.all_or_nothing [OF assms(4) [unfolded Listen_def] assms(1,2)] by blast

theorem dial_all_or_nothing_witness:
  "\<exists>s :: unit Socket. socket_make nng_success None CLIENT REQ_REP STANDARD = Inr s \<and>
    (\<forall>t. Some t \<in> set (snd (Dial Windows (\<lambda>_. Inr 1) DefaultInProc [0] [Some s])) \<longrightarrow>
      base_uri Windows DefaultInProc t \<in> dom (sk_connectors t))"
proof -
  obtain s :: "unit Socket" where s: "socket_make nng_success None CLIENT REQ_REP STANDARD = Inr s" "sk_open s"
    by (simp add: socket_make_def Let_def Choose_def ClientSide_def)
  obtain r d q l where d: "Dial Windows (\<lambda>_. Inr 1) DefaultInProc [0] [Some s] = (r, d)"
    "Listen Windows (\<lambda>_. Inr 1) DefaultInProc [0] [Some s] = (q, l)" by fastforce
  moreover from this s(2) have "r = Inr ()"
    by (auto simp: Dial_def connect_or_rollback_def socket_dial_base_def socket_dial_def socket_connect_def split: prod.splits sum.splits)
  ultimately show ?thesis using dial_all_or_nothing [of "[0]" "[Some s]", OF _ _ d] s(1) by (auto simp: lessThan_Suc)
qed

text \<open>
  C30. A socket that exists has the protocol its role and pattern determine, and a socket that has
  been closed has no dialers and listeners and stays closed, whatever operations and pipe events follow.
\<close>

theorem socket_invariant:
  assumes "socket_make r h role pattern variant = Inr s0" "socket_step\<^sup>*\<^sup>* s0 s" "socket_step\<^sup>*\<^sup>* (socket_close s) s'"
  shows "sk_protocol s = Choose (sk_role s) (sk_pattern s) \<and> sk_protocol s \<noteq> NO_PROTOCOL \<and>
    \<not> sk_open s' \<and> sk_connectors s' = Map.empty"
proof -
  have inv: "socket_inv s" using assms(2) by (induction rule: rtranclp_induct) (auto intro: socket_inv_make [OF assms(1)] socket_inv_step)
  have "socket_inv (socket_close s)" using socket_inv_step [OF socket_step.close inv] .
  with assms(3) have "socket_inv s' \<and> \<not> sk_open s'"
    by (induction rule: rtranclp_induct) (auto intro: socket_inv_step closed_stays_closed simp: socket_close_def dest: closed_stays_closed)
  with inv show ?thesis by (auto simp: socket_inv_def)
qed

text \<open>A socket that dials, is closed, and dials again.\<close>

theorem socket_invariant_witness:
  "\<exists>s0 s s' :: unit Socket. socket_make nng_success None CLIENT REQ_REP STANDARD = Inr s0 \<and>
    socket_dial (Inr 1) ''inproc://a'' s0 = (Inr (), s) \<and> dom (sk_connectors s) = {''inproc://a''} \<and> sk_protocol s = REQ \<and>
    s' = snd (socket_dial (Inr 2) ''inproc://b'' (socket_close s)) \<and> \<not> sk_open s' \<and> sk_connectors s' = Map.empty"
proof -
  obtain s0 :: "unit Socket" where s0: "socket_make nng_success None CLIENT REQ_REP STANDARD = Inr s0"
    "sk_role s0 = CLIENT" "sk_pattern s0 = REQ_REP" "sk_open s0" "sk_connectors s0 = Map.empty"
    by (simp add: socket_make_def Let_def Choose_def ClientSide_def)
  let ?s = "s0\<lparr>sk_connectors := [''inproc://a'' \<mapsto> \<lparr>ld_isListener = False, ld_id = 1\<rparr>]\<rparr>"
  have dialed: "socket_dial (Inr 1) ''inproc://a'' s0 = (Inr (), ?s)" using s0(4,5) by (simp add: socket_dial_def socket_connect_def)
  have "socket_step\<^sup>*\<^sup>* s0 ?s" using socket_step.dial [of s0 "Inr 1" "''inproc://a''"] unfolding dialed by simp
  from socket_invariant [OF s0(1) this r_into_rtranclp [of socket_step, OF socket_step.dial [of _ "Inr 2" "''inproc://b''"]]] s0(1-3) dialed
  show ?thesis by (intro exI [of _ s0] exI [of _ ?s] exI [of _ "snd (socket_dial (Inr 2) ''inproc://b'' (socket_close ?s))"]) (simp add: Choose_def ClientSide_def)
qed

fun live_pipes :: "pipe_ev list \<Rightarrow> nat \<Rightarrow> nat" where
  "live_pipes [] n = n"
| "live_pipes (add_pre # es) n = live_pipes es n"
| "live_pipes (add_post # es) n = live_pipes es (n + 1)"
| "live_pipes (rem_post # es) n = live_pipes es (n - 1)"

lemma pipe_count_run:
  "unat (sk_pipe_count s) + length es < 2 ^ 32 \<Longrightarrow>
    unat (sk_pipe_count (fold (pipeCallback f p) es s)) = live_pipes es (unat (sk_pipe_count s))"
proof (induction es arbitrary: s)
  case (Cons e es)
  have plus: "unat (sk_pipe_count s + 1) = unat (sk_pipe_count s) + 1"
    using Cons.prems by (intro unat_plus_one_small) simp
  have minus: "sk_pipe_count s \<noteq> 0 \<Longrightarrow> unat (sk_pipe_count s - 1) = unat (sk_pipe_count s) - 1"
    by (rule unat_minus_one)
  show ?case
    using Cons.IH [of "pipeCallback f p e s"] Cons.prems plus minus
    by (cases e) (auto simp: pipeCallback_def Let_def)
qed simp

text \<open>
  The connection count is exact: as long as fewer than 2^32 events occur, it is the number of
  pipes added and not yet removed, and it never wraps below zero.
\<close>

theorem pipe_count_exact:
  assumes "sk_pipe_count s = 0" "length es < 2 ^ 32"
  shows "unat (sk_pipe_count (fold (pipeCallback f p) es s)) = live_pipes es 0"
  using pipe_count_run [of s es f p] assms by simp

theorem pipe_count_exact_witness:
  "\<exists>s :: unit Socket. socket_make nng_success None CLIENT REQ_REP STANDARD = Inr s \<and>
    unat (sk_pipe_count (fold (pipeCallback (\<lambda>_ _ h. h) 1) [add_pre, add_post, rem_post, rem_post, add_post] s)) = 1"
proof -
  obtain s :: "unit Socket" where s: "socket_make nng_success None CLIENT REQ_REP STANDARD = Inr s" "sk_pipe_count s = 0"
    by (simp add: socket_make_def Let_def Choose_def ClientSide_def)
  from pipe_count_exact [OF s(2), of "[add_pre, add_post, rem_post, rem_post, add_post]"] s(1) show ?thesis by simp
qed

end
