(* ===== verification/Client_Request.thy ===== *)
theory Client_Request
  imports Async_Loop Sockets
begin

text \<open>
  The requesting side of the request-reply pattern: \<open>include/telling/client_request.h\<close> and
  \<open>src/telling/client_request.cpp\<close>. A request runs as an action, with a context and an asynchronous
  operation of its own; finished actions wait in a pool to be used again. The number of a context is
  the query's identifier, so an action is known by its number. Results of the message-passing
  library's calls are arguments. The handler is user code (a record of functions on its own state).
\<close>

section \<open>Actions\<close>

type_synonym QueryID = u32

datatype ACTION_STATE = IDLE | SEND | RECV

record 'm Action =
  ac_queryID :: QueryID
  ac_state :: ACTION_STATE
  ac_aio :: "'m aio"

text \<open>
  \<open>AsyncQuery\<close>: preparing a message may replace it, take it away or throw. A message received is
  empty when the operation carries none.
\<close>

record ('h, 'm) AsyncRequest =
  aq_prep :: "QueryID \<Rightarrow> 'm \<Rightarrow> 'h \<Rightarrow> ('m option) result \<times> 'h"
  aq_sent :: "QueryID \<Rightarrow> 'h \<Rightarrow> 'h"
  aq_recv :: "QueryID \<Rightarrow> 'm option \<Rightarrow> 'h \<Rightarrow> 'h"
  aq_error :: "QueryID \<Rightarrow> AsyncError \<Rightarrow> 'h \<Rightarrow> 'h"

text \<open>
  A request communicator. The set of active actions is a list without duplicates whose order has no
  meaning; the pool of idle actions is the code's deque.
\<close>

record ('p, 'h, 'm) Request = "'p Communicator" +
  cr_handler :: "'h option"
  cr_active :: "'m Action list"
  cr_idle :: "'m Action list"

record MsgStats =
  awaiting_send :: nat
  awaiting_recv :: nat

definition request_make :: "'p Communicator \<Rightarrow> ('p, 'h, 'm) Request" where
  "request_make c = \<lparr>co_role = co_role c, co_pattern = co_pattern c, co_protocol = co_protocol c, co_socket = co_socket c,
    cr_handler = None, cr_active = [], cr_idle = []\<rparr>"

definition request_initialize ::
    "'h option \<Rightarrow> ('p, 'h, 'm) Request \<Rightarrow> unit result \<times> ('p, 'h, 'm) Request" where
  "request_initialize new_handler s =
    (if cr_handler s \<noteq> None then (Inl (NngExn nng_busy ''Request::initialize (already initialized)''), s)
     else if new_handler = None then (Inl (NngExn nng_closed ''Request::initialize (handler is expired)''), s)
     else (Inr (), s\<lparr>cr_handler := new_handler\<rparr>))"

definition count_stats :: "'m Action \<Rightarrow> MsgStats \<Rightarrow> MsgStats" where
  "count_stats a n = (case ac_state a of
      SEND \<Rightarrow> n\<lparr>awaiting_send := awaiting_send n + 1\<rparr>
    | RECV \<Rightarrow> n\<lparr>awaiting_recv := awaiting_recv n + 1\<rparr>
    | IDLE \<Rightarrow> n)"

definition request_msgStats :: "('p, 'h, 'm) Request \<Rightarrow> MsgStats" where
  "request_msgStats s = fold count_stats (cr_active s) \<lparr>awaiting_send = 0, awaiting_recv = 0\<rparr>"

text \<open>
  The action for a new request: from the front of the pool, or a new one. \<open>made\<close> is the outcome of
  \<open>make_ctx\<close> and \<open>nng::make_aio\<close>.
\<close>

definition allocate :: "nng_error + QueryID \<Rightarrow> 'm Action list \<Rightarrow> ('m Action \<times> 'm Action list) result" where
  "allocate made idle = (case idle of
      [] \<Rightarrow> (case made of
          Inl e \<Rightarrow> Inl (NngExn e ''Request::request'')
        | Inr q \<Rightarrow> Inr (\<lparr>ac_queryID = q, ac_state = IDLE, ac_aio = AioIdle\<rparr>, []))
    | a # rest \<Rightarrow> Inr (a, rest))"

text \<open>An exception from the handler leaves the action neither active nor in the pool.\<close>

definition request ::
    "('h, 'm) AsyncRequest \<Rightarrow> nng_error + QueryID \<Rightarrow> 'm \<Rightarrow> ('p, 'h, 'm) Request \<Rightarrow> QueryID result \<times> ('p, 'h, 'm) Request" where
  "request H made m s =
    (if \<not> communicator_isReady s then (Inl (NngExn nng_closed ''Request Communicator is not ready.''), s)
     else (case cr_handler s of
        None \<Rightarrow> (Inl (NngExn nng_exist ''Request communicator has no message handler''), s)
      | Some h \<Rightarrow>
          (case allocate made (cr_idle s) of
            Inl e \<Rightarrow> (Inl e, s)
          | Inr (a, idle) \<Rightarrow>
              (case aq_prep H (ac_queryID a) m h of
                (Inl e, h) \<Rightarrow> (Inl e, s\<lparr>cr_handler := Some h, cr_idle := idle\<rparr>)
              | (Inr None, h) \<Rightarrow>
                  (Inl (NngExn nng_canceled ''AsyncQuery declined the message.''),
                   s\<lparr>cr_handler := Some h, cr_idle := a # idle\<rparr>)
              | (Inr (Some m), h) \<Rightarrow>
                  (Inr (ac_queryID a),
                   s\<lparr>cr_handler := Some h, cr_idle := idle,
                     cr_active := a\<lparr>ac_state := SEND, ac_aio := AioSending m\<rparr> # cr_active s\<rparr>)))))"

text \<open>
  The callback of an action, with the result of its operation. The first part calls the handler and
  decides whether the action is cleaned up.
\<close>

definition action_deliver ::
    "('h, 'm) AsyncRequest \<Rightarrow> nng_error + 'm option \<Rightarrow> 'm Action \<Rightarrow> 'h option \<Rightarrow> bool \<times> 'h option" where
  "action_deliver H aioResult a handler =
    (case handler of
      None \<Rightarrow> (True, None)
    | Some h \<Rightarrow>
        (case aioResult of
          Inl e \<Rightarrow> (True, Some (aq_error H (ac_queryID a) (async_error_of e) h))
        | Inr m \<Rightarrow>
            (case ac_state a of
              SEND \<Rightarrow> (False, Some (aq_sent H (ac_queryID a) h))
            | RECV \<Rightarrow> (True, Some (aq_recv H (ac_queryID a) m h))
            | IDLE \<Rightarrow> (True, Some h))))"

definition set_active :: "'m Action \<Rightarrow> 'm Action list \<Rightarrow> 'm Action list" where
  "set_active a as = map (\<lambda>b. if ac_queryID b = ac_queryID a then a else b) as"

definition erase_active :: "QueryID \<Rightarrow> 'm Action list \<Rightarrow> 'm Action list" where
  "erase_active q as = filter (\<lambda>b. ac_queryID b \<noteq> q) as"

definition action_callback ::
    "('h, 'm) AsyncRequest \<Rightarrow> nng_error + 'm option \<Rightarrow> 'm Action \<Rightarrow> ('p, 'h, 'm) Request \<Rightarrow> ('p, 'h, 'm) Request" where
  "action_callback H aioResult a s =
    (case action_deliver H aioResult a (cr_handler s) of
      (cleanup, handler) \<Rightarrow>
        let s = s\<lparr>cr_handler := handler\<rparr>;
            a = (if cleanup then a\<lparr>ac_state := IDLE\<rparr> else a)
        in case ac_state a of
             SEND \<Rightarrow> s\<lparr>cr_active := set_active (a\<lparr>ac_state := RECV, ac_aio := AioReceiving\<rparr>) (cr_active s)\<rparr>
           | _ \<Rightarrow> s\<lparr>cr_active := erase_active (ac_queryID a) (cr_active s),
                    cr_idle := cr_idle s @ [a\<lparr>ac_state := IDLE, ac_aio := AioIdle\<rparr>]\<rparr>)"

text \<open>The completion of the operation of a query, by the library.\<close>

definition request_complete ::
    "('h, 'm) AsyncRequest \<Rightarrow> QueryID \<Rightarrow> nng_error + 'm option \<Rightarrow> ('p, 'h, 'm) Request \<Rightarrow> ('p, 'h, 'm) Request" where
  "request_complete H q aioResult s =
    (case find (\<lambda>a. ac_queryID a = q) (cr_active s) of None \<Rightarrow> s | Some a \<Rightarrow> action_callback H aioResult a s)"

text \<open>
  The destructor aborts the active operations, and waits until no action is active, while operations complete in
  some order, with some result: an operation that was completed just before has its own result, and if it was a
  transmission, the reception that follows is not aborted. \<open>None\<close> is that it still waits when the completions are used up. \<open>request_cancelAll\<close> is the
  case in which every operation is still under way and completes as canceled. Then the pool is deleted.
\<close>

fun request_wait ::
    "('h, 'm) AsyncRequest \<Rightarrow> (QueryID \<times> (nng_error + 'm option)) list \<Rightarrow> ('p, 'h, 'm) Request \<Rightarrow> ('p, 'h, 'm) Request option" where
  "request_wait H [] s = (if cr_active s = [] then Some s else None)"
| "request_wait H ((q, r) # evs) s = (if cr_active s = [] then Some s else request_wait H evs (request_complete H q r s))"

definition request_cancelAll :: "('h, 'm) AsyncRequest \<Rightarrow> ('p, 'h, 'm) Request \<Rightarrow> ('p, 'h, 'm) Request" where
  "request_cancelAll H s = fold (\<lambda>q. request_complete H q (Inl nng_canceled)) (map ac_queryID (cr_active s)) s"

definition request_destroy :: "('h, 'm) AsyncRequest \<Rightarrow> ('p, 'h, 'm) Request \<Rightarrow> ('p, 'h, 'm) Request" where
  "request_destroy H s = (request_cancelAll H s)\<lparr>cr_idle := []\<rparr>"

section \<open>Requests as futures\<close>

text \<open>
  \<open>Request_Box\<close> keeps a promise for every query under way. A promise is a number; what it has been
  given, a reply or an exception, is in \<open>de_results\<close> under that number.
\<close>

record Pending =
  pe_sent :: bool
  pe_promise :: nat

record 'm Delegate =
  de_pending :: "QueryID \<rightharpoonup> Pending"
  de_newQueryID :: QueryID
  de_results :: "nat \<rightharpoonup> ('m option) result"
  de_promises :: nat

definition delegate_new :: "'m Delegate" where
  "delegate_new = \<lparr>de_pending = Map.empty, de_newQueryID = 0, de_results = Map.empty, de_promises = 0\<rparr>"

definition getFuture :: "QueryID \<Rightarrow> 'm Delegate \<Rightarrow> nat result \<times> 'm Delegate" where
  "getFuture qid d =
    (case de_pending d qid of
      None \<Rightarrow> (Inl (NngExn nng_internal ''Inconsistent Query ID''), d)
    | Some p \<Rightarrow>
        if qid \<noteq> de_newQueryID d then (Inl (NngExn nng_internal ''Inconsistent Query ID''), d)
        else (Inr (pe_promise p), d\<lparr>de_newQueryID := 0\<rparr>))"

text \<open>\<open>emplace\<close> keeps an entry that exists; the promise made for it is then destroyed unused.\<close>

definition delegate_prep :: "QueryID \<Rightarrow> 'm \<Rightarrow> 'm Delegate \<Rightarrow> ('m option) result \<times> 'm Delegate" where
  "delegate_prep q m d =
    (let d = (if q \<in> dom (de_pending d) then d
              else d\<lparr>de_pending := (de_pending d)(q \<mapsto> \<lparr>pe_sent = False, pe_promise = de_promises d\<rparr>),
                     de_promises := de_promises d + 1\<rparr>)
     in (Inr (Some m), d\<lparr>de_newQueryID := q\<rparr>))"

definition delegate_sent :: "QueryID \<Rightarrow> 'm Delegate \<Rightarrow> 'm Delegate" where
  "delegate_sent q d = (case de_pending d q of
      None \<Rightarrow> d
    | Some p \<Rightarrow> d\<lparr>de_pending := (de_pending d)(q \<mapsto> p\<lparr>pe_sent := True\<rparr>)\<rparr>)"

definition delegate_settle :: "QueryID \<Rightarrow> (Pending \<Rightarrow> ('m option) result) \<Rightarrow> 'm Delegate \<Rightarrow> 'm Delegate" where
  "delegate_settle q outcome d = (case de_pending d q of
      None \<Rightarrow> d
    | Some p \<Rightarrow> d\<lparr>de_results := (de_results d)(pe_promise p \<mapsto> outcome p), de_pending := (de_pending d)(q := None)\<rparr>)"

definition delegate_recv :: "QueryID \<Rightarrow> 'm option \<Rightarrow> 'm Delegate \<Rightarrow> 'm Delegate" where
  "delegate_recv q response = delegate_settle q (\<lambda>_. Inr response)"

definition delegate_error :: "QueryID \<Rightarrow> AsyncError \<Rightarrow> 'm Delegate \<Rightarrow> 'm Delegate" where
  "delegate_error q status = delegate_settle q (\<lambda>p. Inl (NngExn (ae_status status)
    (if pe_sent p then ''Request could not be fulfilled.'' else ''Request could not be sent.'')))"

definition Delegate_handler :: "('m Delegate, 'm) AsyncRequest" where
  "Delegate_handler = \<lparr>aq_prep = delegate_prep, aq_sent = delegate_sent, aq_recv = delegate_recv, aq_error = delegate_error\<rparr>"

definition box_make :: "'p Communicator \<Rightarrow> ('p, 'm Delegate, 'm) Request" where
  "box_make c = snd (request_initialize (Some delegate_new) (request_make c))"

text \<open>\<open>Request_Box::request\<close>: the request, and then the future of the query it was given.\<close>

definition box_future :: "QueryID \<Rightarrow> ('p, 'm Delegate, 'm) Request \<Rightarrow> nat result \<times> ('p, 'm Delegate, 'm) Request" where
  "box_future qid s = (case cr_handler s of
      None \<Rightarrow> (Inl (Undefined ''null pointer''), s)
    | Some d \<Rightarrow> (case getFuture qid d of (r, d) \<Rightarrow> (r, s\<lparr>cr_handler := Some d\<rparr>)))"

definition box_request ::
    "nng_error + QueryID \<Rightarrow> 'm \<Rightarrow> ('p, 'm Delegate, 'm) Request \<Rightarrow> nat result \<times> ('p, 'm Delegate, 'm) Request" where
  "box_request made m s = (case request Delegate_handler made m s of
      (Inl e, s) \<Rightarrow> (Inl e, s)
    | (Inr qid, s) \<Rightarrow> box_future qid s)"

text \<open>
  The box releases its delegate before the request communicator is destroyed: promises that are
  still pending are broken, and the callbacks that run afterwards find no handler.
\<close>

definition delegate_destroy :: "'m Delegate \<Rightarrow> nat \<rightharpoonup> ('m option) result" where
  "delegate_destroy d = (\<lambda>n. if n \<in> pe_promise ` ran (de_pending d) then Some (Inl (StdExn ''broken promise'')) else de_results d n)"

definition box_destroy ::
    "('p, 'm Delegate, 'm) Request \<Rightarrow> (nat \<rightharpoonup> ('m option) result) \<times> ('p, 'm Delegate, 'm) Request" where
  "box_destroy s =
    (case cr_handler s of None \<Rightarrow> Map.empty | Some d \<Rightarrow> delegate_destroy d,
     request_destroy Delegate_handler (s\<lparr>cr_handler := None\<rparr>))"

section \<open>Runs\<close>

definition action_ids :: "('p, 'h, 'm) Request \<Rightarrow> QueryID list" where
  "action_ids s = map ac_queryID (cr_active s) @ map ac_queryID (cr_idle s)"

text \<open>
  What can happen to a request communicator, in any order: a request (a context that is made has a
  number no other context of it has), a completion, and a change of the socket.
\<close>

inductive request_step :: "('h, 'm) AsyncRequest \<Rightarrow> ('p, 'h, 'm) Request \<Rightarrow> ('p, 'h, 'm) Request \<Rightarrow> bool" for H where
  request: "\<forall>q. made = Inr q \<longrightarrow> q \<notin> set (action_ids s) \<Longrightarrow> request_step H s (snd (request H made m s))"
| complete: "request_step H s (request_complete H q aioResult s)"
| socket: "request_step H s (s\<lparr>co_socket := sock\<rparr>)"

text \<open>Besides, the handler may expire and another be installed.\<close>

inductive request_life :: "('h, 'm) AsyncRequest \<Rightarrow> ('p, 'h, 'm) Request \<Rightarrow> ('p, 'h, 'm) Request \<Rightarrow> bool" for H where
  step: "request_step H s s' \<Longrightarrow> request_life H s s'"
| expire: "request_life H s (s\<lparr>cr_handler := None\<rparr>)"
| install: "request_life H s (snd (request_initialize h s))"

text \<open>
  A history with the numbers of the actions that were made and of those that were lost: a request takes an action from the pool or makes one, and loses
  it when the handler throws.
\<close>

definition request_takes :: "nng_error + QueryID \<Rightarrow> ('p, 'h, 'm) Request \<Rightarrow> QueryID set" where
  "request_takes ctx s =
    (if communicator_isReady s \<and> cr_handler s \<noteq> None
     then (case allocate ctx (cr_idle s) of Inl _ \<Rightarrow> {} | Inr (a, _) \<Rightarrow> {ac_queryID a}) else {})"

definition request_throws :: "('h, 'm) AsyncRequest \<Rightarrow> nng_error + QueryID \<Rightarrow> 'm \<Rightarrow> ('p, 'h, 'm) Request \<Rightarrow> bool" where
  "request_throws H ctx m s \<longleftrightarrow> (\<exists>q \<in> request_takes ctx s. isl (fst (aq_prep H q m (the (cr_handler s)))))"

inductive request_history ::
    "('h, 'm) AsyncRequest \<Rightarrow> 'p Communicator \<Rightarrow> QueryID set \<Rightarrow> QueryID set \<Rightarrow> ('p, 'h, 'm) Request \<Rightarrow> bool" for H c where
  make: "request_history H c {} {} (request_make c)"
| request: "request_history H c made lost s \<Longrightarrow> \<forall>q. ctx = Inr q \<longrightarrow> q \<notin> made \<Longrightarrow>
    request_history H c (made \<union> request_takes ctx s) (if request_throws H ctx m s then lost \<union> request_takes ctx s else lost) (snd (request H ctx m s))"
| complete: "request_history H c made lost s \<Longrightarrow> request_history H c made lost (request_complete H q aioResult s)"
| socket: "request_history H c made lost s \<Longrightarrow> request_history H c made lost (s\<lparr>co_socket := sock\<rparr>)"
| expire: "request_history H c made lost s \<Longrightarrow> request_history H c made lost (s\<lparr>cr_handler := None\<rparr>)"
| install: "request_history H c made lost s \<Longrightarrow> request_history H c made lost (snd (request_initialize h s))"

definition action_busy :: "'m Action \<Rightarrow> bool" where
  "action_busy a \<longleftrightarrow> ac_state a = SEND \<and> (\<exists>m. ac_aio a = AioSending m) \<or> ac_state a = RECV \<and> ac_aio a = AioReceiving"

definition action_rests :: "'m Action \<Rightarrow> bool" where
  "action_rests a \<longleftrightarrow> ac_state a = IDLE \<and> ac_aio a = AioIdle"

definition request_inv :: "('p, 'h, 'm) Request \<Rightarrow> bool" where
  "request_inv s \<longleftrightarrow> distinct (action_ids s) \<and> list_all action_busy (cr_active s) \<and> list_all action_rests (cr_idle s)"

lemma find_active: "find (\<lambda>a. ac_queryID a = q) as = Some a \<Longrightarrow> a \<in> set as \<and> ac_queryID a = q"
  by (auto simp: find_Some_iff)

lemma ids_set_active [simp]:
  "map ac_queryID (set_active a as) = map ac_queryID as"
  by (induction as) (simp_all add: set_active_def)

lemma ids_erase_active [simp]:
  "map ac_queryID (erase_active q as) = filter (\<lambda>p. p \<noteq> q) (map ac_queryID as)"
  by (induction as) (simp_all add: erase_active_def)

lemma in_set_active: "b \<in> set (set_active a as) \<Longrightarrow> b = a \<or> b \<in> set as \<and> ac_queryID b \<noteq> ac_queryID a"
  by (auto simp: set_active_def split: if_splits)

lemma in_erase_active [simp]: "b \<in> set (erase_active q as) \<longleftrightarrow> b \<in> set as \<and> ac_queryID b \<noteq> q"
  by (auto simp: erase_active_def)

text \<open>What the two operations do to the actions.\<close>

lemma request_accepts:
  assumes "request H made m s = (Inr q, s')"
  obtains h a idle m' h' where "cr_handler s = Some h" "allocate made (cr_idle s) = Inr (a, idle)" "ac_queryID a = q"
    "aq_prep H q m h = (Inr (Some m'), h')"
    "s' = s\<lparr>cr_handler := Some h', cr_idle := idle, cr_active := a\<lparr>ac_state := SEND, ac_aio := AioSending m'\<rparr> # cr_active s\<rparr>"
  using assms by (auto simp: request_def split: if_splits option.splits sum.splits prod.splits)

lemma request_refuses:
  assumes "request H made m s = (Inl e, s')"
  obtains "s' = s"
  | h a idle h' r where "cr_handler s = Some h" "allocate made (cr_idle s) = Inr (a, idle)"
      "aq_prep H (ac_queryID a) m h = (r, h')" "\<nexists>m'. r = Inr (Some m')"
      "s' = s\<lparr>cr_handler := Some h', cr_idle := (if r = Inr None then a # idle else idle)\<rparr>"
proof (cases "s' = s")
  case False
  with assms obtain h a idle where h: "communicator_isReady s" "cr_handler s = Some h" "allocate made (cr_idle s) = Inr (a, idle)"
    by (auto simp: request_def split: if_splits option.splits sum.splits)
  obtain r h' where p: "aq_prep H (ac_queryID a) m h = (r, h')" by (cases "aq_prep H (ac_queryID a) m h")
  have "\<nexists>m'. r = Inr (Some m')" "s' = s\<lparr>cr_handler := Some h', cr_idle := (if r = Inr None then a # idle else idle)\<rparr>"
    using assms h p by (auto simp: request_def split: option.splits sum.splits)
  with h p show ?thesis by (intro that(2)) simp_all
qed (rule that(1))

lemma allocate_fresh:
  assumes "request_inv s" "\<forall>q. made = Inr q \<longrightarrow> q \<notin> set (action_ids s)" "allocate made (cr_idle s) = Inr (a, idle)"
  shows "action_rests a \<and> list_all action_rests idle \<and> distinct (ac_queryID a # map ac_queryID (cr_active s) @ map ac_queryID idle)"
  using assms by (auto simp: allocate_def request_inv_def action_ids_def action_rests_def split: list.splits sum.splits)

lemma callback_advances:
  assumes "ac_state a = SEND" "cr_handler s = Some h"
  shows "action_callback H (Inr r) a s = s\<lparr>cr_handler := Some (aq_sent H (ac_queryID a) h),
    cr_active := set_active (a\<lparr>ac_state := RECV, ac_aio := AioReceiving\<rparr>) (cr_active s)\<rparr>"
  using assms by (simp add: action_callback_def action_deliver_def)

lemma callback_finishes:
  assumes "ac_state a \<noteq> SEND \<or> cr_handler s = None \<or> isl r"
  shows "action_callback H r a s = s\<lparr>cr_handler := snd (action_deliver H r a (cr_handler s)),
    cr_active := erase_active (ac_queryID a) (cr_active s),
    cr_idle := cr_idle s @ [a\<lparr>ac_state := IDLE, ac_aio := AioIdle\<rparr>]\<rparr>"
  using assms by (cases "ac_state a")
    (auto simp: action_callback_def action_deliver_def split: option.splits sum.splits ACTION_STATE.splits)

lemma request_inv_request:
  assumes "request_inv s" "\<forall>q. made = Inr q \<longrightarrow> q \<notin> set (action_ids s)" "request H made m s = (r, s')"
  shows "request_inv s'"
proof (cases r)
  case (Inl e)
  with assms(3) have "request H made m s = (Inl e, s')" by simp
  then show ?thesis
  proof (cases rule: request_refuses)
    case (2 h a idle h' r)
    from allocate_fresh [OF assms(1,2) 2(2)] 2(5) assms(1) show ?thesis by (simp add: request_inv_def action_ids_def)
  qed (use assms(1) in simp)
next
  case (Inr q)
  with assms(3) have "request H made m s = (Inr q, s')" by simp
  then obtain h a idle m' h' where "allocate made (cr_idle s) = Inr (a, idle)"
    "s' = s\<lparr>cr_handler := Some h', cr_idle := idle, cr_active := a\<lparr>ac_state := SEND, ac_aio := AioSending m'\<rparr> # cr_active s\<rparr>"
    by (rule request_accepts)
  with allocate_fresh [OF assms(1,2)] assms(1) show ?thesis
    by (fastforce simp: request_inv_def action_ids_def action_busy_def)
qed

lemma request_inv_callback:
  assumes "request_inv s" "a \<in> set (cr_active s)"
  shows "request_inv (action_callback H r a s)"
proof (cases "ac_state a \<noteq> SEND \<or> cr_handler s = None \<or> isl r")
  case True
  have "distinct (filter (\<lambda>q. q \<noteq> ac_queryID a) (map ac_queryID (cr_active s)) @ map ac_queryID (cr_idle s) @ [ac_queryID a])"
    using assms by (auto simp: request_inv_def action_ids_def)
  with assms show ?thesis unfolding callback_finishes [OF True]
    by (auto simp: request_inv_def action_ids_def list_all_iff action_rests_def)
next
  case False
  then obtain h m where "ac_state a = SEND" "cr_handler s = Some h" "r = Inr m" by (cases r) auto
  with callback_advances [of a s h H m] assms show ?thesis
    by (auto simp: request_inv_def action_ids_def list_all_iff action_busy_def dest!: in_set_active)
qed

lemma request_inv_complete: "request_inv s \<Longrightarrow> request_inv (request_complete H q r s)"
  by (auto simp: request_complete_def request_inv_callback dest!: find_active split: option.split)

lemma request_inv_step: "request_step H s s' \<Longrightarrow> request_inv s \<Longrightarrow> request_inv s'"
proof (induction rule: request_step.induct)
  case (request made s m)
  then show ?case using request_inv_request [of s made H m "fst (request H made m s)"] by simp
qed (simp_all add: request_inv_complete, simp add: request_inv_def action_ids_def)

lemma request_inv_life: "request_life H s s' \<Longrightarrow> request_inv s \<Longrightarrow> request_inv s'"
  by (induction rule: request_life.induct)
    (auto simp: request_inv_step, auto simp: request_inv_def action_ids_def request_initialize_def)

lemma request_inv_make: "request_inv (request_make c)"
  by (simp add: request_inv_def request_make_def action_ids_def)

lemma request_inv_reach: "(request_life H)\<^sup>*\<^sup>* s s' \<Longrightarrow> request_inv s \<Longrightarrow> request_inv s'"
  by (induction rule: rtranclp_induct) (auto intro: request_inv_life)

section \<open>Cancelling\<close>

lemma complete_canceled:
  "cr_active (request_complete H q (Inl e) s) = erase_active q (cr_active s)"
proof (cases "find (\<lambda>a. ac_queryID a = q) (cr_active s)")
  case None
  then have "erase_active q (cr_active s) = cr_active s"
    by (auto simp: find_None_iff erase_active_def intro!: filter_True)
  with None show ?thesis by (simp add: request_complete_def)
next
  case (Some a)
  with find_active [OF Some] show ?thesis by (simp add: request_complete_def callback_finishes)
qed

lemma complete_ids: "set (action_ids (request_complete H q r s)) = set (action_ids s)"
proof (cases "find (\<lambda>a. ac_queryID a = q) (cr_active s)")
  case (Some a)
  note a = find_active [OF Some]
  show ?thesis
  proof (cases "ac_state a \<noteq> SEND \<or> cr_handler s = None \<or> isl r")
    case True
    with Some a show ?thesis by (auto simp: request_complete_def callback_finishes action_ids_def)
  next
    case False
    then obtain h m where "ac_state a = SEND" "cr_handler s = Some h" "r = Inr m" by (cases r) auto
    with Some show ?thesis
      by (auto simp: request_complete_def callback_advances action_ids_def simp flip: set_map)
  qed
qed (simp add: request_complete_def)

lemma cancel_fold:
  "cr_active (fold (\<lambda>q. request_complete H q (Inl e)) qs s) = filter (\<lambda>a. ac_queryID a \<notin> set qs) (cr_active s) \<and>
    set (action_ids (fold (\<lambda>q. request_complete H q (Inl e)) qs s)) = set (action_ids s)"
  by (induction qs arbitrary: s)
    (auto simp: complete_canceled complete_ids erase_active_def intro!: filter_cong)

lemma cancelAll_empties:
  "cr_active (request_cancelAll H s) = [] \<and> set (map ac_queryID (cr_idle (request_cancelAll H s))) = set (action_ids s)"
  using cancel_fold [of H nng_canceled "map ac_queryID (cr_active s)" s]
  by (auto simp: request_cancelAll_def action_ids_def)

lemma stats_count:
  "awaiting_send (fold count_stats as n) = awaiting_send n + length (filter (\<lambda>a. ac_state a = SEND) as) \<and>
    awaiting_recv (fold count_stats as n) = awaiting_recv n + length (filter (\<lambda>a. ac_state a = RECV) as)"
  by (induction as arbitrary: n) (auto simp: count_stats_def split: ACTION_STATE.split)

lemma busy_split:
  "list_all action_busy as \<Longrightarrow> length (filter (\<lambda>a. ac_state a = SEND) as) + length (filter (\<lambda>a. ac_state a = RECV) as) = length as"
  by (induction as) (auto simp: action_busy_def)

section \<open>Waiting for the actions\<close>

text \<open>A completion takes an active action from sending to receiving, or back to the pool.\<close>

definition request_weight :: "('p, 'h, 'm) Request \<Rightarrow> nat" where
  "request_weight s = 2 * awaiting_send (request_msgStats s) + awaiting_recv (request_msgStats s)"

fun action_weight :: "'m Action \<Rightarrow> nat" where
  "action_weight a = (case ac_state a of SEND \<Rightarrow> 2 | RECV \<Rightarrow> 1 | IDLE \<Rightarrow> 0)"

lemma request_weight_sum: "request_weight s = sum_list (map action_weight (cr_active s))"
proof -
  have "2 * length (filter (\<lambda>a. ac_state a = SEND) as) + length (filter (\<lambda>a. ac_state a = RECV) as) = sum_list (map action_weight as)" for as :: "'c Action list"
    by (induction as) (auto split: ACTION_STATE.split)
  then show ?thesis using stats_count [of "cr_active s" "\<lparr>awaiting_send = 0, awaiting_recv = 0\<rparr>"] by (simp add: request_weight_def request_msgStats_def)
qed

lemma request_weight_le: "request_weight s \<le> 2 * length (cr_active s)"
proof -
  have "sum_list (map action_weight as) \<le> 2 * length as" for as :: "'c Action list"
    by (induction as) (auto split: ACTION_STATE.split)
  then show ?thesis by (simp add: request_weight_sum)
qed

lemma request_weight_active: "request_inv s \<Longrightarrow> cr_active s \<noteq> [] \<Longrightarrow> 0 < request_weight s"
  by (cases "cr_active s") (auto simp: request_weight_sum request_inv_def action_busy_def)

lemma weight_erase: "a \<in> set as \<Longrightarrow> sum_list (map action_weight (erase_active (ac_queryID a) as)) + action_weight a \<le> sum_list (map action_weight as)"
proof (induction as)
  case (Cons b as)
  have "sum_list (map action_weight (filter P as)) \<le> sum_list (map action_weight as)" for P by (induction as) auto
  with Cons show ?case by (auto simp: erase_active_def simp del: action_weight.simps)
qed simp

lemma weight_set:
  "distinct (map ac_queryID as) \<Longrightarrow> a \<in> set as \<Longrightarrow> ac_queryID b = ac_queryID a \<Longrightarrow>
    sum_list (map action_weight (set_active b as)) + action_weight a = sum_list (map action_weight as) + action_weight b"
proof (induction as)
  case (Cons x as)
  have other: "set_active b as = as" if "ac_queryID b \<notin> ac_queryID ` set as"
    using that by (induction as) (auto simp: set_active_def)
  show ?case
  proof (cases "x = a")
    case True
    with Cons.prems other show ?thesis by (simp add: set_active_def)
  next
    case False
    with Cons.prems have "a \<in> set as" "ac_queryID x \<noteq> ac_queryID b" by force+
    with Cons show ?thesis by (simp add: set_active_def)
  qed
qed simp

lemma complete_weight:
  assumes "request_inv s" "q \<in> ac_queryID ` set (cr_active s)"
  shows "request_weight (request_complete H q r s) < request_weight s"
proof -
  obtain a where f: "find (\<lambda>a. ac_queryID a = q) (cr_active s) = Some a" using assms(2) by (cases "find (\<lambda>a. ac_queryID a = q) (cr_active s)") (auto simp: find_None_iff)
  note a = find_active [OF f]
  have busy: "action_busy a" and d: "distinct (map ac_queryID (cr_active s))"
    using assms(1) a by (auto simp: request_inv_def action_ids_def list_all_iff)
  show ?thesis
  proof (cases "ac_state a \<noteq> SEND \<or> cr_handler s = None \<or> isl r")
    case True
    with f busy weight_erase [of a "cr_active s"] a show ?thesis
      by (auto simp: request_weight_sum request_complete_def callback_finishes action_busy_def)
  next
    case False
    then obtain h m where "ac_state a = SEND" "cr_handler s = Some h" "r = Inr m" by (cases r) auto
    with f weight_set [OF d, of a "a\<lparr>ac_state := RECV, ac_aio := AioReceiving\<rparr>"] a show ?thesis
      by (simp add: request_weight_sum request_complete_def callback_advances)
  qed
qed

text \<open>How many of some completions are of an action that is active then.\<close>

fun completions :: "('h, 'm) AsyncRequest \<Rightarrow> (QueryID \<times> (nng_error + 'm option)) list \<Rightarrow> ('p, 'h, 'm) Request \<Rightarrow> nat" where
  "completions H [] s = 0"
| "completions H ((q, r) # evs) s =
    (if q \<in> ac_queryID ` set (cr_active s) then 1 else 0) + completions H evs (request_complete H q r s)"

lemma complete_inactive: "q \<notin> ac_queryID ` set (cr_active s) \<Longrightarrow> request_complete H q r s = s"
  by (auto simp: request_complete_def split: option.split dest: find_active)

lemma request_waits:
  assumes "request_inv s" "request_wait H evs s = None"
  shows "completions H evs s < request_weight s"
  using assms
proof (induction H evs s rule: request_wait.induct)
  case (1 H s)
  then show ?case using request_weight_active by (auto split: if_splits)
next
  case (2 H q r evs s)
  then have "completions H evs (request_complete H q r s) < request_weight (request_complete H q r s)"
    by (simp add: request_inv_complete split: if_splits)
  with complete_weight [OF "2.prems"(1), of q H r] complete_inactive [of q s H r] show ?case by auto
qed

lemma request_wait_ends: "request_wait H evs s = Some s' \<Longrightarrow> cr_active s' = [] \<and> set (map ac_queryID (cr_idle s')) = set (action_ids s)"
proof (induction H evs s rule: request_wait.induct)
  case (2 H q r evs s)
  show ?case
  proof (cases "cr_active s = []")
    case True
    with 2 show ?thesis by (auto simp: action_ids_def)
  next
    case False
    with 2 show ?thesis by (simp add: complete_ids)
  qed
qed (auto simp: action_ids_def split: if_splits)

lemma canceled_wait:
  "filter (\<lambda>a. ac_queryID a \<notin> set qs) (cr_active s) = [] \<Longrightarrow>
    request_wait H (map (\<lambda>q. (q, Inl e)) qs) s = Some (fold (\<lambda>q. request_complete H q (Inl e)) qs s)"
proof (induction qs arbitrary: s)
  case (Cons q qs)
  have idle: "fold (\<lambda>q. request_complete H q (Inl e)) xs s = s" if "cr_active s = []" for xs
    using that by (induction xs) (simp_all add: request_complete_def)
  have "filter (\<lambda>a. ac_queryID a \<notin> set qs) (cr_active (request_complete H q (Inl e) s)) = []"
    using Cons.prems by (auto simp: complete_canceled filter_empty_conv)
  with Cons.IH idle [of "q # qs"] show ?case by auto
qed simp

lemma cancelAll_wait: "request_wait H (map (\<lambda>q. (q, Inl nng_canceled)) (map ac_queryID (cr_active s))) s = Some (request_cancelAll H s)"
  unfolding request_cancelAll_def by (rule canceled_wait) (simp add: filter_empty_conv)

section \<open>Accounting for the actions\<close>

lemma request_actions:
  assumes "request_inv s" "\<forall>q. ctx = Inr q \<longrightarrow> q \<notin> set (action_ids s)"
  shows "set (action_ids (snd (request H ctx m s))) =
    (if request_throws H ctx m s then set (action_ids s) - request_takes ctx s else set (action_ids s) \<union> request_takes ctx s)"
proof (cases "request_takes ctx s = {}")
  case True
  then have "snd (request H ctx m s) = s"
    by (auto simp: request_takes_def request_def split: if_splits option.splits sum.splits)
  with True show ?thesis by (simp add: request_throws_def)
next
  case False
  then obtain h a idle where h: "communicator_isReady s" "cr_handler s = Some h" "allocate ctx (cr_idle s) = Inr (a, idle)" "request_takes ctx s = {ac_queryID a}"
    by (auto simp: request_takes_def split: if_splits sum.splits)
  have ids: "ac_queryID a \<notin> set (map ac_queryID (cr_active s)) \<union> set (map ac_queryID idle)"
    "set (map ac_queryID (cr_idle s)) - {ac_queryID a} = set (map ac_queryID idle)"
    using allocate_fresh [OF assms h(3)] h(3) assms(2) by (auto simp: allocate_def action_ids_def split: list.splits sum.splits)
  obtain x h' where p: "aq_prep H (ac_queryID a) m h = (x, h')" by fastforce
  have t: "request_throws H ctx m s \<longleftrightarrow> isl x" using h p by (simp add: request_throws_def)
  show ?thesis using h(1-3) p ids unfolding t h(4) by (cases x) (auto simp: request_def action_ids_def split: option.split)
qed

lemma request_history_inv:
  assumes "request_history H c made lost s"
  shows "request_inv s \<and> made = set (action_ids s) \<union> lost \<and> set (action_ids s) \<inter> lost = {}"
  using assms
proof (induction rule: request_history.induct)
  case make
  show ?case by (simp add: request_inv_make) (simp add: request_make_def action_ids_def)
next
  case (request made lost s ctx m)
  then have fresh: "\<forall>q. ctx = Inr q \<longrightarrow> q \<notin> set (action_ids s)" by auto
  have takes: "request_takes ctx s \<inter> lost = {}"
    using request by (auto simp: request_takes_def allocate_def action_ids_def split: if_splits sum.splits list.splits)
  have "request_inv (snd (request H ctx m s))" using request_inv_step [OF request_step.request [OF fresh]] request.IH by blast
  with request_actions [OF _ fresh, of H m] request.IH takes show ?case by auto
next
  case (complete made lost s q r)
  then show ?case by (simp add: request_inv_complete complete_ids)
next
  case (install made lost s h)
  then show ?case using request_inv_life [OF request_life.install] by (auto simp: request_initialize_def action_ids_def request_inv_def)
qed (auto simp: request_inv_def action_ids_def)

lemma request_lost:
  assumes "request_history H c made lost s" "\<forall>q m h. \<not> isl (fst (aq_prep H q m h))"
  shows "lost = {}"
  using assms by (induction rule: request_history.induct) (simp_all add: request_throws_def)

section \<open>The contract of a request handler\<close>

text \<open>The state of a query: that of its action, and idle when no action has its number.\<close>

definition query_state :: "QueryID \<Rightarrow> 'm Action list \<Rightarrow> ACTION_STATE" where
  "query_state q as = (case find (\<lambda>a. ac_queryID a = q) as of None \<Rightarrow> IDLE | Some a \<Rightarrow> ac_state a)"

lemma query_state_Cons [simp]:
  "query_state q (a # as) = (if ac_queryID a = q then ac_state a else query_state q as)"
  by (simp add: query_state_def)

lemma query_state_unknown: "q \<notin> ac_queryID ` set as \<Longrightarrow> query_state q as = IDLE"
  by (auto simp: query_state_def find_None_iff split: option.split dest: find_active)

lemma query_state_set_active [simp]:
  "query_state q (set_active a as) = (if q = ac_queryID a \<and> q \<in> ac_queryID ` set as then ac_state a else query_state q as)"
  by (induction as) (auto simp: set_active_def query_state_unknown)

lemma query_state_erase [simp]:
  "query_state q (erase_active p as) = (if q = p then IDLE else query_state q as)"
  by (induction as) (auto simp: erase_active_def query_state_unknown)

lemma query_state_found: "find (\<lambda>a. ac_queryID a = q) as = Some a \<Longrightarrow> query_state q as = ac_state a"
  by (simp add: query_state_def)

text \<open>
  A handler whose state agrees with the states of the queries, in the sense of \<open>agrees\<close>, keeps agreeing:
  it is told of every change exactly once. That is what a request communicator promises to every such
  handler.
\<close>

locale query_handler =
  fixes H :: "('h, 'm) AsyncRequest" and agrees :: "(QueryID \<Rightarrow> ACTION_STATE) \<Rightarrow> 'h \<Rightarrow> bool"
  assumes accepted: "agrees f h \<Longrightarrow> f q = IDLE \<Longrightarrow> aq_prep H q m h = (Inr (Some m'), h') \<Longrightarrow> agrees (f(q := SEND)) h'"
    and declined: "agrees f h \<Longrightarrow> f q = IDLE \<Longrightarrow> aq_prep H q m h = (r, h') \<Longrightarrow> \<nexists>m'. r = Inr (Some m') \<Longrightarrow> agrees f h'"
    and sent: "agrees f h \<Longrightarrow> f q = SEND \<Longrightarrow> agrees (f(q := RECV)) (aq_sent H q h)"
    and answered: "agrees f h \<Longrightarrow> f q = RECV \<Longrightarrow> agrees (f(q := IDLE)) (aq_recv H q x h)"
    and failed: "agrees f h \<Longrightarrow> f q \<noteq> IDLE \<Longrightarrow> agrees (f(q := IDLE)) (aq_error H q e h)"
begin

definition follows :: "('p, 'h, 'm) Request \<Rightarrow> bool" where
  "follows s \<longleftrightarrow> request_inv s \<and> (\<exists>h. cr_handler s = Some h \<and> agrees (\<lambda>q. query_state q (cr_active s)) h)"

lemma follows_request:
  assumes "follows s" "\<forall>q. made = Inr q \<longrightarrow> q \<notin> set (action_ids s)" "request H made m s = (r, s')"
  shows "follows s'"
proof -
  from assms(1) obtain h where inv: "request_inv s" and h: "cr_handler s = Some h"
    "agrees (\<lambda>q. query_state q (cr_active s)) h" by (auto simp: follows_def)
  have inv': "request_inv s'" using request_inv_request [OF inv assms(2,3)] .
  have idle: "query_state (ac_queryID a) (cr_active s) = IDLE" if "allocate made (cr_idle s) = Inr (a, idle)" for a idle
    using allocate_fresh [OF inv assms(2) that] by (intro query_state_unknown) auto
  show ?thesis
  proof (cases r)
    case (Inl e)
    with assms(3) have "request H made m s = (Inl e, s')" by simp
    then show ?thesis
    proof (cases rule: request_refuses)
      case (2 h1 a idle h' r)
      have "agrees (\<lambda>q. query_state q (cr_active s)) h'"
        using declined [OF h(2) idle [OF 2(2)]] 2 h(1) by simp
      with 2 inv' show ?thesis by (simp add: follows_def)
    qed (use assms(1) in simp)
  next
    case (Inr q)
    with assms(3) have "request H made m s = (Inr q, s')" by simp
    then show ?thesis
    proof (cases rule: request_accepts)
      case (1 h1 a idle m' h')
      have "agrees ((\<lambda>q. query_state q (cr_active s))(q := SEND)) h'"
        using accepted [OF h(2) idle [OF 1(2)]] 1 h(1) by simp
      moreover have "(\<lambda>q. query_state q (cr_active s')) = (\<lambda>q. query_state q (cr_active s))(q := SEND)"
        using 1 by auto
      ultimately show ?thesis using 1 inv' by (simp add: follows_def)
    qed
  qed
qed

lemma follows_complete:
  assumes "follows s"
  shows "follows (request_complete H q r s)"
proof (cases "find (\<lambda>a. ac_queryID a = q) (cr_active s)")
  case (Some a)
  from assms obtain h where inv: "request_inv s" and h: "cr_handler s = Some h"
    "agrees (\<lambda>q. query_state q (cr_active s)) h" by (auto simp: follows_def)
  have inv': "request_inv (action_callback H r a s)"
    using request_inv_complete [OF inv, of H q r] Some by (simp add: request_complete_def)
  note a = find_active [OF Some] query_state_found [OF Some]
  have finished: "(\<lambda>p. query_state p (erase_active q (cr_active s))) = (\<lambda>p. query_state p (cr_active s))(q := IDLE)" by auto
  have sending: "(\<lambda>p. query_state p (set_active (a\<lparr>ac_state := RECV, ac_aio := AioReceiving\<rparr>) (cr_active s))) =
      (\<lambda>p. query_state p (cr_active s))(q := RECV)" using a by auto
  from a inv have "ac_state a = SEND \<or> ac_state a = RECV" by (auto simp: request_inv_def list_all_iff action_busy_def)
  then show ?thesis
  proof
    assume "ac_state a = SEND"
    with Some a h inv' sent [OF h(2), of q] failed [OF h(2), of q] show ?thesis
      by (cases r) (simp_all add: follows_def request_complete_def callback_advances callback_finishes action_deliver_def finished sending
        del: query_state_erase query_state_set_active)
  next
    assume "ac_state a = RECV"
    with Some a h inv' answered [OF h(2), of q] failed [OF h(2), of q] show ?thesis
      by (cases r) (simp_all add: follows_def request_complete_def callback_finishes action_deliver_def finished
        del: query_state_erase)
  qed
qed (use assms in \<open>simp add: request_complete_def\<close>)

lemma follows_step: "request_step H s s' \<Longrightarrow> follows s \<Longrightarrow> follows s'"
proof (induction rule: request_step.induct)
  case (request made s m)
  then show ?case using follows_request [of s made m "fst (request H made m s)"] by simp
next
  case (complete s q r)
  then show ?case by (rule follows_complete)
next
  case (socket s sock)
  then show ?case by (simp add: follows_def request_inv_def action_ids_def)
qed

lemma follows_make: "agrees (\<lambda>_. IDLE) h \<Longrightarrow> follows ((request_make c)\<lparr>cr_handler := Some h\<rparr>)"
  using request_inv_make [of c] by (simp add: follows_def request_inv_def action_ids_def request_make_def query_state_unknown)

lemma follows_reach: "(request_step H)\<^sup>*\<^sup>* s s' \<Longrightarrow> follows s \<Longrightarrow> follows s'"
  by (induction rule: rtranclp_induct) (auto intro: follows_step)

lemma follows_cancelAll: "follows s \<Longrightarrow> follows (request_cancelAll H s)"
proof -
  have "follows s \<Longrightarrow> follows (fold (\<lambda>q. request_complete H q (Inl nng_canceled)) qs s)" for qs
    by (induction qs arbitrary: s) (auto intro: follows_complete)
  then show "follows s \<Longrightarrow> follows (request_cancelAll H s)" by (simp add: request_cancelAll_def)
qed

end

section \<open>The course of a query\<close>

text \<open>A handler that records what it is told; it declines the messages that it does not accept.\<close>

datatype 'm query_event = Asked QueryID | Delivered QueryID | Answered QueryID "'m option" | Broken QueryID nng_error

primrec event_query :: "'m query_event \<Rightarrow> QueryID" where
  "event_query (Asked q) = q"
| "event_query (Delivered q) = q"
| "event_query (Answered q m) = q"
| "event_query (Broken q e) = q"

definition query_log :: "('m \<Rightarrow> bool) \<Rightarrow> ('m query_event list, 'm) AsyncRequest" where
  "query_log accept =
    \<lparr>aq_prep = (\<lambda>q m l. if accept m then (Inr (Some m), l @ [Asked q]) else (Inr None, l)),
     aq_sent = (\<lambda>q l. l @ [Delivered q]),
     aq_recv = (\<lambda>q m l. l @ [Answered q m]),
     aq_error = (\<lambda>q e l. l @ [Broken q (ae_status e)])\<rparr>"

fun phase_step :: "ACTION_STATE option \<Rightarrow> 'm query_event \<Rightarrow> ACTION_STATE option" where
  "phase_step (Some IDLE) (Asked q) = Some SEND"
| "phase_step (Some SEND) (Delivered q) = Some RECV"
| "phase_step (Some RECV) (Answered q m) = Some IDLE"
| "phase_step (Some SEND) (Broken q e) = Some IDLE"
| "phase_step (Some RECV) (Broken q e) = Some IDLE"
| "phase_step p e = None"

definition query_phase :: "QueryID \<Rightarrow> 'm query_event list \<Rightarrow> ACTION_STATE option" where
  "query_phase q l = foldl phase_step (Some IDLE) (filter (\<lambda>e. event_query e = q) l)"

lemma query_log_simps [simp]:
  "aq_prep (query_log accept) q m l = (if accept m then (Inr (Some m), l @ [Asked q]) else (Inr None, l))"
  "aq_sent (query_log accept) q l = l @ [Delivered q]"
  "aq_recv (query_log accept) q r l = l @ [Answered q r]"
  "aq_error (query_log accept) q e l = l @ [Broken q (ae_status e)]"
  by (simp_all add: query_log_def)

lemma query_phase_snoc [simp]:
  "query_phase q (l @ [e]) = (if event_query e = q then phase_step (query_phase q l) e else query_phase q l)"
  by (simp add: query_phase_def)

interpretation logged: query_handler "query_log accept" "\<lambda>f l. \<forall>q. query_phase q l = Some (f q)"
  by unfold_locales (auto split: if_splits, (metis ACTION_STATE.exhaust phase_step.simps(4,5))+)

section \<open>Promises\<close>

text \<open>
  How the delegate of a box agrees with the states of its queries: the pending queries are those
  under way, they know whether their request was sent, their promises are open and different, and
  every promise without a result is that of a pending query.
\<close>

definition delegate_agrees :: "(QueryID \<Rightarrow> ACTION_STATE) \<Rightarrow> 'm Delegate \<Rightarrow> bool" where
  "delegate_agrees f d \<longleftrightarrow>
    (\<forall>q. de_pending d q = None \<longrightarrow> f q = IDLE) \<and>
    (\<forall>q p. de_pending d q = Some p \<longrightarrow> f q = (if pe_sent p then RECV else SEND)) \<and>
    (\<forall>q p. de_pending d q = Some p \<longrightarrow> pe_promise p < de_promises d \<and> de_results d (pe_promise p) = None) \<and>
    (\<forall>q q' p p'. de_pending d q = Some p \<and> de_pending d q' = Some p' \<and> pe_promise p = pe_promise p' \<longrightarrow> q = q') \<and>
    (\<forall>n < de_promises d. de_results d n = None \<longrightarrow> (\<exists>q p. de_pending d q = Some p \<and> pe_promise p = n)) \<and>
    (\<forall>n \<ge> de_promises d. de_results d n = None)"

lemma Delegate_handler_simps [simp]:
  "aq_prep Delegate_handler = delegate_prep" "aq_sent Delegate_handler = delegate_sent"
  "aq_recv Delegate_handler = delegate_recv" "aq_error Delegate_handler = delegate_error"
  by (simp_all add: Delegate_handler_def)


lemma agreesD:
  assumes "delegate_agrees f d"
  shows "de_pending d q = None \<Longrightarrow> f q = IDLE"
    and "de_pending d q = Some p \<Longrightarrow> f q = (if pe_sent p then RECV else SEND) \<and> pe_promise p < de_promises d \<and> de_results d (pe_promise p) = None"
    and "de_pending d q = Some p \<Longrightarrow> de_pending d q' = Some p' \<Longrightarrow> pe_promise p = pe_promise p' \<Longrightarrow> q = q'"
    and "n < de_promises d \<Longrightarrow> de_results d n = None \<Longrightarrow> \<exists>q p. de_pending d q = Some p \<and> pe_promise p = n"
    and "n \<ge> de_promises d \<Longrightarrow> de_results d n = None"
  using assms unfolding delegate_agrees_def by blast+

lemma agrees_prep:
  assumes agrees: "delegate_agrees f d" and idle: "f q = IDLE"
  shows "delegate_agrees (f(q := SEND)) (snd (delegate_prep q m d)) \<and>
    de_pending (snd (delegate_prep q m d)) q = Some \<lparr>pe_sent = False, pe_promise = de_promises d\<rparr>"
proof -
  have none: "de_pending d q = None" using agreesD(2) [OF agrees, of q] idle by (cases "de_pending d q") (auto split: if_splits)
  then have d': "snd (delegate_prep q m d) = d\<lparr>de_pending := (de_pending d)(q \<mapsto> \<lparr>pe_sent = False, pe_promise = de_promises d\<rparr>),
      de_promises := Suc (de_promises d), de_newQueryID := q\<rparr>"
    by (simp add: delegate_prep_def domIff)
  have "delegate_agrees (f(q := SEND)) (snd (delegate_prep q m d))"
    unfolding d' delegate_agrees_def
  proof (intro conjI, goal_cases)
    case 1 then show ?case using agreesD(1) [OF agrees] by simp
  next
    case 2 then show ?case using agreesD(2) [OF agrees] by simp
  next
    case 3 then show ?case using agreesD(2,5) [OF agrees] by (simp add: less_SucI)
  next
    case 4
    have ne: "de_pending d r = Some p \<Longrightarrow> pe_promise p \<noteq> de_promises d" for r p
      using agreesD(2) [OF agrees, of r p] by simp
    show ?case using agreesD(3) [OF agrees] by (auto dest: ne not_sym [OF ne] split: if_splits)
  next
    case 5 then show ?case using agreesD(4) [OF agrees] none by (auto simp: less_Suc_eq) (metis option.distinct(1))
  next
    case 6 then show ?case using agreesD(5) [OF agrees] by simp
  qed
  then show ?thesis unfolding d' by simp
qed

lemma agrees_sent:
  assumes "delegate_agrees f d" "f q = SEND"
  shows "delegate_agrees (f(q := RECV)) (delegate_sent q d)"
proof -
  from assms obtain p where p: "de_pending d q = Some p"
    by (cases "de_pending d q") (auto simp: delegate_agrees_def)
  have "(\<exists>q' p'. ((de_pending d)(q \<mapsto> p\<lparr>pe_sent := True\<rparr>)) q' = Some p' \<and> pe_promise p' = n) \<longleftrightarrow>
      (\<exists>q' p'. de_pending d q' = Some p' \<and> pe_promise p' = n)" for n
    using p by (metis (no_types, lifting) Pending.select_convs(2) Pending.surjective Pending.update_convs(1) fun_upd_apply option.inject)
  with assms p show ?thesis unfolding delegate_agrees_def delegate_sent_def
    by (auto split: if_splits)
qed

lemma agrees_settle:
  assumes "delegate_agrees f d" "f q \<noteq> IDLE"
  shows "delegate_agrees (f(q := IDLE)) (delegate_settle q r d)"
proof -
  from assms obtain p where p: "de_pending d q = Some p"
    by (cases "de_pending d q") (auto simp: delegate_agrees_def)
  with assms have p': "pe_promise p < de_promises d" by (simp add: agreesD(2))
  with assms p have fresh: "\<forall>q' p'. q' \<noteq> q \<and> de_pending d q' = Some p' \<longrightarrow> pe_promise p' \<noteq> pe_promise p"
    by (metis agreesD(3))
  have "de_results d n = None \<Longrightarrow> n < de_promises d \<Longrightarrow> n \<noteq> pe_promise p \<Longrightarrow>
      \<exists>q' p'. q' \<noteq> q \<and> de_pending d q' = Some p' \<and> pe_promise p' = n" for n
    using agreesD(4) [OF assms(1)] p by (metis option.inject)
  note rest = this
  have d': "delegate_settle q r d = d\<lparr>de_results := (de_results d)(pe_promise p \<mapsto> r p), de_pending := (de_pending d)(q := None)\<rparr>"
    using p by (simp add: delegate_settle_def)
  show ?thesis unfolding d' delegate_agrees_def
  proof (intro conjI, goal_cases)
    case 1 then show ?case using agreesD(1) [OF assms(1)] by simp
  next
    case 2 then show ?case using agreesD(2) [OF assms(1)] by simp
  next
    case 3 then show ?case using agreesD(2) [OF assms(1)] fresh by simp
  next
    case 4 then show ?case using agreesD(3) [OF assms(1)] by (auto split: if_splits)
  next
    case 5 then show ?case using rest by (auto split: if_splits)
  next
    case 6 then show ?case using agreesD(5) [OF assms(1)] p' by simp
  qed
qed

interpretation boxed: query_handler Delegate_handler delegate_agrees
proof unfold_locales
  fix f :: "QueryID \<Rightarrow> ACTION_STATE" and d d' :: "'m Delegate" and q m m' r
  show "delegate_agrees f d \<Longrightarrow> f q = IDLE \<Longrightarrow> aq_prep Delegate_handler q m d = (Inr (Some m'), d') \<Longrightarrow>
      delegate_agrees (f(q := SEND)) d'"
    using agrees_prep [of f d q m] by simp
  show "delegate_agrees f d \<Longrightarrow> f q = IDLE \<Longrightarrow> aq_prep Delegate_handler q m d = (r, d') \<Longrightarrow>
      \<nexists>m'. r = Inr (Some m') \<Longrightarrow> delegate_agrees f d'"
    by (auto simp: delegate_prep_def Let_def)
qed (simp_all add: agrees_sent agrees_settle delegate_recv_def delegate_error_def)

text \<open>What can happen to a box: the steps of its communicator, and a thread that fetches a future.\<close>

inductive box_step :: "('p, 'm Delegate, 'm) Request \<Rightarrow> ('p, 'm Delegate, 'm) Request \<Rightarrow> bool" where
  step: "request_step Delegate_handler s s' \<Longrightarrow> box_step s s'"
| future: "box_step s (snd (box_future qid s))"

lemma follows_future: "boxed.follows s \<Longrightarrow> boxed.follows (snd (box_future qid s))"
  by (auto simp: boxed.follows_def request_inv_def action_ids_def box_future_def getFuture_def delegate_agrees_def
      split: option.splits)

lemma follows_box: "box_step s s' \<Longrightarrow> boxed.follows s \<Longrightarrow> boxed.follows s'"
  by (induction rule: box_step.induct) (auto intro: boxed.follows_step follows_future)

lemma box_make_eq: "box_make c = (request_make c)\<lparr>cr_handler := Some delegate_new\<rparr>"
  by (simp add: box_make_def request_initialize_def request_make_def)

lemma box_reach: "box_step\<^sup>*\<^sup>* (box_make c) s \<Longrightarrow> boxed.follows s"
proof (induction rule: rtranclp_induct)
  case base
  show ?case unfolding box_make_eq by (rule boxed.follows_make) (simp add: delegate_agrees_def delegate_new_def)
qed (rule follows_box)

lemma follows_open:
  assumes "boxed.follows s"
  obtains d where "cr_handler s = Some d" "delegate_agrees (\<lambda>q. query_state q (cr_active s)) d"
    "\<forall>n < de_promises d. de_results d n = None \<longrightarrow>
      (\<exists>a \<in> set (cr_active s). \<exists>p. de_pending d (ac_queryID a) = Some p \<and> pe_promise p = n)"
proof -
  from assms obtain d where d: "cr_handler s = Some d" "delegate_agrees (\<lambda>q. query_state q (cr_active s)) d"
    by (auto simp: boxed.follows_def)
  show thesis
  proof (rule that [OF d], intro allI impI)
    fix n assume "n < de_promises d" "de_results d n = None"
    with d(2) obtain q p where q: "de_pending d q = Some p" "pe_promise p = n" by (auto simp: delegate_agrees_def)
    with d(2) have "query_state q (cr_active s) \<noteq> IDLE" by (auto simp: delegate_agrees_def)
    then have "q \<in> ac_queryID ` set (cr_active s)" using query_state_unknown by blast
    with q show "\<exists>a \<in> set (cr_active s). \<exists>p. de_pending d (ac_queryID a) = Some p \<and> pe_promise p = n" by auto
  qed
qed

lemma callback_handler: "cr_handler (action_callback H x a s) = snd (action_deliver H x a (cr_handler s))"
  by (simp add: action_callback_def Let_def split: prod.split ACTION_STATE.split)

lemma request_handler:
  "cr_handler s = Some d \<Longrightarrow> cr_handler (snd (request H made m s)) = Some d' \<Longrightarrow>
    d' = d \<or> (\<exists>q y. aq_prep H q m d = (y, d'))"
  by (cases "allocate made (cr_idle s)") (auto simp: request_def split: if_splits option.splits sum.splits prod.splits)

lemma box_keeps_results:
  assumes "boxed.follows s" "box_step s s'" "cr_handler s = Some d" "cr_handler s' = Some d'" "de_results d n = Some r"
  shows "de_results d' n = Some r"
proof -
  have agrees: "delegate_agrees (\<lambda>q. query_state q (cr_active s)) d" using assms(1,3) by (simp add: boxed.follows_def)
  have settle: "de_results (delegate_settle q x d) n = Some r" for q x
    using agreesD(2) [OF agrees, of q] assms(5) by (auto simp: delegate_settle_def split: option.split)
  have prep: "aq_prep Delegate_handler q m d = (y, d1) \<Longrightarrow> de_results d1 n = Some r" for q m y d1
    using assms(5) by (auto simp: delegate_prep_def Let_def split: if_splits)
  have deliver: "snd (action_deliver Delegate_handler x a (Some d)) = Some d1 \<Longrightarrow> de_results d1 n = Some r" for x a d1
    using settle assms(5)
    by (auto simp: action_deliver_def delegate_recv_def delegate_error_def delegate_sent_def
        split: sum.splits ACTION_STATE.splits option.splits)
  from assms(2) show ?thesis
  proof cases
    case step
    then show ?thesis
    proof cases
      case (request made m)
      then show ?thesis using request_handler [of s d Delegate_handler made m d'] assms(3-5) prep by auto
    next
      case (complete q x)
      then show ?thesis using assms(3-5) deliver
        by (auto simp: request_complete_def callback_handler split: option.splits)
    qed (use assms in simp)
  next
    case (future q)
    then show ?thesis using assms(3-5) by (auto simp: box_future_def getFuture_def split: option.splits if_splits)
  qed
qed

section \<open>Properties\<close>

text \<open>
  C20. The actions of a request communicator are accounted for: whatever its handler does and even if it expires, every action that
  was made is active or in the pool, and only one of them, or was lost to an exception of the handler's \<open>async_prep\<close>; none is lost if that never throws. The actions in the pool are at rest, and the
  statistics count every active action once. The wait of the destructor ends, with all actions in the pool that were not lost, after at most two completions
  for each active action, whatever their results are and in whatever order they come.
\<close>

theorem request_pool:
  assumes "request_history H c made lost s"
  shows "made = set (action_ids s) \<union> lost \<and> distinct (action_ids s) \<and> set (action_ids s) \<inter> lost = {} \<and>
    ((\<forall>q m h. \<not> isl (fst (aq_prep H q m h))) \<longrightarrow> lost = {}) \<and> list_all action_rests (cr_idle s) \<and>
    awaiting_send (request_msgStats s) + awaiting_recv (request_msgStats s) = length (cr_active s) \<and>
    (2 * length (cr_active s) \<le> completions H evs s \<longrightarrow>
      (\<exists>s'. request_wait H evs s = Some s' \<and> cr_active s' = [] \<and> set (map ac_queryID (cr_idle s')) = made - lost))"
proof -
  have inv: "request_inv s" "made = set (action_ids s) \<union> lost" "set (action_ids s) \<inter> lost = {}"
    using request_history_inv [OF assms] by simp_all
  have "\<exists>s'. request_wait H evs s = Some s'" if "2 * length (cr_active s) \<le> completions H evs s"
    using request_waits [OF inv(1), of H evs] request_weight_le [of s] that by (cases "request_wait H evs s") auto
  moreover have "made - lost = set (action_ids s)" using inv(2,3) by blast
  moreover have "awaiting_send (request_msgStats s) + awaiting_recv (request_msgStats s) = length (cr_active s)"
    using inv(1) stats_count [of "cr_active s" "\<lparr>awaiting_send = 0, awaiting_recv = 0\<rparr>"] busy_split [of "cr_active s"]
    by (simp add: request_msgStats_def request_inv_def)
  ultimately show ?thesis using inv request_lost [OF assms] request_wait_ends [of H evs s] by (auto simp: request_inv_def)
qed

text \<open>
  C8. Every query runs its course: what a handler is told about a query is a sequence of rounds, in
  each of which the request is accepted, then reported sent, then answered, or is reported broken
  once in place of what is missing; and the action of the query is in the state that the reports
  say. In particular every accepted request is answered or broken at most once, and one that has been
  neither is still under way.
\<close>

theorem query_course:
  fixes s :: "('p, 'm query_event list, 'm) Request"
  assumes "(request_step (query_log accept))\<^sup>*\<^sup>* (snd (request_initialize (Some []) (request_make c))) s"
  shows "\<exists>l. cr_handler s = Some l \<and> (\<forall>q. query_phase q l = Some (query_state q (cr_active s)))"
proof -
  have start: "snd (request_initialize (Some []) (request_make c)) = (request_make c)\<lparr>cr_handler := Some ([] :: 'm query_event list)\<rparr>"
    by (simp add: request_initialize_def request_make_def)
  have "logged.follows ((request_make c)\<lparr>cr_handler := Some ([] :: 'm query_event list)\<rparr>)"
    by (rule logged.follows_make) (simp add: query_phase_def)
  then have "logged.follows s" by (rule logged.follows_reach [OF assms [unfolded start]])
  then show ?thesis unfolding logged.follows_def by blast
qed

text \<open>
  C9. No promise is forgotten: in every state a box can reach, also when threads fetch their futures
  late, the promises without a result are those of active queries; a result once given is never
  changed; and cancelling, or destroying the box, settles all the rest.
\<close>

theorem box_promises_settled:
  assumes "box_step\<^sup>*\<^sup>* (box_make c) s"
  shows "\<exists>d d'. cr_handler s = Some d \<and> cr_handler (request_cancelAll Delegate_handler s) = Some d' \<and>
    (\<forall>n < de_promises d. de_results d n = None \<longrightarrow>
      (\<exists>a \<in> set (cr_active s). \<exists>p. de_pending d (ac_queryID a) = Some p \<and> pe_promise p = n)) \<and>
    (\<forall>s1 d1. box_step s s1 \<and> cr_handler s1 = Some d1 \<longrightarrow> de_results d \<subseteq>\<^sub>m de_results d1) \<and>
    (\<forall>n < de_promises d'. de_results d' n \<noteq> None) \<and> (\<forall>n < de_promises d. fst (box_destroy s) n \<noteq> None)"
proof -
  have f: "boxed.follows s" using box_reach [OF assms] .
  then obtain d where d: "cr_handler s = Some d" "delegate_agrees (\<lambda>q. query_state q (cr_active s)) d"
    "\<forall>n < de_promises d. de_results d n = None \<longrightarrow>
      (\<exists>a \<in> set (cr_active s). \<exists>p. de_pending d (ac_queryID a) = Some p \<and> pe_promise p = n)"
    by (rule follows_open)
  obtain d' where d': "cr_handler (request_cancelAll Delegate_handler s) = Some d'"
    "\<forall>n < de_promises d'. de_results d' n = None \<longrightarrow>
      (\<exists>a \<in> set (cr_active (request_cancelAll Delegate_handler s)). \<exists>p. de_pending d' (ac_queryID a) = Some p \<and> pe_promise p = n)"
    using boxed.follows_cancelAll [OF f] by (rule follows_open)
  have "de_results d' n \<noteq> None" if "n < de_promises d'" for n
    using d'(2) that cancelAll_empties [of Delegate_handler s] by auto
  moreover have "fst (box_destroy s) n \<noteq> None" if "n < de_promises d" for n
    using agreesD(4) [OF d(2) that] d(1) by (auto simp: box_destroy_def delegate_destroy_def ran_def)
  moreover have "de_results d \<subseteq>\<^sub>m de_results d1" if "box_step s s1" "cr_handler s1 = Some d1" for s1 d1
    using box_keeps_results [OF f that(1) d(1) that(2)] by (auto simp: map_le_def)
  ultimately show ?thesis using d d'(1) by blast
qed

text \<open>What a future holds.\<close>

definition future_result :: "nat \<Rightarrow> ('p, 'm Delegate, 'm) Request \<Rightarrow> ('m option) result option" where
  "future_result n s = (case cr_handler s of None \<Rightarrow> None | Some d \<Rightarrow> de_results d n)"

lemma box_request_state:
  assumes "boxed.follows s" "\<forall>q. made = Inr q \<longrightarrow> q \<notin> set (action_ids s)" "box_request made m s = (Inr n, s1)"
  obtains q a as d where "cr_active s1 = a # as" "ac_queryID a = q" "ac_state a = SEND" "cr_handler s1 = Some d"
    "de_pending d q = Some \<lparr>pe_sent = False, pe_promise = n\<rparr>"
proof -
  obtain q s0 where r: "request Delegate_handler made m s = (Inr q, s0)" "box_future q s0 = (Inr n, s1)"
    using assms(3) by (auto simp: box_request_def split: prod.splits sum.splits)
  from r(1) obtain h a idle m' h' where 1: "cr_handler s = Some h" "allocate made (cr_idle s) = Inr (a, idle)" "ac_queryID a = q"
    "aq_prep Delegate_handler q m h = (Inr (Some m'), h')"
    "s0 = s\<lparr>cr_handler := Some h', cr_idle := idle, cr_active := a\<lparr>ac_state := SEND, ac_aio := AioSending m'\<rparr> # cr_active s\<rparr>"
    by (rule request_accepts)
  have inv: "request_inv s" "delegate_agrees (\<lambda>q. query_state q (cr_active s)) h"
    using assms(1) 1(1) by (auto simp: boxed.follows_def)
  have "query_state q (cr_active s) = IDLE"
    using allocate_fresh [OF inv(1) assms(2) 1(2)] 1(3) by (intro query_state_unknown) auto
  with agrees_prep [OF inv(2), of q m] 1(4)
  have "de_pending h' q = Some \<lparr>pe_sent = False, pe_promise = de_promises h\<rparr>" by simp
  moreover with r(2) 1(5) have "n = de_promises h" "s1 = s0\<lparr>cr_handler := Some (h'\<lparr>de_newQueryID := 0\<rparr>)\<rparr>"
    by (auto simp: box_future_def getFuture_def split: if_splits)
  ultimately show thesis using 1
    by (intro that [where a = "a\<lparr>ac_state := SEND, ac_aio := AioSending m'\<rparr>" and d = "h'\<lparr>de_newQueryID := 0\<rparr>"]) simp_all
qed

text \<open>
  C21. The future that a box gives for a request is the one of that request: it receives the reply
  when one arrives, and otherwise an exception that says whether the request had been sent.
\<close>

theorem box_reply:
  assumes "box_step\<^sup>*\<^sup>* (box_make c) s" "\<forall>q. made = Inr q \<longrightarrow> q \<notin> set (action_ids s)" "box_request made m s = (Inr n, s1)"
  shows "\<exists>q. \<forall>x reply e.
    future_result n (request_complete Delegate_handler q (Inr reply) (request_complete Delegate_handler q (Inr x) s1)) =
      Some (Inr reply) \<and>
    future_result n (request_complete Delegate_handler q (Inl e) (request_complete Delegate_handler q (Inr x) s1)) =
      Some (Inl (NngExn e ''Request could not be fulfilled.'')) \<and>
    future_result n (request_complete Delegate_handler q (Inl e) s1) = Some (Inl (NngExn e ''Request could not be sent.''))"
proof -
  obtain q a as d where s1: "cr_active s1 = a # as" "ac_queryID a = q" "ac_state a = SEND" "cr_handler s1 = Some d"
    "de_pending d q = Some \<lparr>pe_sent = False, pe_promise = n\<rparr>"
    using box_request_state [OF box_reach [OF assms(1)] assms(2,3)] .
  have sent: "request_complete Delegate_handler q (Inr x) s1 = s1\<lparr>cr_handler := Some (delegate_sent q d),
      cr_active := set_active (a\<lparr>ac_state := RECV, ac_aio := AioReceiving\<rparr>) (cr_active s1)\<rparr>" for x
    using s1 by (simp add: request_complete_def callback_advances)
  show ?thesis
    by (rule exI [of _ q]) (use s1 in \<open>simp add: sent, simp add: request_complete_def callback_handler action_deliver_def
      set_active_def future_result_def delegate_recv_def delegate_error_def delegate_settle_def delegate_sent_def async_error_of_def\<close>)
qed

text \<open>An example: a box with one request under way.\<close>

definition example_box :: "(unit, nat Delegate, nat) Request" where
  "example_box = snd (request Delegate_handler (Inr 5) 7 (box_make (example_communicator CLIENT REQ_REP)))"

lemma example_box_reach: "box_step\<^sup>*\<^sup>* (box_make (example_communicator CLIENT REQ_REP)) example_box"
  unfolding example_box_def
  by (intro r_into_rtranclp box_step.step request_step.request)
    (simp add: box_make_eq request_make_def action_ids_def)

text \<open>
  A communicator whose handler throws for the message zero: one action was lost to it, and another has sent its request when the destructor waits.
\<close>

definition picky_handler :: "(unit, nat) AsyncRequest" where
  "picky_handler = \<lparr>aq_prep = (\<lambda>q m h. (if m = 0 then Inl (StdExn ''zero'') else Inr (Some m), h)), aq_sent = (\<lambda>q h. h),
    aq_recv = (\<lambda>q m h. h), aq_error = (\<lambda>q e h. h)\<rparr>"

definition example_requests :: "(unit, unit, nat) Request" where
  "example_requests = snd (request picky_handler (Inr 6) 7 (snd (request picky_handler (Inr 5) 0
    (snd (request_initialize (Some ()) (request_make (example_communicator CLIENT REQ_REP)))))))"

lemma example_requests:
  "request_history picky_handler (example_communicator CLIENT REQ_REP) {5, 6} {5} example_requests"
  "cr_active example_requests = [\<lparr>ac_queryID = 6, ac_state = SEND, ac_aio = AioSending 7\<rparr>]"
proof -
  let ?c = "example_communicator CLIENT REQ_REP"
  let ?s = "snd (request_initialize (Some ()) (request_make ?c)) :: (unit, unit, nat) Request"
  let ?t = "snd (request picky_handler (Inr 5) 0 ?s)"
  note defs = request_initialize_def request_def request_make_def communicator_isReady_def example_communicator_def socket_isReady_def
    allocate_def picky_handler_def request_takes_def request_throws_def
  have s: "request_history picky_handler ?c {} {} ?s" by (rule request_history.install [OF request_history.make])
  have "request_history picky_handler ?c {5} {5} ?t"
    using request_history.request [OF s, of "Inr 5" 0] by (simp add: defs)
  from request_history.request [OF this, of "Inr 6" 7] show "request_history picky_handler ?c {5, 6} {5} example_requests"
    by (simp add: defs example_requests_def insert_commute)
  show "cr_active example_requests = [\<lparr>ac_queryID = 6, ac_state = SEND, ac_aio = AioSending 7\<rparr>]" by (simp add: defs example_requests_def)
qed

theorem request_pool_witness:
  "\<exists>s'. request_wait picky_handler [(6, Inr None), (6, Inr (Some 9))] example_requests = Some s' \<and> cr_active s' = [] \<and> set (map ac_queryID (cr_idle s')) = {6}"
proof -
  have h: "cr_handler example_requests = Some ()"
    by (simp add: example_requests_def request_initialize_def request_def request_make_def communicator_isReady_def example_communicator_def socket_isReady_def
        allocate_def picky_handler_def)
  have "completions picky_handler [(6, Inr None), (6, Inr (Some 9))] example_requests = 2"
    using h by (simp add: example_requests(2) request_complete_def action_callback_def action_deliver_def set_active_def)
  moreover have "{5, 6} - {5 :: QueryID} = {6}" by auto
  ultimately show ?thesis using request_pool [OF example_requests(1), of "[(6, Inr None), (6, Inr (Some 9))]"] by (simp add: example_requests(2))
qed

theorem query_course_witness:
  "\<exists>l. cr_handler (snd (request (query_log (\<lambda>_. True)) (Inr 5) (7 :: nat)
      (snd (request_initialize (Some []) (request_make (example_communicator CLIENT REQ_REP)))))) = Some l \<and>
    query_phase 5 l = Some SEND"
proof -
  let ?s = "snd (request_initialize (Some []) (request_make (example_communicator CLIENT REQ_REP)))"
  let ?s' = "snd (request (query_log (\<lambda>_. True)) (Inr 5) (7 :: nat) ?s)"
  have "(request_step (query_log (\<lambda>_. True)))\<^sup>*\<^sup>* ?s ?s'"
    by (intro r_into_rtranclp request_step.request) (simp add: request_initialize_def request_make_def action_ids_def)
  from query_course [OF this] show ?thesis
    by (simp add: request_initialize_def request_def request_make_def communicator_isReady_def
        example_communicator_def socket_isReady_def allocate_def query_state_def)
qed

theorem box_promises_settled_witness:
  "de_promises (the (cr_handler example_box)) = 1 \<and> fst (box_destroy example_box) 0 \<noteq> None"
  using box_promises_settled [OF example_box_reach]
  by (auto simp: example_box_def request_def box_make_eq request_make_def communicator_isReady_def
      example_communicator_def socket_isReady_def allocate_def delegate_prep_def delegate_new_def)

theorem box_reply_witness:
  "\<exists>q s1. box_request (Inr 5) 7 (box_make (example_communicator CLIENT REQ_REP)) = (Inr 0, s1) \<and>
    future_result 0 (request_complete Delegate_handler q (Inr (Some (9 :: nat)))
      (request_complete Delegate_handler q (Inr None) s1)) = Some (Inr (Some 9))"
proof -
  let ?b = "box_make (example_communicator CLIENT REQ_REP) :: (unit, nat Delegate, nat) Request"
  obtain s1 where s1: "box_request (Inr 5) 7 ?b = (Inr 0, s1)"
    by (simp add: box_request_def request_def box_make_eq request_make_def communicator_isReady_def box_future_def getFuture_def
      example_communicator_def socket_isReady_def allocate_def delegate_prep_def delegate_new_def)
  have "\<forall>q. Inr 5 = (Inr q :: nng_error + QueryID) \<longrightarrow> q \<notin> set (action_ids ?b)"
    by (simp add: action_ids_def box_make_eq request_make_def)
  from box_reply [OF rtranclp.rtrancl_refl this s1] s1 show ?thesis by blast
qed

end
