(* ===== verification/Service_Registration.thy ===== *)
theory Service_Registration
  imports Client_Request Msg_Writer
begin

text \<open>
  How a service registers with a server of the same process: \<open>include/telling/service_registration.h\<close>
  and \<open>src/telling/service_registration.cpp\<close>. A registration is one request to the server's
  registration address; the status of the reply decides whether the service is enlisted.
\<close>

section \<open>Model\<close>

datatype REGISTRATION_STATUS = INITIAL | REQUESTED | ENLISTED | FAILED

text \<open>\<open>rg_uncaught\<close> is an exception that left a callback, which ends the program.\<close>

record Registration_Delegate =
  rg_status :: REGISTRATION_STATUS
  rg_except :: "nng_error \<times> string"
  rg_uncaught :: "exn option"

definition registration_new :: Registration_Delegate where
  "registration_new = \<lparr>rg_status = INITIAL, rg_except = (nng_success, []), rg_uncaught = None\<rparr>"

text \<open>The error that a reply without success is reported as.\<close>

definition registration_failure :: "Status \<Rightarrow> nng_error \<times> string" where
  "registration_failure s =
    (if isClientError s then
       (if s = Unauthorized then nng_perm else if s = Conflict then nng_addrinuse
        else if s = NotFound then nng_exist else if s = URITooLong then nng_addrinval else nng_internal,
        ''Registration Request Error'')
     else if isServerError s then (nng_internal, ''Registration Server Error'')
     else if isInformational s then (nng_internal, ''Registration Informational Reply'')
     else if isRedirection s then (nng_internal, ''Registration Redirection'')
     else (nng_internal, ''Registration Reply Status''))"

definition registration_recv :: "nng_msg option \<Rightarrow> Registration_Delegate \<Rightarrow> Registration_Delegate" where
  "registration_recv response d =
    (case msgview_reply parse_reset response of
      Inl e \<Rightarrow> d\<lparr>rg_uncaught := Some e\<rparr>
    | Inr reply \<Rightarrow>
        if isSuccessful (mv_status reply) then d\<lparr>rg_status := ENLISTED\<rparr>
        else d\<lparr>rg_status := FAILED, rg_except := registration_failure (mv_status reply)\<rparr>)"

definition registration_error :: "AsyncError \<Rightarrow> Registration_Delegate \<Rightarrow> Registration_Delegate" where
  "registration_error e d = d\<lparr>rg_status := FAILED, rg_except := (ae_status e, ''Registration Networking Error'')\<rparr>"

definition registration_handler :: "(Registration_Delegate, nng_msg) AsyncRequest" where
  "registration_handler =
    \<lparr>aq_prep = (\<lambda>q m d. (Inr (Some m), d)), aq_sent = (\<lambda>q d. d\<lparr>rg_status := REQUESTED\<rparr>),
     aq_recv = (\<lambda>q response. registration_recv response), aq_error = (\<lambda>q e. registration_error e)\<rparr>"

text \<open>The request: the first line of the body is the alias, or the path when there is no alias.\<close>

definition registration_message :: "string \<Rightarrow> string \<Rightarrow> nng_msg option result" where
  "registration_message servicePath alias =
    (let alias = (if alias = [] then servicePath else alias)
     in fst (ebind (startRequest ''*services'' POST) (\<lambda>_. ebind (writeBody (alias @ [LF] @ servicePath)) (\<lambda>_. writer_release))
          (writer_new Telling)))"

type_synonym 'p Registration = "('p, Registration_Delegate, nng_msg) Request"

text \<open>\<open>dialed\<close> and \<open>made\<close> are the outcomes of the library's calls for the dialer and the context.\<close>

definition registration_make ::
    "platform \<Rightarrow> nng_error + nat \<Rightarrow> nng_error + QueryID \<Rightarrow> string \<Rightarrow> string \<Rightarrow> string \<Rightarrow> 'p Communicator \<Rightarrow>
      unit result \<times> 'p Registration" where
  "registration_make os dialed made servicePath alias serverID c =
    ebind (communicator_on (socket_dial_base os dialed (host_InProc (serverID @ ''/register'')))) (\<lambda>_ s.
      case registration_message servicePath alias of
        Inl e \<Rightarrow> (Inl e, s)
      | Inr None \<Rightarrow> (Inl (Undefined ''null message''), s)
      | Inr (Some m) \<Rightarrow> (case request registration_handler made m s of (r, s) \<Rightarrow> (map_sum id (\<lambda>_. ()) r, s)))
    (snd (request_initialize (Some registration_new) (request_make c)))"

definition registration_status :: "'p Registration \<Rightarrow> REGISTRATION_STATUS" where
  "registration_status s = (case cr_handler s of None \<Rightarrow> INITIAL | Some d \<Rightarrow> rg_status d)"

definition isWorking :: "'p Registration \<Rightarrow> bool" where
  "isWorking s \<longleftrightarrow> registration_status s = INITIAL \<or> registration_status s = REQUESTED"

definition isRegistered :: "'p Registration \<Rightarrow> bool" where
  "isRegistered s \<longleftrightarrow> registration_status s = ENLISTED"

section \<open>Lemmas\<close>

text \<open>Composing a message without headers.\<close>

lemma compose_plain:
  "compose_msg start [] body = ebind start (\<lambda>_. ebind (writeBody body) (\<lambda>_. writer_release))"
  by (simp add: compose_msg_def fun_eq_iff ebind_def split: prod.split sum.split)

lemma services_request_ok:
  "protocol_valid Telling" "method_valid POST" "\<not> ContainsWhitespace ''*services''"
  "length (msg_head (request_line POST ''*services'' Telling) (preferred_newline Telling) []) \<le> 100"
  by (simp_all add: protocol_valid_def method_valid_def ContainsWhitespace_def msg_head_def preferred_newline_def)

lemma registration_message_ok:
  assumes "length alias + length servicePath < 2 ^ 63" "alias \<noteq> []"
  shows "\<exists>m v. registration_message servicePath alias = Inr (Some m) \<and> m_header m = [] \<and>
    msgview_request L0 (Some m) = Inr v \<and> mv_uriString v = ''*services'' \<and> mv_method v = POST \<and>
    mv_bodyString v = alias @ [LF] @ servicePath"
proof -
  let ?body = "alias @ [LF] @ servicePath"
  have "length (msg_head (request_line POST ''*services'' Telling) (preferred_newline Telling) []) \<le> 65535"
    "length (msg_head (request_line POST ''*services'' Telling) (preferred_newline Telling) [] @ ?body) < 2 ^ 64"
    using services_request_ok(4) assms(1) by simp_all
  from written_request [OF services_request_ok(1-3) _ this, of REQUEST L0] obtain w v where
    "compose_msg (startRequest ''*services'' POST) [] ?body (writer_new Telling) =
      (Inr (Some \<lparr>m_header = [], m_body = msg_head (request_line POST ''*services'' Telling) (preferred_newline Telling) [] @ ?body\<rparr>), w)"
    "msgview_make L0 (Some \<lparr>m_header = [], m_body = msg_head (request_line POST ''*services'' Telling) (preferred_newline Telling) [] @ ?body\<rparr>) REQUEST = Inr v"
    "mv_uriString v = ''*services''" "mv_method v = POST" "mv_bodyString v = ?body" by auto
  then show ?thesis using assms(2) by (simp add: registration_message_def compose_plain msgview_request_def)
qed

section \<open>Properties\<close>

text \<open>
  C29. A registration follows the status of the reply: any reply that the writer can compose, with a
  status of three digits, is understood, and the registration is enlisted exactly when the status is
  a success; otherwise it has failed, and a conflict is reported as an address in use.
\<close>

theorem registration_follows_status:
  assumes "0 < s" "s \<le> 999" "\<not> ContainsNewline r" "length r \<le> MAX_REASON_LENGTH"
    and "\<not> protocol_valid (protocol_Parse (takeWhile (\<lambda>c. c \<noteq> SP) r))" "list_all field_ok fs"
    and "length (msg_head (reply_line Telling s r) (preferred_newline Telling) fs) \<le> 65535" "length body < 2 ^ 63"
    and "compose_msg (startReply s r) fs body (writer_new Telling) = (Inr m, w)"
  shows "rg_uncaught (registration_recv m d) = rg_uncaught d \<and>
    (rg_status (registration_recv m d) = (if isSuccessful s then ENLISTED else FAILED)) \<and>
    (s = Conflict \<longrightarrow> rg_except (registration_recv m d) = (nng_addrinuse, ''Registration Request Error''))"
proof -
  have len: "length (msg_head (reply_line Telling s r) (preferred_newline Telling) fs @ body) < 2 ^ 64"
    using assms(7,8) by simp
  from written_reply [OF _ assms(1-7) len, of REPLY parse_reset] assms(9) obtain v where
    "msgview_make parse_reset m REPLY = Inr v" "mv_status v = s" by (auto simp: protocol_valid_def)
  then show ?thesis
    by (simp add: registration_recv_def msgview_reply_def registration_failure_def isClientError_def isSuccessful_def)
qed

theorem registration_follows_status_witness:
  "\<exists>m w. compose_msg (startReply Conflict ''Conflict'') [] ''taken'' (writer_new Telling) = (Inr m, w) \<and>
    rg_status (registration_recv m registration_new) = FAILED \<and>
    rg_except (registration_recv m registration_new) = (nng_addrinuse, ''Registration Request Error'')"
proof -
  have ok: "\<not> ContainsNewline ''Conflict''" "\<not> protocol_valid (protocol_Parse (takeWhile (\<lambda>c. c \<noteq> SP) ''Conflict''))"
    "length (msg_head (reply_line Telling Conflict ''Conflict'') (preferred_newline Telling) []) \<le> 65535"
    by (simp_all add: ContainsNewline_def protocol_Parse_def msg_head_def preferred_newline_def status_toString_def protocol_valid_def)
  obtain m w where m: "compose_msg (startReply Conflict ''Conflict'') [] ''taken'' (writer_new Telling) = (Inr m, w)"
    using written_reply [OF _ _ _ ok(1) _ ok(2) _ ok(3), of "''taken''" UNKNOWN parse_reset] by (auto simp: protocol_valid_def msg_head_def preferred_newline_def status_toString_def)
  from registration_follows_status [OF _ _ ok(1) _ ok(2) _ ok(3) _ m, of registration_new] m show ?thesis
    by (auto simp: isSuccessful_def)
qed

end
