(* ===== verification/Service_Reply.thy ===== *)
theory Service_Reply
  imports Client_Request
begin

text \<open>
  The replying side of the request-reply pattern: \<open>include/telling/service_reply.h\<close> and
  \<open>src/telling/service_reply.cpp\<close>. Each request arrives on a context of its own, whose number is the
  identifier of the query until the reply is given to that context for sending. An exception that
  leaves a callback ends the program (\<open>Terminate\<close>).
\<close>

section \<open>Model\<close>

text \<open>
  \<open>AsyncRespond\<close>: receiving a request may answer it at once through the tag; preparing a response may
  replace it, take it away or throw.
\<close>

record ('h, 'm) AsyncReply =
  ay_recv :: "QueryID \<Rightarrow> 'm \<Rightarrow> 'h \<Rightarrow> 'm option \<times> 'h"
  ay_prep :: "QueryID \<Rightarrow> 'm option \<Rightarrow> 'h \<Rightarrow> ('m option) result \<times> 'h"
  ay_sent :: "QueryID \<Rightarrow> 'h \<Rightarrow> 'h"
  ay_error :: "QueryID option \<Rightarrow> AsyncError \<Rightarrow> 'h \<Rightarrow> 'h"

text \<open>The operation that sends carries the context (\<open>ctx_aio_send\<close>) and the message.\<close>

type_synonym 'm OutboxItem = "QueryID \<times> 'm"

record ('p, 'h, 'm) Reply = "'p Communicator" +
  rp_handler :: "'h option"
  rp_unresponded :: "QueryID set"
  rp_aio_send :: "'m OutboxItem aio"
  rp_aio_recv :: "'m aio"
  rp_outbox :: "'m OutboxItem SendQueueMtx"
  rp_ctx_recv :: "QueryID option"

definition reply_make :: "'p Communicator \<Rightarrow> ('p, 'h, 'm) Reply" where
  "reply_make c = \<lparr>co_role = co_role c, co_pattern = co_pattern c, co_protocol = co_protocol c, co_socket = co_socket c,
    rp_handler = None, rp_unresponded = {}, rp_aio_send = AioNone, rp_aio_recv = AioNone, rp_outbox = sq_new, rp_ctx_recv = None\<rparr>"

text \<open>\<open>made\<close> is the outcome of \<open>make_ctx\<close>.\<close>

definition reply_initialize ::
    "nng_error + QueryID \<Rightarrow> 'h option \<Rightarrow> ('p, 'h, 'm) Reply \<Rightarrow> unit result \<times> ('p, 'h, 'm) Reply" where
  "reply_initialize made new_handler s =
    (if rp_handler s \<noteq> None then (Inl (NngExn nng_busy ''Reply::initialize (already initialized)''), s)
     else if new_handler = None then (Inl (NngExn nng_closed ''Reply::initialize (handler is expired)''), s)
     else let s = s\<lparr>rp_handler := new_handler\<rparr> in
       (case made of
         Inl e \<Rightarrow> (Inl (NngExn e ''make_ctx''), s)
       | Inr q \<Rightarrow> (Inr (), s\<lparr>rp_ctx_recv := Some q, rp_aio_send := AioIdle, rp_aio_recv := AioReceiving\<rparr>)))"

definition respondTo ::
    "('h, 'm) AsyncReply \<Rightarrow> QueryID \<Rightarrow> 'm option \<Rightarrow> ('p, 'h, 'm) Reply \<Rightarrow> unit result \<times> ('p, 'h, 'm) Reply" where
  "respondTo H queryID msg s =
    (if \<not> communicator_isReady s then (Inl (NngExn nng_closed ''Reply Communicator is not ready.''), s)
     else (case rp_handler s of
        None \<Rightarrow> (Inr (), s)
      | Some h \<Rightarrow>
          (case ay_prep H queryID msg h of
            (Inl e, h) \<Rightarrow> (Inl e, s\<lparr>rp_handler := Some h\<rparr>)
          | (Inr None, h) \<Rightarrow> (Inr (), s\<lparr>rp_handler := Some h\<rparr>)
          | (Inr (Some m), h) \<Rightarrow>
              let s = s\<lparr>rp_handler := Some h\<rparr> in
              if queryID \<notin> rp_unresponded s
              then (Inl (NngExn nng_inval ''respondTo: no outstanding request with this queryID''), s)
              else let s = s\<lparr>rp_unresponded := rp_unresponded s - {queryID}\<rparr> in
                (case sq_produce (queryID, m) (rp_outbox s) of
                  (True, _, q) \<Rightarrow> (Inr (), s\<lparr>rp_outbox := q\<rparr>)
                | (False, None, q) \<Rightarrow> (Inr (), s\<lparr>rp_outbox := q\<rparr>)
                | (False, Some to_send, q) \<Rightarrow> (Inr (), s\<lparr>rp_outbox := q, rp_aio_send := AioSending to_send\<rparr>)))))"

text \<open>A new context to receive the next request; \<open>make_ctx\<close> may throw.\<close>

definition receive_next :: "nng_error + QueryID \<Rightarrow> ('p, 'h, 'm) Reply \<Rightarrow> unit result \<times> ('p, 'h, 'm) Reply" where
  "receive_next made s = (case made of
      Inl e \<Rightarrow> (Inl Terminate, s)
    | Inr q \<Rightarrow> (Inr (), s\<lparr>rp_ctx_recv := Some q, rp_aio_recv := AioReceiving\<rparr>))"

definition reply_aioReceived ::
    "('h, 'm) AsyncReply \<Rightarrow> nng_error + QueryID \<Rightarrow> nng_error + 'm \<Rightarrow> ('p, 'h, 'm) Reply \<Rightarrow> unit result \<times> ('p, 'h, 'm) Reply" where
  "reply_aioReceived H made aioResult s =
    (let s = s\<lparr>rp_aio_recv := AioIdle\<rparr> in
     case rp_handler s of
       None \<Rightarrow> (Inr (), s)
     | Some h \<Rightarrow>
         (case aioResult of
           Inl e \<Rightarrow> (Inr (), s\<lparr>rp_handler := Some (ay_error H (rp_ctx_recv s) (async_error_of e) h)\<rparr>)
         | Inr query \<Rightarrow>
             (case rp_ctx_recv s of
               None \<Rightarrow> (Inl (Undefined ''no context''), s)
             | Some queryID \<Rightarrow>
                 let s = s\<lparr>rp_unresponded := insert queryID (rp_unresponded s), rp_ctx_recv := None\<rparr> in
                 (case ay_recv H queryID query h of
                   (None, h) \<Rightarrow> receive_next made (s\<lparr>rp_handler := Some h\<rparr>)
                 | (Some responseMsg, h) \<Rightarrow>
                     (case respondTo H queryID (Some responseMsg) (s\<lparr>rp_handler := Some h\<rparr>) of
                       (Inl e, s) \<Rightarrow> (Inl Terminate, s)
                     | (Inr _, s) \<Rightarrow> receive_next made s)))))"

text \<open>After a result other than success nothing more is done; the handler is used without a test.\<close>

definition reply_aioSent :: "('h, 'm) AsyncReply \<Rightarrow> nng_error \<Rightarrow> ('p, 'h, 'm) Reply \<Rightarrow> unit result \<times> ('p, 'h, 'm) Reply" where
  "reply_aioSent H aioResult s =
    (case rp_aio_send s of
      AioSending (queryID, _) \<Rightarrow>
        let s = s\<lparr>rp_aio_send := AioIdle\<rparr> in
        if aioResult \<noteq> nng_success then (Inr (), s)
        else (case rp_handler s of
           None \<Rightarrow> (Inl (Undefined ''null pointer''), s)
         | Some h \<Rightarrow>
             let s = s\<lparr>rp_handler := Some (ay_sent H queryID h)\<rparr> in
             (case sq_consume (rp_outbox s) of
               (Some item, q) \<Rightarrow> (Inr (), s\<lparr>rp_outbox := q, rp_aio_send := AioSending item\<rparr>)
             | (None, q) \<Rightarrow> (Inr (), s\<lparr>rp_outbox := q\<rparr>)))
    | _ \<Rightarrow> (Inr (), s))"

text \<open>
  The destructor closes the contexts of the requests without a response, then stops both operations;
  one that is under way runs its callback, with the result \<open>canceled\<close>.
\<close>

definition reply_destroy :: "('h, 'm) AsyncReply \<Rightarrow> ('p, 'h, 'm) Reply \<Rightarrow> ('p, 'h, 'm) Reply" where
  "reply_destroy H s =
    (let s = s\<lparr>rp_unresponded := {}\<rparr>;
         s = snd (reply_aioSent H nng_canceled s);
         s = (if rp_aio_recv s = AioReceiving then snd (reply_aioReceived H (Inl nng_closed) (Inl nng_canceled) s) else s)
     in s\<lparr>rp_aio_send := AioNone, rp_aio_recv := AioNone\<rparr>)"

section \<open>Replying from a queue\<close>

text \<open>\<open>Reply_Box\<close>: the handler is a queue of requests, from which one at a time is taken and answered.\<close>

definition reply_box_handler :: "((QueryID \<times> 'm) RecvQueueMtx, 'm) AsyncReply" where
  "reply_box_handler =
    \<lparr>ay_recv = (\<lambda>q m inbox. (None, rq_push (q, m) inbox)), ay_prep = (\<lambda>q m inbox. (Inr m, inbox)),
     ay_sent = (\<lambda>q inbox. inbox), ay_error = (\<lambda>q e inbox. inbox)\<rparr>"

record ('p, 'm) Reply_Box =
  rb_reply :: "('p, (QueryID \<times> 'm) RecvQueueMtx, 'm) Reply"
  rb_current_query :: QueryID

definition reply_box_make :: "nng_error + QueryID \<Rightarrow> 'p Communicator \<Rightarrow> unit result \<times> ('p, 'm) Reply_Box" where
  "reply_box_make made c = (case reply_initialize made (Some []) (reply_make c) of
    (r, s) \<Rightarrow> (r, \<lparr>rb_reply = s, rb_current_query = 0\<rparr>))"

definition rb_receive :: "('p, 'm) Reply_Box \<Rightarrow> 'm option result \<times> ('p, 'm) Reply_Box" where
  "rb_receive b =
    (if \<not> communicator_isReady (rb_reply b) then (Inl (NngExn nng_closed ''Reply Communicator is not ready.''), b)
     else if rb_current_query b \<noteq> 0 then (Inl (NngExn nng_state ''Reply: must reply before receiving a new message.''), b)
     else (case rp_handler (rb_reply b) of
        None \<Rightarrow> (Inl (Undefined ''null pointer''), b)
      | Some inbox \<Rightarrow>
          (case rq_pull inbox of
            (None, inbox) \<Rightarrow> (Inr None, b)
          | (Some (q, m), inbox) \<Rightarrow>
              (Inr (Some m), b\<lparr>rb_reply := (rb_reply b)\<lparr>rp_handler := Some inbox\<rparr>, rb_current_query := q\<rparr>))))"

definition rb_respond :: "'m option \<Rightarrow> ('p, 'm) Reply_Box \<Rightarrow> unit result \<times> ('p, 'm) Reply_Box" where
  "rb_respond msg b =
    (if \<not> communicator_isReady (rb_reply b) then (Inl (NngExn nng_closed ''Reply Communicator is not ready.''), b)
     else if rb_current_query b = 0 then (Inl (NngExn nng_state ''Reply: must receive a request before replying.''), b)
     else (case respondTo reply_box_handler (rb_current_query b) msg (rb_reply b) of
        (Inl e, s) \<Rightarrow> (Inl e, b\<lparr>rb_reply := s\<rparr>)
      | (Inr _, s) \<Rightarrow> (Inr (), b\<lparr>rb_reply := s, rb_current_query := 0\<rparr>)))"

definition rb_inbox :: "('p, 'm) Reply_Box \<Rightarrow> (QueryID \<times> 'm) list" where
  "rb_inbox b = (case rp_handler (rb_reply b) of None \<Rightarrow> [] | Some inbox \<Rightarrow> inbox)"

lemma rb_receive_inbox: "rb_receive b = (Inr (Some m), b') \<Longrightarrow> length (rb_inbox b') < length (rb_inbox b)"
  by (auto simp: rb_receive_def rb_inbox_def rq_pull_def split: if_splits option.splits list.splits)

lemma rb_respond_inbox: "rb_inbox (snd (rb_respond msg b)) = rb_inbox b"
  by (auto simp: rb_respond_def rb_inbox_def respondTo_def reply_box_handler_def sq_produce_def Let_def
      split: option.splits prod.splits sum.splits)

text \<open>The loop of \<open>respond_all\<close>, while no request arrives meanwhile.\<close>

function respond_all :: "('m \<Rightarrow> 'm option) \<Rightarrow> ('p, 'm) Reply_Box \<Rightarrow> unit result \<times> ('p, 'm) Reply_Box" where
  "respond_all fn b =
    (case rb_receive b of
      (Inl e, b) \<Rightarrow> (Inl e, b)
    | (Inr None, b) \<Rightarrow> (Inr (), b)
    | (Inr (Some req), b) \<Rightarrow>
        (case rb_respond (fn req) b of
          (Inl e, b) \<Rightarrow> (Inl e, b)
        | (Inr _, b) \<Rightarrow> respond_all fn b))"
  by pat_completeness auto
termination
proof (relation "measure (\<lambda>(fn, b). length (rb_inbox b))")
  fix fn :: "'m \<Rightarrow> 'm option" and b :: "('p, 'm) Reply_Box" and r1 b1 x req r2 b2 u
  assume "(r1, b1) = rb_receive b" "r1 = Inr x" "x = Some req" "(r2, b2) = rb_respond (fn req) b1" "r2 = Inr u"
  then show "((fn, b2), fn, b) \<in> measure (\<lambda>(fn, b). length (rb_inbox b))"
    using rb_receive_inbox [of b req b1] rb_respond_inbox [of "fn req" b1] by (metis (no_types, lifting) case_prod_conv in_measure snd_conv)
qed simp

declare respond_all.simps [simp del]

section \<open>Contexts\<close>

text \<open>The contexts that the communicator holds, by the place that holds them.\<close>

definition sending :: "('p, 'h, 'm) Reply \<Rightarrow> 'm OutboxItem list" where
  "sending s = qs_flight (rp_aio_send s) @ sq_deq (rp_outbox s)"

definition reply_contexts :: "('p, 'h, 'm) Reply \<Rightarrow> QueryID set" where
  "reply_contexts s = set_option (rp_ctx_recv s) \<union> rp_unresponded s \<union> fst ` set (sending s)"

definition reply_inv :: "('p, 'h, 'm) Reply \<Rightarrow> bool" where
  "reply_inv s \<longleftrightarrow> distinct (map fst (sending s)) \<and> fst ` set (sending s) \<inter> rp_unresponded s = {} \<and>
    (\<forall>q. rp_ctx_recv s = Some q \<longrightarrow> q \<notin> rp_unresponded s \<and> q \<notin> fst ` set (sending s)) \<and>
    (\<not> sq_busy (rp_outbox s) \<longrightarrow> sending s = [])"

definition fresh_ctx :: "nng_error + QueryID \<Rightarrow> ('p, 'h, 'm) Reply \<Rightarrow> bool" where
  "fresh_ctx made s \<longleftrightarrow> (\<forall>q. made = Inr q \<longrightarrow> q \<notin> reply_contexts s \<and> q \<noteq> 0)"

text \<open>What can happen to a reply communicator; a context that is made has a number of its own.\<close>

inductive reply_step :: "('h, 'm) AsyncReply \<Rightarrow> ('p, 'h, 'm) Reply \<Rightarrow> ('p, 'h, 'm) Reply \<Rightarrow> bool" for H where
  init: "fresh_ctx made s \<Longrightarrow> reply_step H s (snd (reply_initialize made h s))"
| receive: "rp_aio_recv s = AioReceiving \<Longrightarrow> fresh_ctx made s \<Longrightarrow> reply_step H s (snd (reply_aioReceived H made r s))"
| respond: "reply_step H s (snd (respondTo H q msg s))"
| sent: "rp_aio_send s = AioSending x \<Longrightarrow> reply_step H s (snd (reply_aioSent H e s))"
| expire: "reply_step H s (s\<lparr>rp_handler := None\<rparr>)"
| socket: "reply_step H s (s\<lparr>co_socket := sock\<rparr>)"

lemma respondTo_accepts:
  assumes "communicator_isReady s" "rp_handler s = Some h" "ay_prep H q msg h = (Inr (Some m), h')" "q \<in> rp_unresponded s"
  shows "respondTo H q msg s = (Inr (), s\<lparr>rp_handler := Some h', rp_unresponded := rp_unresponded s - {q},
    rp_outbox := snd (snd (sq_produce (q, m) (rp_outbox s))),
    rp_aio_send := (if sq_busy (rp_outbox s) then rp_aio_send s else AioSending (q, m))\<rparr>)"
  using assms by (cases "sq_busy (rp_outbox s)") (simp_all add: respondTo_def sq_produce_def)

lemma respondTo_cases:
  assumes "respondTo H q msg s = (r, s')"
  obtains (refused) h where "s' = s\<lparr>rp_handler := h\<rparr>"
  | (accepted) h h' m where "communicator_isReady s" "rp_handler s = Some h" "ay_prep H q msg h = (Inr (Some m), h')"
      "q \<in> rp_unresponded s" "r = Inr ()"
      "s' = s\<lparr>rp_handler := Some h', rp_unresponded := rp_unresponded s - {q},
        rp_outbox := snd (snd (sq_produce (q, m) (rp_outbox s))),
        rp_aio_send := (if sq_busy (rp_outbox s) then rp_aio_send s else AioSending (q, m))\<rparr>"
proof (cases "\<exists>h. s' = s\<lparr>rp_handler := h\<rparr>")
  case False
  then have ne: "s' \<noteq> s\<lparr>rp_handler := rp_handler s\<rparr>" by blast
  with assms have ready: "communicator_isReady s" by (auto simp: respondTo_def split: if_splits)
  with ne assms obtain h where h: "rp_handler s = Some h" by (cases "rp_handler s") (auto simp: respondTo_def)
  obtain p h' where p: "ay_prep H q msg h = (p, h')" by (cases "ay_prep H q msg h")
  with False assms ready h obtain m where m: "p = Inr (Some m)"
    by (cases p) (auto simp: respondTo_def split: option.splits)
  with False assms ready h p have "q \<in> rp_unresponded s" by (auto simp: respondTo_def Let_def split: if_splits)
  with assms ready h p m respondTo_accepts [of s h H q msg m h'] show ?thesis by (intro accepted) auto
qed (use refused in blast)

lemmas reply_defs = reply_inv_def sending_def sq_produce_def sq_consume_def

lemma reply_inv_handler [simp]: "reply_inv (s\<lparr>rp_handler := h\<rparr>) \<longleftrightarrow> reply_inv s"
  and reply_inv_socket [simp]: "reply_inv (s\<lparr>co_socket := k\<rparr>) \<longleftrightarrow> reply_inv s"
  and reply_inv_aio_recv [simp]: "reply_inv (s\<lparr>rp_aio_recv := a\<rparr>) \<longleftrightarrow> reply_inv s"
  by (simp_all add: reply_inv_def sending_def)

lemma reply_contexts_simps [simp]:
  "reply_contexts (s\<lparr>rp_handler := h\<rparr>) = reply_contexts s"
  "reply_contexts (s\<lparr>rp_aio_recv := a\<rparr>) = reply_contexts s"
  "reply_contexts (s\<lparr>rp_ctx_recv := None, rp_unresponded := insert q (rp_unresponded s)\<rparr>) = insert q (reply_contexts (s\<lparr>rp_ctx_recv := None\<rparr>))"
  by (auto simp: reply_contexts_def sending_def)

lemma sending_produce:
  assumes "\<not> sq_busy (rp_outbox s) \<longrightarrow> sending s = []"
  shows "qs_flight (if sq_busy (rp_outbox s) then rp_aio_send s else AioSending x) @
    sq_deq (snd (snd (sq_produce x (rp_outbox s)))) = sending s @ [x]"
  using assms by (auto simp: sending_def sq_produce_def)

lemma respondTo_inv:
  assumes "reply_inv s" "respondTo H q msg s = (r, s')"
  shows "reply_inv s' \<and> reply_contexts s' = reply_contexts s \<and> rp_ctx_recv s' = rp_ctx_recv s \<and> rp_aio_recv s' = rp_aio_recv s"
  using assms(2)
proof (cases rule: respondTo_cases)
  case (accepted h h' m)
  have idle: "\<not> sq_busy (rp_outbox s) \<longrightarrow> sending s = []" using assms(1) by (simp add: reply_inv_def)
  have snd: "sending s' = sending s @ [(q, m)]" using sending_produce [OF idle, of "(q, m)"] accepted(6) by (simp add: sending_def)
  have busy: "sq_busy (rp_outbox s')" using accepted(6) by (simp add: sq_produce_def)
  from snd busy accepted(4,6) assms(1) show ?thesis unfolding reply_inv_def reply_contexts_def by auto
qed (use assms(1) in simp)

lemma receive_next_inv:
  assumes "reply_inv s" "rp_ctx_recv s = None" "fresh_ctx made s"
  shows "reply_inv (snd (receive_next made s))"
  using assms by (auto simp: receive_next_def reply_inv_def fresh_ctx_def reply_contexts_def sending_def split: sum.split)

lemma aioReceived_inv:
  assumes "reply_inv s" "fresh_ctx made s"
  shows "reply_inv (snd (reply_aioReceived H made r s))"
proof (cases "\<exists>h query queryID. rp_handler s = Some h \<and> r = Inr query \<and> rp_ctx_recv s = Some queryID")
  case False
  with assms show ?thesis by (auto simp: reply_aioReceived_def Let_def split: option.split sum.split)
next
  case True
  then obtain h query queryID where c: "rp_handler s = Some h" "r = Inr query" "rp_ctx_recv s = Some queryID" by blast
  obtain p h' where p: "ay_recv H queryID query h = (p, h')" by (cases "ay_recv H queryID query h")
  define s1 where "s1 = s\<lparr>rp_aio_recv := AioIdle, rp_unresponded := insert queryID (rp_unresponded s), rp_ctx_recv := None, rp_handler := Some h'\<rparr>"
  have s1: "reply_inv s1" "rp_ctx_recv s1 = None" "fresh_ctx made s1"
    using assms c by (auto simp: s1_def reply_inv_def sending_def fresh_ctx_def reply_contexts_def)
  show ?thesis
  proof (cases p)
    case None
    with c p have "reply_aioReceived H made r s = receive_next made s1" by (simp add: reply_aioReceived_def s1_def)
    with receive_next_inv [OF s1] show ?thesis by simp
  next
    case (Some m)
    obtain y s2 where y: "respondTo H queryID (Some m) s1 = (y, s2)" by (cases "respondTo H queryID (Some m) s1")
    with Some c p have "snd (reply_aioReceived H made r s) = (case y of Inl e \<Rightarrow> s2 | Inr _ \<Rightarrow> snd (receive_next made s2))"
      by (simp add: reply_aioReceived_def s1_def split: sum.split)
    moreover have s2: "reply_inv s2" "rp_ctx_recv s2 = None" "fresh_ctx made s2"
      using respondTo_inv [OF s1(1) y] s1 by (simp_all add: fresh_ctx_def)
    ultimately show ?thesis using receive_next_inv [OF s2] by (simp split: sum.split)
  qed
qed

lemma aioSent_stops:
  "rp_aio_send s = AioSending x \<Longrightarrow> e \<noteq> nng_success \<or> rp_handler s = None \<Longrightarrow>
    snd (reply_aioSent H e s) = s\<lparr>rp_aio_send := AioIdle\<rparr>"
  by (cases x) (auto simp: reply_aioSent_def Let_def)

lemma aioSent_none: "\<forall>x. rp_aio_send s \<noteq> AioSending x \<Longrightarrow> reply_aioSent H e s = (Inr (), s)"
  by (cases "rp_aio_send s") (auto simp: reply_aioSent_def)

lemma aioSent_success:
  "rp_aio_send s = AioSending (q, m) \<Longrightarrow> rp_handler s = Some h \<Longrightarrow>
    snd (reply_aioSent H nng_success s) = s\<lparr>rp_handler := Some (ay_sent H q h), rp_outbox := snd (sq_consume (rp_outbox s)),
      rp_aio_send := (case fst (sq_consume (rp_outbox s)) of None \<Rightarrow> AioIdle | Some item \<Rightarrow> AioSending item)\<rparr>"
  by (simp add: reply_aioSent_def sq_consume_def split: list.split)

lemma aioSent_inv:
  assumes "reply_inv s"
  shows "reply_inv (snd (reply_aioSent H e s))"
proof (cases "\<exists>x. rp_aio_send s = AioSending x")
  case True
  then obtain q m where x: "rp_aio_send s = AioSending (q, m)" by auto
  show ?thesis
  proof (cases "e \<noteq> nng_success \<or> rp_handler s = None")
    case True
    with aioSent_stops [OF x True, of H] x assms show ?thesis by (auto simp: reply_inv_def sending_def)
  next
    case False
    then obtain h where "e = nng_success" "rp_handler s = Some h" by auto
    with aioSent_success [OF x, of h H] have s': "sending s = (q, m) # sending (snd (reply_aioSent H e s))"
      "rp_ctx_recv (snd (reply_aioSent H e s)) = rp_ctx_recv s" "rp_unresponded (snd (reply_aioSent H e s)) = rp_unresponded s"
      "\<not> sq_busy (rp_outbox (snd (reply_aioSent H e s))) \<longrightarrow> sending (snd (reply_aioSent H e s)) = []"
      using x assms by (auto simp: reply_defs split: list.split)
    with assms show ?thesis unfolding reply_inv_def by auto
  qed
qed (use assms aioSent_none [of s H e] in simp)

lemma reply_inv_step: "reply_step H s s' \<Longrightarrow> reply_inv s \<Longrightarrow> reply_inv s'"
proof (induction rule: reply_step.induct)
  case (init made s h)
  then show ?case
    by (auto simp: reply_initialize_def reply_inv_def sending_def fresh_ctx_def reply_contexts_def Let_def split: sum.split)
next
  case (respond s q msg)
  then show ?case using respondTo_inv [of s H q msg "fst (respondTo H q msg s)"] by simp
qed (simp_all add: aioReceived_inv aioSent_inv)

lemma reply_inv_reach: "(reply_step H)\<^sup>*\<^sup>* (reply_make c) s \<Longrightarrow> reply_inv s"
proof (induction rule: rtranclp_induct)
  case base
  show ?case by (simp add: reply_make_def reply_inv_def sending_def sq_new_def)
qed (rule reply_inv_step)

section \<open>Sending replies\<close>

text \<open>The part of a reply communicator that sends, as a queued sender.\<close>

definition reply_queue :: "('p, 'h, 'm) Reply \<Rightarrow> 'm OutboxItem QueuedSend" where
  "reply_queue s = \<lparr>qs_aio = rp_aio_send s, qs_ctx = True, qs_queue = rp_outbox s\<rparr>"

lemma respondTo_queue:
  assumes "respondTo H q msg s = (r, s')"
  shows "reply_queue s' = reply_queue s \<and> rp_unresponded s' = rp_unresponded s \<or>
    (\<exists>m. q \<in> rp_unresponded s \<and> rp_unresponded s' = rp_unresponded s - {q} \<and> reply_queue s' = snd (qs_send (q, m) (reply_queue s)))"
  using assms
  by (cases rule: respondTo_cases) (auto simp: reply_queue_def qs_send_def sq_produce_def)

lemma aioSent_queue:
  assumes "rp_aio_send s = AioSending x" "rp_handler s = Some h"
  shows "reply_queue (snd (reply_aioSent H e s)) = qs_aioSent e (reply_queue s)"
  using assms aioSent_stops [OF assms(1), of e H] aioSent_success [of s "fst x" "snd x" h H]
  by (cases "e = nng_success") (auto simp: reply_queue_def qs_aioSent_def sq_consume_def split: list.split)

section \<open>Answering from the queue\<close>

text \<open>A box that is ready, between two requests, with requests in its queue that await their response.\<close>

definition box_ready :: "('p, 'm) Reply_Box \<Rightarrow> bool" where
  "box_ready b \<longleftrightarrow> communicator_isReady (rb_reply b) \<and> rb_current_query b = 0 \<and> rp_handler (rb_reply b) \<noteq> None \<and>
    reply_inv (rb_reply b) \<and> distinct (map fst (rb_inbox b)) \<and>
    (\<forall>q \<in> fst ` set (rb_inbox b). q \<noteq> 0 \<and> q \<in> rp_unresponded (rb_reply b))"

lemma ready_handler: "communicator_isReady (s\<lparr>rp_handler := h\<rparr>) \<longleftrightarrow> communicator_isReady s"
  by (simp add: communicator_isReady_def)

lemma box_handler_prep [simp]: "ay_prep reply_box_handler q m inbox = (Inr m, inbox)"
  by (simp add: reply_box_handler_def)

lemma answer_one:
  assumes "box_ready b" "rb_inbox b = (q, m) # rest"
  obtains b1 b2 where "rb_receive b = (Inr (Some m), b1)" "rb_respond (Some r) b1 = (Inr (), b2)" "box_ready b2"
    "rb_inbox b2 = rest" "sending (rb_reply b2) = sending (rb_reply b) @ [(q, r)]"
    "rp_unresponded (rb_reply b2) = rp_unresponded (rb_reply b) - {q}"
proof -
  define s1 where "s1 = (rb_reply b)\<lparr>rp_handler := Some rest\<rparr>"
  define b1 where "b1 = b\<lparr>rb_reply := s1, rb_current_query := q\<rparr>"
  have b: "communicator_isReady (rb_reply b)" "rb_current_query b = 0" "rp_handler (rb_reply b) = Some ((q, m) # rest)"
    "q \<noteq> 0" "q \<in> rp_unresponded (rb_reply b)" "reply_inv (rb_reply b)"
    using assms by (auto simp: box_ready_def rb_inbox_def simp del: split_paired_All split: option.splits)
  then have 1: "rb_receive b = (Inr (Some m), b1)" by (simp add: rb_receive_def rq_pull_def b1_def s1_def)
  obtain x s2 where x: "respondTo reply_box_handler q (Some r) s1 = (x, s2)" by (cases "respondTo reply_box_handler q (Some r) s1")
  have inv: "reply_inv s2" using respondTo_inv [OF _ x] b by (simp add: s1_def)
  have s1: "communicator_isReady s1" "rp_handler s1 = Some rest" "q \<in> rp_unresponded s1" using b by (simp_all add: s1_def ready_handler)
  then have s2: "x = Inr ()" "s2 = s1\<lparr>rp_handler := Some rest, rp_unresponded := rp_unresponded s1 - {q},
      rp_outbox := snd (snd (sq_produce (q, r) (rp_outbox s1))),
      rp_aio_send := (if sq_busy (rp_outbox s1) then rp_aio_send s1 else AioSending (q, r))\<rparr>"
    using x respondTo_accepts [of s1 rest reply_box_handler q "Some r" r rest] by simp_all
  have snd: "sending s2 = sending s1 @ [(q, r)]"
    using sending_produce [of s1 "(q, r)"] b s2(2) by (simp add: sending_def s1_def reply_inv_def)
  define b2 where "b2 = b1\<lparr>rb_reply := s2, rb_current_query := 0\<rparr>"
  have 2: "rb_respond (Some r) b1 = (Inr (), b2)" using x s2(1) s1(1) b(4) by (simp add: rb_respond_def b1_def b2_def)
  have inbox: "rb_inbox b2 = rest" using s2(2) by (simp add: rb_inbox_def b2_def b1_def)
  have ready: "box_ready b2" using assms inv inbox s2(2) s1(1) unfolding box_ready_def
    by (auto simp: b2_def b1_def s1_def communicator_isReady_def)
  have "sending (rb_reply b2) = sending (rb_reply b) @ [(q, r)]" using snd by (simp add: b2_def s1_def sending_def)
  moreover have "rp_unresponded (rb_reply b2) = rp_unresponded (rb_reply b) - {q}" using s2(2) by (simp add: b2_def s1_def)
  ultimately show thesis by (rule that [OF 1 2 ready inbox])
qed

lemma respond_all_run:
  assumes "box_ready b" "\<forall>m. fn m = Some (g m)"
  shows "\<exists>b'. respond_all fn b = (Inr (), b') \<and> rb_inbox b' = [] \<and> box_ready b' \<and>
    sending (rb_reply b') = sending (rb_reply b) @ map (\<lambda>(q, m). (q, g m)) (rb_inbox b) \<and>
    rp_unresponded (rb_reply b') = rp_unresponded (rb_reply b) - fst ` set (rb_inbox b)"
  using assms(1)
proof (induction "rb_inbox b" arbitrary: b)
  case Nil
  then have "rb_receive b = (Inr None, b)" by (auto simp: rb_receive_def box_ready_def rb_inbox_def rq_pull_def split: option.splits)
  then have "respond_all fn b = (Inr (), b)" by (subst respond_all.simps) simp
  with Nil show ?case by simp
next
  case (Cons x rest)
  obtain q m where x: "x = (q, m)" by (cases x)
  obtain b1 b2 where b: "rb_receive b = (Inr (Some m), b1)" "rb_respond (Some (g m)) b1 = (Inr (), b2)" "box_ready b2"
    "rb_inbox b2 = rest" "sending (rb_reply b2) = sending (rb_reply b) @ [(q, g m)]"
    "rp_unresponded (rb_reply b2) = rp_unresponded (rb_reply b) - {q}"
    using answer_one [of b q m rest "g m"] Cons.prems Cons.hyps(2) x by metis
  have "respond_all fn b = respond_all fn b2" using b(1,2) assms(2) by (subst respond_all.simps) simp
  with Cons.hyps(1) [of b2] b(3-6) Cons.hyps(2) [symmetric] x show ?case by auto
qed

text \<open>What can happen to a box.\<close>

inductive rb_step :: "('p, 'm) Reply_Box \<Rightarrow> ('p, 'm) Reply_Box \<Rightarrow> bool" where
  arrive: "rp_aio_recv (rb_reply b) = AioReceiving \<Longrightarrow> fresh_ctx made (rb_reply b) \<Longrightarrow>
    rb_step b (b\<lparr>rb_reply := snd (reply_aioReceived reply_box_handler made r (rb_reply b))\<rparr>)"
| sent: "rp_aio_send (rb_reply b) = AioSending x \<Longrightarrow>
    rb_step b (b\<lparr>rb_reply := snd (reply_aioSent reply_box_handler e (rb_reply b))\<rparr>)"
| receive: "rb_step b (snd (rb_receive b))"
| respond: "rb_step b (snd (rb_respond msg b))"
| socket: "rb_step b (b\<lparr>rb_reply := (rb_reply b)\<lparr>co_socket := sock\<rparr>\<rparr>)"

definition rb_queries :: "('p, 'm) Reply_Box \<Rightarrow> QueryID list" where
  "rb_queries b = (if rb_current_query b = 0 then [] else [rb_current_query b]) @ map fst (rb_inbox b)"

definition rb_inv :: "('p, 'm) Reply_Box \<Rightarrow> bool" where
  "rb_inv b \<longleftrightarrow> reply_inv (rb_reply b) \<and> rp_handler (rb_reply b) \<noteq> None \<and> rp_ctx_recv (rb_reply b) \<noteq> Some 0 \<and>
    distinct (rb_queries b) \<and> set (rb_queries b) \<subseteq> rp_unresponded (rb_reply b) - {0}"

lemma box_handler_simps [simp]:
  "ay_recv reply_box_handler q m inbox = (None, inbox @ [(q, m)])"
  "ay_sent reply_box_handler q inbox = inbox" "ay_error reply_box_handler r e inbox = inbox"
  by (simp_all add: reply_box_handler_def rq_push_def)

lemma rb_inv_keep:
  assumes "rb_inv b" "reply_inv s" "rp_handler s = rp_handler (rb_reply b)" "rp_ctx_recv s = rp_ctx_recv (rb_reply b)"
    "rp_unresponded s = rp_unresponded (rb_reply b)"
  shows "rb_inv (b\<lparr>rb_reply := s\<rparr>)"
proof -
  have "rb_queries (b\<lparr>rb_reply := s\<rparr>) = rb_queries b" using assms(3) by (simp add: rb_queries_def rb_inbox_def)
  with assms show ?thesis by (simp add: rb_inv_def)
qed

lemma box_arrives:
  assumes "rp_handler s = Some inbox" "rp_ctx_recv s = Some q"
  shows "snd (reply_aioReceived reply_box_handler made (Inr m) s) =
    s\<lparr>rp_handler := Some (inbox @ [(q, m)]), rp_unresponded := insert q (rp_unresponded s),
      rp_ctx_recv := (case made of Inl e \<Rightarrow> None | Inr q' \<Rightarrow> Some q'),
      rp_aio_recv := (case made of Inl e \<Rightarrow> AioIdle | Inr q' \<Rightarrow> AioReceiving)\<rparr>"
  using assms by (cases made) (simp_all add: reply_aioReceived_def receive_next_def)

lemma box_arrives_not:
  assumes "rp_handler s = Some inbox" "isl r \<or> rp_ctx_recv s = None"
  shows "snd (reply_aioReceived reply_box_handler made r s) = s\<lparr>rp_aio_recv := AioIdle\<rparr>"
  using assms by (cases r) (simp_all add: reply_aioReceived_def)

lemma rb_inv_arrive:
  assumes "rb_inv b" "fresh_ctx made (rb_reply b)"
  shows "rb_inv (b\<lparr>rb_reply := snd (reply_aioReceived reply_box_handler made r (rb_reply b))\<rparr>)"
proof -
  obtain inbox where h: "rp_handler (rb_reply b) = Some inbox" using assms(1) by (auto simp: rb_inv_def)
  show ?thesis
  proof (cases "isl r \<or> rp_ctx_recv (rb_reply b) = None")
    case True
    show ?thesis unfolding box_arrives_not [OF h True] using assms(1) by (intro rb_inv_keep) (simp_all add: rb_inv_def)
  next
    case False
    then obtain m q where c: "r = Inr m" "rp_ctx_recv (rb_reply b) = Some q" by (cases r) auto
    let ?s = "snd (reply_aioReceived reply_box_handler made (Inr m) (rb_reply b))"
    have "reply_inv ?s" using assms by (intro aioReceived_inv) (simp_all add: rb_inv_def)
    moreover have "q \<notin> rp_unresponded (rb_reply b)" "q \<noteq> 0" using assms(1) c by (auto simp: rb_inv_def reply_inv_def)
    moreover have "rp_ctx_recv ?s \<noteq> Some 0" using assms(2) box_arrives [OF h c(2)] by (auto simp: fresh_ctx_def split: sum.split)
    moreover have "rb_queries (b\<lparr>rb_reply := ?s\<rparr>) = rb_queries b @ [q]" "rp_handler ?s \<noteq> None"
        "rp_unresponded ?s = insert q (rp_unresponded (rb_reply b))"
      using h box_arrives [OF h c(2), of made m] by (simp_all add: rb_queries_def rb_inbox_def)
    ultimately show ?thesis using assms(1) c(1) by (auto simp: rb_inv_def)
  qed
qed

lemma rb_inv_sent:
  assumes "rb_inv b" "rp_aio_send (rb_reply b) = AioSending x"
  shows "rb_inv (b\<lparr>rb_reply := snd (reply_aioSent reply_box_handler e (rb_reply b))\<rparr>)"
proof -
  let ?s = "snd (reply_aioSent reply_box_handler e (rb_reply b))"
  obtain inbox where h: "rp_handler (rb_reply b) = Some inbox" using assms(1) by (auto simp: rb_inv_def)
  have "rp_handler ?s = rp_handler (rb_reply b) \<and> rp_ctx_recv ?s = rp_ctx_recv (rb_reply b) \<and>
      rp_unresponded ?s = rp_unresponded (rb_reply b)"
    using assms(2) h aioSent_stops [OF assms(2), of e reply_box_handler] aioSent_success [of "rb_reply b" "fst x" "snd x" inbox reply_box_handler]
    by (cases "e = nng_success") simp_all
  with assms(1) aioSent_inv [of "rb_reply b" reply_box_handler e] show ?thesis by (intro rb_inv_keep) (simp_all add: rb_inv_def)
qed

lemma rb_inv_respond:
  assumes "rb_inv b"
  shows "rb_inv (snd (rb_respond msg b))"
proof (cases "communicator_isReady (rb_reply b) \<and> rb_current_query b \<noteq> 0")
  case True
  let ?q = "rb_current_query b"
  obtain r s where rs: "respondTo reply_box_handler ?q msg (rb_reply b) = (r, s)"
    by (cases "respondTo reply_box_handler ?q msg (rb_reply b)")
  obtain inbox where h: "rp_handler (rb_reply b) = Some inbox" using assms by (auto simp: rb_inv_def)
  have q: "?q \<in> rp_unresponded (rb_reply b)" using assms True by (auto simp: rb_inv_def rb_queries_def)
  have inv: "reply_inv s" "rp_ctx_recv s = rp_ctx_recv (rb_reply b)"
    using respondTo_inv [OF _ rs] assms by (simp_all add: rb_inv_def)
  have "r = Inr () \<and> rp_handler s = Some inbox \<and> rp_unresponded (rb_reply b) - {?q} \<subseteq> rp_unresponded s"
  proof (cases msg)
    case None
    with rs True h show ?thesis by (auto simp: respondTo_def)
  next
    case (Some m)
    with rs respondTo_accepts [of "rb_reply b" inbox reply_box_handler ?q msg m inbox] True h q show ?thesis by auto
  qed
  note s = this
  then have b': "snd (rb_respond msg b) = b\<lparr>rb_reply := s, rb_current_query := 0\<rparr>" using True rs by (simp add: rb_respond_def)
  have "rb_queries b = ?q # map fst inbox" "rb_queries (b\<lparr>rb_reply := s, rb_current_query := 0\<rparr>) = map fst inbox"
    using True h s by (simp_all add: rb_queries_def rb_inbox_def)
  with assms s inv show ?thesis unfolding b' rb_inv_def by (auto simp del: set_map)
qed (use assms in \<open>auto simp: rb_respond_def\<close>)

lemma rb_inv_receive:
  assumes "rb_inv b"
  shows "rb_inv (snd (rb_receive b))"
proof (cases "snd (rb_receive b) = b")
  case False
  then obtain q m rest where c: "rb_current_query b = 0" "rp_handler (rb_reply b) = Some ((q, m) # rest)"
    "snd (rb_receive b) = b\<lparr>rb_reply := (rb_reply b)\<lparr>rp_handler := Some rest\<rparr>, rb_current_query := q\<rparr>"
    by (auto simp: rb_receive_def rq_pull_def split: if_splits option.splits list.splits)
  with assms have "q \<noteq> 0" by (auto simp: rb_inv_def rb_queries_def rb_inbox_def)
  with c have "rb_queries (snd (rb_receive b)) = rb_queries b" by (simp add: rb_queries_def rb_inbox_def)
  with assms c(3) show ?thesis by (simp add: rb_inv_def)
qed (use assms in simp)

lemma rb_inv_step: "rb_step b b' \<Longrightarrow> rb_inv b \<Longrightarrow> rb_inv b'"
proof (induction rule: rb_step.induct)
  case (socket b sock)
  then show ?case by (intro rb_inv_keep) (simp_all add: rb_inv_def)
qed (simp_all add: rb_inv_arrive rb_inv_sent rb_inv_receive rb_inv_respond)

lemma rb_inv_make:
  assumes "reply_box_make (Inr q) c = (r, b)" "q \<noteq> 0"
  shows "rb_inv b"
  using assms by (auto simp: reply_box_make_def reply_initialize_def reply_make_def rb_inv_def reply_inv_def sending_def
      sq_new_def rb_queries_def rb_inbox_def)

lemma rb_reach: "reply_box_make (Inr q) c = (r, b0) \<Longrightarrow> q \<noteq> 0 \<Longrightarrow> rb_step\<^sup>*\<^sup>* b0 b \<Longrightarrow> rb_inv b"
  by (rotate_tac 2, induction rule: rtranclp_induct) (auto intro: rb_inv_make rb_inv_step)

lemma rb_inv_ready:
  "rb_inv b \<Longrightarrow> communicator_isReady (rb_reply b) \<Longrightarrow> rb_current_query b = 0 \<Longrightarrow> box_ready b"
  by (auto simp: rb_inv_def box_ready_def rb_queries_def)

section \<open>Properties\<close>

text \<open>
  C13. A query's context is always in one place: in every state a reply communicator can reach,
  whatever its handler does, the context being received on, those of the requests that await a
  response, and those of the responses being sent or queued are all different; so no context is
  answered twice, nor closed while its response is on the way.
\<close>

theorem reply_contexts_apart:
  assumes "(reply_step H)\<^sup>*\<^sup>* (reply_make c) s"
  shows "distinct (map fst (sending s)) \<and> fst ` set (sending s) \<inter> rp_unresponded s = {} \<and>
    (\<forall>q. rp_ctx_recv s = Some q \<longrightarrow> q \<notin> rp_unresponded s \<and> q \<notin> fst ` set (sending s))"
  using reply_inv_reach [OF assms] by (simp add: reply_inv_def)

text \<open>
  C24. Responses are sent as a queued sender sends: responding either changes nothing in the sending
  part or hands it one message, for a request that awaited its response and from then on does not; and
  the completion of a transmission has the effect of a queued sender's.
\<close>

theorem reply_refines_queued_send:
  assumes "respondTo H q msg s = (r, s')" "rp_aio_send t = AioSending x" "rp_handler t = Some h"
  shows "(reply_queue s' = reply_queue s \<and> rp_unresponded s' = rp_unresponded s \<or>
      (\<exists>m. q \<in> rp_unresponded s \<and> rp_unresponded s' = rp_unresponded s - {q} \<and>
        reply_queue s' = snd (qs_send (q, m) (reply_queue s)))) \<and>
    reply_queue (snd (reply_aioSent H e t)) = qs_aioSent e (reply_queue t)"
  using respondTo_queue [OF assms(1)] aioSent_queue [OF assms(2,3)] by blast

text \<open>
  C25. \<open>respond_all\<close> ends and answers every request that has arrived: in every state a box can reach
  between two requests, while its socket is ready, it empties the queue, without an error, and the
  responses are handed to the sender in the order of the requests, each under its own query.
\<close>

theorem respond_all_answers:
  assumes "reply_box_make (Inr q) c = (r, b0)" "q \<noteq> 0" "rb_step\<^sup>*\<^sup>* b0 b"
    and "communicator_isReady (rb_reply b)" "rb_current_query b = 0" "\<forall>m. fn m = Some (g m)"
  shows "\<exists>b'. respond_all fn b = (Inr (), b') \<and> rb_inbox b' = [] \<and>
    sending (rb_reply b') = sending (rb_reply b) @ map (\<lambda>(q, m). (q, g m)) (rb_inbox b) \<and>
    rp_unresponded (rb_reply b') = rp_unresponded (rb_reply b) - fst ` set (rb_inbox b)"
  using respond_all_run [OF rb_inv_ready [OF rb_reach [OF assms(1-3)] assms(4,5)] assms(6)] by blast

text \<open>An example: a box that one request has reached.\<close>

definition example_reply_box :: "(unit, nat) Reply_Box" where
  "example_reply_box = (let b = snd (reply_box_make (Inr 3) (example_communicator SERVICE REQ_REP))
    in b\<lparr>rb_reply := snd (reply_aioReceived reply_box_handler (Inr 4) (Inr 7) (rb_reply b))\<rparr>)"

lemmas example_reply_defs = example_reply_box_def reply_box_make_def reply_initialize_def reply_make_def
  example_communicator_def reply_aioReceived_def receive_next_def

lemma example_reply_values:
  "rb_inbox example_reply_box = [(3, 7)]" "rb_current_query example_reply_box = 0" "communicator_isReady (rb_reply example_reply_box)"
  "rp_handler (rb_reply example_reply_box) = Some [(3, 7)]"
  "rp_unresponded (rb_reply example_reply_box) = {3}" "rp_ctx_recv (rb_reply example_reply_box) = Some 4"
  "rp_outbox (rb_reply example_reply_box) = sq_new" "sending (rb_reply example_reply_box) = []"
  by (simp_all add: example_reply_defs rb_inbox_def communicator_isReady_def socket_isReady_def sending_def sq_new_def)

lemma example_fresh: "fresh_ctx (Inr 4) (rb_reply (snd (reply_box_make (Inr 3) (example_communicator SERVICE REQ_REP))))"
  by (simp add: fresh_ctx_def reply_contexts_def sending_def sq_new_def example_reply_defs)

theorem reply_contexts_apart_witness:
  "(reply_step reply_box_handler)\<^sup>*\<^sup>* (reply_make (example_communicator SERVICE REQ_REP)) (rb_reply example_reply_box) \<and>
    distinct (map fst (sending (rb_reply example_reply_box)))"
proof -
  let ?c = "example_communicator SERVICE REQ_REP"
  let ?s = "rb_reply (snd (reply_box_make (Inr 3) ?c)) :: (unit, (QueryID \<times> nat) list, nat) Reply"
  have "?s = snd (reply_initialize (Inr 3) (Some []) (reply_make ?c))" by (simp add: reply_box_make_def split: prod.split)
  moreover have "fresh_ctx (Inr 3) (reply_make ?c :: (unit, (QueryID \<times> nat) list, nat) Reply)"
    by (simp add: fresh_ctx_def reply_contexts_def sending_def sq_new_def reply_make_def)
  ultimately have "(reply_step reply_box_handler)\<^sup>*\<^sup>* (reply_make ?c) ?s" by (simp add: r_into_rtranclp reply_step.init)
  moreover have "reply_step reply_box_handler ?s (rb_reply example_reply_box)"
    using reply_step.receive [OF _ example_fresh, of reply_box_handler "Inr 7"] by (simp add: example_reply_defs)
  ultimately have r: "(reply_step reply_box_handler)\<^sup>*\<^sup>* (reply_make ?c) (rb_reply example_reply_box)"
    by (rule rtranclp.rtrancl_into_rtrancl)
  with reply_contexts_apart [OF r] show ?thesis by simp
qed

theorem reply_refines_queued_send_witness:
  "\<exists>s'. respondTo reply_box_handler 3 (Some 8) (rb_reply example_reply_box) = (Inr (), s') \<and>
    reply_queue (snd (reply_aioSent reply_box_handler nng_success s')) = qs_aioSent nng_success (reply_queue s')"
proof -
  obtain s' where s': "respondTo reply_box_handler 3 (Some 8) (rb_reply example_reply_box) = (Inr (), s')"
    "rp_aio_send s' = AioSending (3, 8)" "rp_handler s' = Some [(3, 7)]"
    using respondTo_accepts [of "rb_reply example_reply_box" "[(3, 7)]" reply_box_handler 3 "Some 8" 8 "[(3, 7)]"]
    by (simp add: example_reply_values sq_new_def)
  from reply_refines_queued_send [OF this] s'(1) show ?thesis by blast
qed

theorem respond_all_answers_witness:
  "\<exists>b'. respond_all (\<lambda>m. Some (m + 1)) example_reply_box = (Inr (), b') \<and> sending (rb_reply b') = [(3, 8)]"
proof -
  let ?b = "snd (reply_box_make (Inr 3) (example_communicator SERVICE REQ_REP)) :: (unit, nat) Reply_Box"
  obtain r where b: "reply_box_make (Inr 3) (example_communicator SERVICE REQ_REP) = (r, ?b)"
    by (cases "reply_box_make (Inr 3) (example_communicator SERVICE REQ_REP) :: unit result \<times> (unit, nat) Reply_Box") simp
  have "rb_step ?b example_reply_box"
    using rb_step.arrive [OF _ example_fresh, of "Inr 7"] by (simp add: example_reply_defs)
  from respond_all_answers [OF b _ r_into_rtranclp [of rb_step, OF this], of "\<lambda>m. Some (m + 1)" "\<lambda>m. m + 1"]
  show ?thesis by (auto simp: example_reply_values)
qed

end
