(* ===== verification/Communicators.thy ===== *)
theory Communicators
  imports Service_Registration Service_Reply
begin

text \<open>
  The communicators that only send or only receive, and the clients and services made of three
  communicators: \<open>client_push.h\<close>, \<open>service_publish.h\<close>, \<open>service_pull.h\<close>, \<open>client_subscribe.h\<close>,
  \<open>client_base.h\<close>, \<open>client.h\<close>, \<open>service_base.h\<close> and \<open>service.h\<close> under \<open>include/telling\<close>, with
  \<open>client.cpp\<close>, \<open>client_subscribe.cpp\<close> and \<open>service.cpp\<close> under \<open>src/telling\<close>.
\<close>

section \<open>Pushing and publishing\<close>

text \<open>\<open>Push\<close> and \<open>Publish\<close> are a communicator and a sending loop; they differ in role and pattern.\<close>

record ('p, 'h, 'm) Sender = "'p Communicator" +
  se_loop :: "('h, 'm) SendLoop"

definition sender_make :: "'p Communicator \<Rightarrow> ('p, 'h, 'm) Sender" where
  "sender_make c = \<lparr>co_role = co_role c, co_pattern = co_pattern c, co_protocol = co_protocol c, co_socket = co_socket c,
    se_loop = send_loop_new\<rparr>"

definition sender_initialize ::
    "('h, 'm) SendHandler \<Rightarrow> 'h option \<Rightarrow> ('p, 'h, 'm) Sender \<Rightarrow> unit result \<times> ('p, 'h, 'm) Sender" where
  "sender_initialize H h s = (case send_init H h (se_loop s) of (r, l) \<Rightarrow> (r, s\<lparr>se_loop := l\<rparr>))"

definition sender_send ::
    "string \<Rightarrow> ('h, 'm) SendHandler \<Rightarrow> 'm \<Rightarrow> ('p, 'h, 'm) Sender \<Rightarrow> unit result \<times> ('p, 'h, 'm) Sender" where
  "sender_send refusal H m s =
    (if \<not> communicator_isReady s then (Inl (NngExn nng_closed refusal), s)
     else (case send_msg H m (se_loop s) of (r, l) \<Rightarrow> (r, s\<lparr>se_loop := l\<rparr>)))"

definition push :: "('h, 'm) SendHandler \<Rightarrow> 'm \<Rightarrow> ('p, 'h, 'm) Sender \<Rightarrow> unit result \<times> ('p, 'h, 'm) Sender" where
  "push = sender_send ''Push Communicator is not ready.''"

definition publish :: "('h, 'm) SendHandler \<Rightarrow> 'm \<Rightarrow> ('p, 'h, 'm) Sender \<Rightarrow> unit result \<times> ('p, 'h, 'm) Sender" where
  "publish = sender_send ''Publish Communicator is not ready.''"

text \<open>\<open>Push_Box\<close> and \<open>Publish_Box\<close>: the handler is a queue that lives as long as the communicator.\<close>

type_synonym ('p, 'm) Sender_Box = "('p, 'm SendQueueMtx, 'm) Sender"

definition sender_box :: "'p Communicator \<Rightarrow> ('p, 'm) Sender_Box" where
  "sender_box c = snd (sender_initialize send_queue_handler (Some sq_new) (sender_make c))"

section \<open>Pulling and subscribing\<close>

record ('p, 'h, 'm) Receiver = "'p Communicator" +
  re_loop :: "('h, 'm) RecvLoop"
  re_topics :: "string list"

definition receiver_make :: "'p Communicator \<Rightarrow> ('p, 'h, 'm) Receiver" where
  "receiver_make c = \<lparr>co_role = co_role c, co_pattern = co_pattern c, co_protocol = co_protocol c, co_socket = co_socket c,
    re_loop = recv_loop_new, re_topics = []\<rparr>"

definition receiver_initialize ::
    "('h, 'm) RecvHandler \<Rightarrow> 'h option \<Rightarrow> ('p, 'h, 'm) Receiver \<Rightarrow> unit result \<times> ('p, 'h, 'm) Receiver" where
  "receiver_initialize H h s = (case recv_start H h (re_loop s) of (r, l) \<Rightarrow> (r, s\<lparr>re_loop := l\<rparr>))"

text \<open>
  Subscriptions are options of the receiving context; setting one is a call of the library, whose
  outcome is \<open>set_opt\<close>. A topic that was never subscribed cannot be unsubscribed.
\<close>

definition subscribe :: "nng_error \<Rightarrow> string \<Rightarrow> ('p, 'h, 'm) Receiver \<Rightarrow> unit result \<times> ('p, 'h, 'm) Receiver" where
  "subscribe set_opt topic s =
    (if set_opt \<noteq> nng_success then (Inl (NngExn set_opt ''set_opt''), s) else (Inr (), s\<lparr>re_topics := List.insert topic (re_topics s)\<rparr>))"

definition unsubscribe :: "nng_error \<Rightarrow> string \<Rightarrow> ('p, 'h, 'm) Receiver \<Rightarrow> unit result \<times> ('p, 'h, 'm) Receiver" where
  "unsubscribe set_opt topic s =
    (if set_opt \<noteq> nng_success then (Inl (NngExn set_opt ''set_opt''), s) else (Inr (), s\<lparr>re_topics := removeAll topic (re_topics s)\<rparr>))"

type_synonym ('p, 'm) Receiver_Box = "('p, 'm RecvQueueMtx, 'm) Receiver"

definition receiver_box :: "'p Communicator \<Rightarrow> ('p, 'm) Receiver_Box" where
  "receiver_box c = snd (receiver_initialize recv_queue_handler (Some []) (receiver_make c))"

text \<open>\<open>Pull_Box::pull\<close> and \<open>Subscribe_Box::consume\<close>.\<close>

definition receiver_pull :: "('p, 'm) Receiver_Box \<Rightarrow> 'm option \<times> ('p, 'm) Receiver_Box" where
  "receiver_pull s = (case rl_handler (re_loop s) of
      None \<Rightarrow> (None, s)
    | Some q \<Rightarrow> (case rq_pull q of (m, q) \<Rightarrow> (m, s\<lparr>re_loop := (re_loop s)\<lparr>rl_handler := Some q\<rparr>\<rparr>)))"

section \<open>Clients\<close>

text \<open>
  A client has a requester, a subscriber and a pusher. The operations on addresses act on the three
  sockets together. Initialising gives one handler to all three; \<open>'h\<close> stands for that handler.
\<close>

record ('h, 'm) Client =
  cl_requester :: "('h, 'h, 'm) Request"
  cl_subscriber :: "('h, 'h, 'm) Receiver"
  cl_pusher :: "('h, 'h, 'm) Sender"

definition client_sockets :: "('h, 'm) Client \<Rightarrow> 'h Socket option list" where
  "client_sockets c = [co_socket (cl_requester c), co_socket (cl_subscriber c), co_socket (cl_pusher c)]"

definition client_with :: "('h, 'm) Client \<Rightarrow> 'h Socket option list \<Rightarrow> ('h, 'm) Client" where
  "client_with c ks = c\<lparr>cl_requester := (cl_requester c)\<lparr>co_socket := ks ! 0\<rparr>,
    cl_subscriber := (cl_subscriber c)\<lparr>co_socket := ks ! 1\<rparr>, cl_pusher := (cl_pusher c)\<lparr>co_socket := ks ! 2\<rparr>\<rparr>"

definition client_dial where
  "client_dial os made base order c = (case Dial os made base order (client_sockets c) of (r, ks) \<Rightarrow> (r, client_with c ks))"

definition client_listen where
  "client_listen os made base order c = (case Listen os made base order (client_sockets c) of (r, ks) \<Rightarrow> (r, client_with c ks))"

definition client_disconnect where
  "client_disconnect os base c = client_with c (Disconnect os base (client_sockets c))"

definition client_disconnectAll where
  "client_disconnectAll c = client_with c (DisconnectAll (client_sockets c))"

definition client_close where
  "client_close c = client_with c (Close (client_sockets c))"

definition on_requester where
  "on_requester f c = (case f (cl_requester c) of (r, x) \<Rightarrow> (r, c\<lparr>cl_requester := x\<rparr>))"

definition on_subscriber where
  "on_subscriber f c = (case f (cl_subscriber c) of (r, x) \<Rightarrow> (r, c\<lparr>cl_subscriber := x\<rparr>))"

definition on_pusher where
  "on_pusher f c = (case f (cl_pusher c) of (r, x) \<Rightarrow> (r, c\<lparr>cl_pusher := x\<rparr>))"

definition client_initialize ::
    "('h, 'm) RecvHandler \<Rightarrow> ('h, 'm) SendHandler \<Rightarrow> 'h option \<Rightarrow> ('h, 'm) Client \<Rightarrow> unit result \<times> ('h, 'm) Client" where
  "client_initialize R S h =
    ebind (on_requester (communicator_on (setPipeHandler h))) (\<lambda>_.
    ebind (on_subscriber (communicator_on (setPipeHandler h))) (\<lambda>_.
    ebind (on_pusher (communicator_on (setPipeHandler h))) (\<lambda>_.
    ebind (on_requester (request_initialize h)) (\<lambda>_.
    ebind (on_subscriber (receiver_initialize R h)) (\<lambda>_.
    on_pusher (sender_initialize S h))))))"

definition client_push where
  "client_push S m = on_pusher (push S m)"

definition client_request where
  "client_request H made m = on_requester (request H made m)"

text \<open>The queue of \<open>ClientHandler\<close> for pushed messages, and of \<open>ServiceHandler\<close> for published ones.\<close>

definition pushing_prep :: "'m \<Rightarrow> 'm SendQueueMtx \<Rightarrow> ('m option) result \<times> 'm SendQueueMtx" where
  "pushing_prep m q = (case sq_produce m q of
      (True, rest, q) \<Rightarrow> (Inr rest, q)
    | (False, None, q) \<Rightarrow> (Inr None, q)
    | (False, Some m, q) \<Rightarrow> (Inr (fst (send_prompt True m None)), q))"

definition pushing_sent :: "'m SendQueueMtx \<Rightarrow> 'm option \<times> 'm SendQueueMtx" where
  "pushing_sent q = (case sq_consume q of (Some m, q) \<Rightarrow> (fst (send_prompt True m None), q) | (None, q) \<Rightarrow> (None, q))"

definition publishing_prep :: "'m \<Rightarrow> 'm SendQueueMtx \<Rightarrow> ('m option) result \<times> 'm SendQueueMtx" where
  "publishing_prep = pushing_prep"

definition publishing_sent :: "'m SendQueueMtx \<Rightarrow> 'm option \<times> 'm SendQueueMtx" where
  "publishing_sent = pushing_sent"

section \<open>Services\<close>

text \<open>A service has a replier, a publisher and a puller, a path, and perhaps a registration under way.\<close>

record ('h, 'm) Service =
  sr_uri :: string
  sr_registration :: "unit Registration option"
  sr_replier :: "('h, 'h, 'm) Reply"
  sr_publisher :: "('h, 'h, 'm) Sender"
  sr_puller :: "('h, 'h, 'm) Receiver"

definition inProcAddress :: "('h, 'm) Service \<Rightarrow> HostAddress_Base" where
  "inProcAddress s = host_InProc (sr_uri s)"

definition service_sockets :: "('h, 'm) Service \<Rightarrow> 'h Socket option list" where
  "service_sockets s = [co_socket (sr_replier s), co_socket (sr_publisher s), co_socket (sr_puller s)]"

definition service_with :: "('h, 'm) Service \<Rightarrow> 'h Socket option list \<Rightarrow> ('h, 'm) Service" where
  "service_with s ks = s\<lparr>sr_replier := (sr_replier s)\<lparr>co_socket := ks ! 0\<rparr>,
    sr_publisher := (sr_publisher s)\<lparr>co_socket := ks ! 1\<rparr>, sr_puller := (sr_puller s)\<lparr>co_socket := ks ! 2\<rparr>\<rparr>"

definition service_dial where
  "service_dial os made base order s = (case Dial os made base order (service_sockets s) of (r, ks) \<Rightarrow> (r, service_with s ks))"

definition service_listen where
  "service_listen os made base order s = (case Listen os made base order (service_sockets s) of (r, ks) \<Rightarrow> (r, service_with s ks))"

definition service_disconnect where
  "service_disconnect os base s = service_with s (Disconnect os base (service_sockets s))"

definition service_disconnectAll where
  "service_disconnectAll s = service_with s (DisconnectAll (service_sockets s))"

definition service_close where
  "service_close s = service_with s (Close (service_sockets s))"

definition registerURI ::
    "platform \<Rightarrow> nng_error + nat \<Rightarrow> nng_error + QueryID \<Rightarrow> unit Communicator \<Rightarrow> string \<Rightarrow> ('h, 'm) Service \<Rightarrow>
      unit result \<times> ('h, 'm) Service" where
  "registerURI os dialed made c serverID s =
    (if sr_registration s \<noteq> None then (Inl (NngExn nng_busy ''Service Registration already in progress.''), s)
     else (case registration_make os dialed made (sr_uri s) (sr_uri s) serverID c of
        (Inl e, _) \<Rightarrow> (Inl e, s)
      | (Inr _, g) \<Rightarrow> (Inr (), s\<lparr>sr_registration := Some g\<rparr>)))"

definition on_replier where
  "on_replier f s = (case f (sr_replier s) of (r, x) \<Rightarrow> (r, s\<lparr>sr_replier := x\<rparr>))"

definition on_puller where
  "on_puller f s = (case f (sr_puller s) of (r, x) \<Rightarrow> (r, s\<lparr>sr_puller := x\<rparr>))"

definition on_publisher where
  "on_publisher f s = (case f (sr_publisher s) of (r, x) \<Rightarrow> (r, s\<lparr>sr_publisher := x\<rparr>))"

definition service_initialize ::
    "nng_error + QueryID \<Rightarrow> ('h, 'm) RecvHandler \<Rightarrow> ('h, 'm) SendHandler \<Rightarrow> 'h option \<Rightarrow> ('h, 'm) Service \<Rightarrow>
      unit result \<times> ('h, 'm) Service" where
  "service_initialize made R S h =
    ebind (on_replier (communicator_on (setPipeHandler h))) (\<lambda>_.
    ebind (on_puller (communicator_on (setPipeHandler h))) (\<lambda>_.
    ebind (on_publisher (communicator_on (setPipeHandler h))) (\<lambda>_.
    ebind (on_replier (reply_initialize made h)) (\<lambda>_.
    ebind (on_puller (receiver_initialize R h)) (\<lambda>_.
    on_publisher (sender_initialize S h))))))"

definition service_publish where
  "service_publish S m = on_publisher (publish S m)"

definition service_respondTo where
  "service_respondTo H q m = on_replier (respondTo H q m)"

text \<open>The constructor of \<open>Service\<close>: register with the server, if one is named, then listen.\<close>

definition service_construct ::
    "platform \<Rightarrow> nng_error + nat \<Rightarrow> nng_error + QueryID \<Rightarrow> unit Communicator \<Rightarrow> (nat \<Rightarrow> nng_error + nat) \<Rightarrow> nat list \<Rightarrow>
      string \<Rightarrow> ('h, 'm) Service \<Rightarrow> unit result \<times> ('h, 'm) Service" where
  "service_construct os dialed made c listened order serverID =
    ebind (\<lambda>s. if serverID \<noteq> [] then registerURI os dialed made c serverID s else (Inr (), s)) (\<lambda>_ s.
      service_listen os listened (inProcAddress s) order s)"

section \<open>Lemmas\<close>

lemma pushing_is_send_queue: "pushing_prep = send_queue_prep" "pushing_sent = send_queue_sent"
  by (simp_all add: fun_eq_iff pushing_prep_def send_queue_prep_def pushing_sent_def send_queue_sent_def send_prompt_def
      sq_consume_def sq_produce_def split: list.split)

lemma ebind_ok: "ebind f g s = (Inr b, s'') \<Longrightarrow> \<exists>a s'. f s = (Inr a, s') \<and> g a s' = (Inr b, s'')"
  by (auto simp: ebind_def split: prod.splits sum.splits)

lemma pipe_handler_installed:
  assumes "communicator_on (setPipeHandler (Some h)) c = (Inr (), c')"
  obtains k where "co_socket c' = Some k" "sk_pipe_handler k = Some h"
  using assms by (auto simp: communicator_on_def setPipeHandler_def split: option.splits if_splits)

lemma pipe_handler_refused:
  assumes "co_socket c = Some k" "sk_pipe_handler k = Some h"
  shows "communicator_on (setPipeHandler h') c = (Inl (NngExn nng_busy ''telling::Socket::setPipeHandler''), c)"
  using assms by (simp add: communicator_on_def setPipeHandler_def)

lemma request_initialize_socket: "co_socket (snd (request_initialize h s)) = co_socket s"
  and reply_initialize_socket: "co_socket (snd (reply_initialize made h' t)) = co_socket t"
  by (simp_all add: request_initialize_def reply_initialize_def Let_def split: sum.split)

lemma client_keeps_requester:
  "cl_requester (snd (on_subscriber f c)) = cl_requester c" "cl_requester (snd (on_pusher g c)) = cl_requester c"
  by (simp_all add: on_subscriber_def on_pusher_def split: prod.split)

lemma service_keeps_replier:
  "sr_replier (snd (on_puller f s)) = sr_replier s" "sr_replier (snd (on_publisher g s)) = sr_replier s"
  by (simp_all add: on_puller_def on_publisher_def split: prod.split)

lemma client_initialize_pipe:
  assumes "client_initialize R S (Some h) c = (Inr (), c')"
  obtains k where "co_socket (cl_requester c') = Some k" "sk_pipe_handler k = Some h"
proof -
  obtain c1 c2 c3 c4 c5 where
    1: "on_requester (communicator_on (setPipeHandler (Some h))) c = (Inr (), c1)"
    and 2: "on_subscriber (communicator_on (setPipeHandler (Some h))) c1 = (Inr (), c2)"
    and 3: "on_pusher (communicator_on (setPipeHandler (Some h))) c2 = (Inr (), c3)"
    and 4: "on_requester (request_initialize (Some h)) c3 = (Inr (), c4)"
    and 5: "on_subscriber (receiver_initialize R (Some h)) c4 = (Inr (), c5)"
    and 6: "on_pusher (sender_initialize S (Some h)) c5 = (Inr (), c')"
    using assms unfolding client_initialize_def by (auto dest!: ebind_ok)
  have "communicator_on (setPipeHandler (Some h)) (cl_requester c) = (Inr (), cl_requester c1)"
    using 1 by (auto simp: on_requester_def split: prod.splits)
  then obtain k where k: "co_socket (cl_requester c1) = Some k" "sk_pipe_handler k = Some h" by (rule pipe_handler_installed)
  have "cl_requester c3 = cl_requester c1" "cl_requester c' = cl_requester c4"
    using client_keeps_requester 2 3 5 6 by (metis snd_conv)+
  moreover have "co_socket (cl_requester c4) = co_socket (cl_requester c3)"
    using 4 request_initialize_socket [of "Some h" "cl_requester c3"] by (auto simp: on_requester_def split: prod.splits)
  ultimately show thesis using k by (intro that) simp_all
qed

lemma service_initialize_pipe:
  assumes "service_initialize made R S (Some h) s = (Inr (), s')"
  obtains k where "co_socket (sr_replier s') = Some k" "sk_pipe_handler k = Some h"
proof -
  obtain s1 s2 s3 s4 s5 where
    1: "on_replier (communicator_on (setPipeHandler (Some h))) s = (Inr (), s1)"
    and 2: "on_puller (communicator_on (setPipeHandler (Some h))) s1 = (Inr (), s2)"
    and 3: "on_publisher (communicator_on (setPipeHandler (Some h))) s2 = (Inr (), s3)"
    and 4: "on_replier (reply_initialize made (Some h)) s3 = (Inr (), s4)"
    and 5: "on_puller (receiver_initialize R (Some h)) s4 = (Inr (), s5)"
    and 6: "on_publisher (sender_initialize S (Some h)) s5 = (Inr (), s')"
    using assms unfolding service_initialize_def by (auto dest!: ebind_ok)
  have "communicator_on (setPipeHandler (Some h)) (sr_replier s) = (Inr (), sr_replier s1)"
    using 1 by (auto simp: on_replier_def split: prod.splits)
  then obtain k where k: "co_socket (sr_replier s1) = Some k" "sk_pipe_handler k = Some h" by (rule pipe_handler_installed)
  have "sr_replier s3 = sr_replier s1" "sr_replier s' = sr_replier s4"
    using service_keeps_replier 2 3 5 6 by (metis snd_conv)+
  moreover have "co_socket (sr_replier s4) = co_socket (sr_replier s3)"
    using 4 reply_initialize_socket [of made "Some h" "sr_replier s3"] by (auto simp: on_replier_def split: prod.splits)
  ultimately show thesis using k by (intro that) simp_all
qed

section \<open>Properties\<close>

text \<open>
  Only one handler at a time: a client or a service that has been initialised with a handler
  that is alive refuses another, and stays as it is.
\<close>

theorem one_handler_at_a_time:
  assumes "client_initialize R S (Some h) c = (Inr (), c')" "service_initialize made P Q (Some k) s = (Inr (), s')"
  shows "client_initialize R' S' h' c' = (Inl (NngExn nng_busy ''telling::Socket::setPipeHandler''), c') \<and>
    service_initialize made' P' Q' k' s' = (Inl (NngExn nng_busy ''telling::Socket::setPipeHandler''), s')"
proof -
  obtain x where x: "co_socket (cl_requester c') = Some x" "sk_pipe_handler x = Some h"
    using client_initialize_pipe [OF assms(1)] .
  obtain y where y: "co_socket (sr_replier s') = Some y" "sk_pipe_handler y = Some k"
    using service_initialize_pipe [OF assms(2)] .
  show ?thesis unfolding client_initialize_def service_initialize_def
    by (simp add: ebind_def on_requester_def on_replier_def pipe_handler_refused [OF x] pipe_handler_refused [OF y])
qed

text \<open>An example: a client and a service, with a handler that ignores everything.\<close>

definition quiet_recv :: "(unit, nat) RecvHandler" where
  "quiet_recv = \<lparr>ar_start = (\<lambda>h. (Inr (), h)), ar_stop = (\<lambda>e h. h), ar_error = (\<lambda>e h. h), ar_recv = (\<lambda>m h. h)\<rparr>"

definition quiet_send :: "(unit, nat) SendHandler" where
  "quiet_send = \<lparr>as_start = (\<lambda>h. (Inr (), h)), as_stop = (\<lambda>e h. h), as_error = (\<lambda>e h. (None, h)),
    as_prep = (\<lambda>m h. (Inr (Some m), h)), as_sent = (\<lambda>h. (None, h))\<rparr>"

definition example_client :: "(unit, nat) Client" where
  "example_client = \<lparr>cl_requester = request_make (example_communicator CLIENT REQ_REP),
    cl_subscriber = receiver_make (example_communicator CLIENT PUB_SUB),
    cl_pusher = sender_make (example_communicator CLIENT PUSH_PULL)\<rparr>"

definition example_service :: "(unit, nat) Service" where
  "example_service = \<lparr>sr_uri = ''/a'', sr_registration = None, sr_replier = reply_make (example_communicator SERVICE REQ_REP),
    sr_publisher = sender_make (example_communicator SERVICE PUB_SUB),
    sr_puller = receiver_make (example_communicator SERVICE PUSH_PULL)\<rparr>"

theorem one_handler_at_a_time_witness:
  "\<exists>c' s'. client_initialize quiet_recv quiet_send (Some ()) example_client = (Inr (), c') \<and>
    service_initialize (Inr 1) quiet_recv quiet_send (Some ()) example_service = (Inr (), s') \<and>
    client_initialize quiet_recv quiet_send (Some ()) c' = (Inl (NngExn nng_busy ''telling::Socket::setPipeHandler''), c')"
proof -
  note eval = ebind_def communicator_on_def setPipeHandler_def example_communicator_def send_loop_new_def recv_loop_new_def
    receiver_initialize_def recv_start_def sender_initialize_def send_init_def quiet_recv_def quiet_send_def sender_make_def receiver_make_def
  obtain c' where c: "client_initialize quiet_recv quiet_send (Some ()) example_client = (Inr (), c')"
    by (simp add: client_initialize_def example_client_def on_requester_def on_subscriber_def on_pusher_def
        request_make_def request_initialize_def eval)
  obtain s' where s: "service_initialize (Inr 1) quiet_recv quiet_send (Some ()) example_service = (Inr (), s')"
    by (simp add: service_initialize_def example_service_def on_replier_def on_publisher_def on_puller_def
        reply_make_def reply_initialize_def eval)
  from one_handler_at_a_time [OF c s] c s show ?thesis by blast
qed

end
