(* ===== verification/Prefix_Map.thy ===== *)
theory Prefix_Map
  imports Msg_Util "HOL-Library.Sublist"
begin

text \<open>
  Maps from strings with a search for the longest key that is a prefix of a string: what the directory of the server relies on in
  \<open>PrefixMap\<close> (\<open>include/telling/server.h\<close>). The maps of HOL are one instance; the tries of
  \<open>thirdparty/include/tsl\<close> are another.
\<close>

section \<open>Reference\<close>

text \<open>The longest size of a key: sizes are of 16 bits, and the greatest of them marks the end of a bucket.\<close>

definition MAX_KEY_SIZE :: nat where
  "MAX_KEY_SIZE = 65534"

definition key_fits :: "string \<Rightarrow> bool" where
  "key_fits k \<longleftrightarrow> length k \<le> MAX_KEY_SIZE"

text \<open>The search tries the string and then ever shorter prefixes of it.\<close>

fun longest_prefix :: "(string \<rightharpoonup> 'v) \<Rightarrow> string \<Rightarrow> string option" where
  "longest_prefix m path =
    (if m path \<noteq> None then Some path else if path = [] then None else longest_prefix m (butlast path))"

declare longest_prefix.simps [simp del]

lemma longest_prefix_some: "longest_prefix m path = Some k \<Longrightarrow> prefix k path \<and> m k \<noteq> None"
proof (induction m path rule: longest_prefix.induct)
  case (1 m path)
  then show ?case
    by (subst (asm) longest_prefix.simps) (auto split: if_splits intro: prefix_order.trans [OF _ prefixeq_butlast])
qed

lemma longest_prefix_max: "prefix j path \<Longrightarrow> m j \<noteq> None \<Longrightarrow> \<exists>k. longest_prefix m path = Some k \<and> length j \<le> length k"
proof (induction m path rule: longest_prefix.induct)
  case (1 m path)
  show ?case
  proof (cases "m path = None")
    case True
    with 1(3) have "j \<noteq> path" by auto
    with 1(2) have "path \<noteq> []" "prefix j (butlast path)"
      by (auto simp: prefix_def butlast_append)
    with 1(1) [of] True 1(3) show ?thesis by (subst longest_prefix.simps) auto
  next
    case False
    with 1(2) show ?thesis by (subst longest_prefix.simps) (auto dest: prefix_length_le)
  qed
qed

section \<open>Interface\<close>

text \<open>
  Finding after inserting a new key and after erasing, and a search that gives the longest key that is a prefix. \<open>fits\<close> says which keys can
  be inserted, \<open>inv\<close> which maps are well-formed.
\<close>

locale prefix_map =
  fixes inv :: "'m \<Rightarrow> bool"
    and fits :: "string \<Rightarrow> bool"
    and find :: "'m \<Rightarrow> string \<Rightarrow> 'v option"
    and insert :: "string \<Rightarrow> 'v \<Rightarrow> 'm \<Rightarrow> 'm"
    and erase :: "string \<Rightarrow> 'm \<Rightarrow> 'm"
    and longest :: "'m \<Rightarrow> string \<Rightarrow> string option"
  assumes find_insert: "inv m \<Longrightarrow> fits k \<Longrightarrow> find m k = None \<Longrightarrow> find (insert k v m) j = (if j = k then Some v else find m j)"
    and inv_insert: "inv m \<Longrightarrow> fits k \<Longrightarrow> find m k = None \<Longrightarrow> inv (insert k v m)"
    and find_erase: "inv m \<Longrightarrow> find (erase k m) j = (if j = k then None else find m j)"
    and inv_erase: "inv m \<Longrightarrow> inv (erase k m)"
    and longest_some: "inv m \<Longrightarrow> longest m path = Some k \<Longrightarrow> prefix k path \<and> find m k \<noteq> None"
    and longest_max: "inv m \<Longrightarrow> prefix j path \<Longrightarrow> find m j \<noteq> None \<Longrightarrow> \<exists>k. longest m path = Some k \<and> length j \<le> length k"
begin

lemma longest_unique:
  assumes "inv m" "prefix k path" "find m k \<noteq> None" "\<And>j. prefix j path \<Longrightarrow> find m j \<noteq> None \<Longrightarrow> length j \<le> length k"
  shows "longest m path = Some k"
proof -
  obtain k' where k': "longest m path = Some k'" "length k \<le> length k'" using longest_max assms(1-3) by blast
  with longest_some [OF assms(1) k'(1)] assms(4) have "prefix k' path" "length k' \<le> length k" by auto
  with k'(2) assms(2) have "k' = k" by (metis le_antisym prefix_length_prefix prefix_order.antisym)
  with k'(1) show ?thesis by simp
qed

lemma longest_none: "inv m \<Longrightarrow> longest m path = None \<Longrightarrow> prefix k path \<Longrightarrow> find m k = None"
  using longest_max by fastforce

text \<open>The search agrees with the reference on the map of what is found.\<close>

lemma longest_reference: "inv m \<Longrightarrow> longest m path = longest_prefix (find m) path"
proof (cases "longest_prefix (find m) path")
  case None
  assume inv: "inv m"
  have "longest m path \<noteq> Some k" for k
    using longest_some [OF inv, of path k] longest_prefix_max [of k path "find m"] None by auto
  with None show ?thesis by (cases "longest m path") auto
next
  case (Some k)
  assume inv: "inv m"
  have "length j \<le> length k" if "prefix j path" "find m j \<noteq> None" for j
    using longest_prefix_max [of j path "find m"] that Some by auto
  with longest_unique [OF inv, of k path] longest_prefix_some [OF Some] Some show ?thesis by simp
qed

text \<open>A new key takes over the strings it is a prefix of, unless a longer key has them.\<close>

lemma longest_insert:
  assumes "inv m" "fits k" "find m k = None" "prefix k path" "\<And>j. longest m path = Some j \<Longrightarrow> length j \<le> length k"
  shows "longest (insert k v m) path = Some k"
proof (rule longest_unique)
  fix j assume j: "prefix j path" "find (insert k v m) j \<noteq> None"
  show "length j \<le> length k"
  proof (cases "j = k")
    case False
    with j find_insert [OF assms(1-3)] have "find m j \<noteq> None" by simp
    with longest_max [OF assms(1)] j(1) assms(5) show ?thesis by (meson le_trans)
  qed simp
qed (use assms(4) find_insert [OF assms(1-3)] inv_insert [OF assms(1-3)] in simp_all)

lemma longest_not_erased: "inv m \<Longrightarrow> longest (erase k m) path \<noteq> Some k"
  using longest_some [OF inv_erase, of m k path k] find_erase [of m k k] by auto

end

interpretation routes: prefix_map "\<lambda>m. True" "\<lambda>k. True" "\<lambda>m k. m k" "\<lambda>k v m. m(k \<mapsto> v)" "\<lambda>k m. m(k := None)" longest_prefix
  by unfold_locales (auto simp: longest_prefix_some longest_prefix_max)

end
