(* ===== verification/Server_Services.thy ===== *)
theory Server_Services
  imports Communicators Prefix_Map
begin

text \<open>
  The server's directory of services: the classes \<open>Route\<close> and \<open>Services\<close> of \<open>include/telling/server.h\<close>
  with \<open>src/telling/server_services.cpp\<close>. Services register by a request; a management thread opens
  and closes the routes to them; messages are routed to the service whose path is the longest prefix
  of their target. The handlers and the management thread hold one mutex, so each handler, and each
  pass of the thread between two waits, is a step. The results of the library's calls are arguments.
\<close>

section \<open>Routes\<close>

record Route =
  rt_path :: string
  rt_req :: "unit Socket"
  rt_push :: "(unit, nng_msg) Sender_Box"
  rt_send :: "(nng_msg SendQueueMtx, nng_msg) SendLoop"
  rt_recv :: "(unit, nng_msg) RecvLoop"
  rt_halted :: bool

text \<open>The outcomes of opening the sockets of a route and of dialing a service.\<close>

record dial_outcomes =
  do_open_req :: nng_error
  do_open_push :: nng_error
  do_sub :: "nng_error + nat"
  do_req :: "nng_error + nat"
  do_push :: "nng_error + nat"

text \<open>The handler of the replies from services, as far as a route sees it; its effect is in \<open>Server\<close>.\<close>

definition relay_handler :: "(unit, nng_msg) RecvHandler" where
  "relay_handler = \<lparr>ar_start = (\<lambda>h. (Inr (), h)), ar_stop = (\<lambda>e h. h), ar_error = (\<lambda>e h. h), ar_recv = (\<lambda>m h. h)\<rparr>"

definition route_make :: "dial_outcomes \<Rightarrow> string \<Rightarrow> Route result" where
  "route_make env path =
    (case socket_make (do_open_req env) None CLIENT REQ_REP RAW of
      Inl e \<Rightarrow> Inl e
    | Inr req \<Rightarrow>
        (case communicator_make (do_open_push env) CLIENT PUSH_PULL STANDARD of
          Inl e \<Rightarrow> Inl e
        | Inr c \<Rightarrow> Inr \<lparr>rt_path = path, rt_req = req, rt_push = sender_box c,
            rt_send = snd (send_init send_queue_handler (Some sq_new) send_loop_new),
            rt_recv = snd (recv_start relay_handler (Some ()) recv_loop_new), rt_halted = False\<rparr>))"

definition route_dial :: "platform \<Rightarrow> dial_outcomes \<Rightarrow> HostAddress_Base \<Rightarrow> Route \<Rightarrow> unit result \<times> Route" where
  "route_dial os env base =
    ebind (\<lambda>r. case socket_dial_base os (do_req env) base (rt_req r) of (x, k) \<Rightarrow> (x, r\<lparr>rt_req := k\<rparr>)) (\<lambda>_ r.
      case communicator_on (socket_dial_base os (do_push env) base) (rt_push r) of (x, p) \<Rightarrow> (x, r\<lparr>rt_push := p\<rparr>))"

definition sendPush :: "nng_msg \<Rightarrow> Route \<Rightarrow> unit result \<times> Route" where
  "sendPush m r = (case push send_queue_handler m (rt_push r) of (x, p) \<Rightarrow> (x, r\<lparr>rt_push := p\<rparr>))"

definition sendRequest :: "nng_msg \<Rightarrow> Route \<Rightarrow> unit result \<times> Route" where
  "sendRequest m r = (case send_msg send_queue_handler m (rt_send r) of (x, l) \<Rightarrow> (x, r\<lparr>rt_send := l\<rparr>))"

definition route_destroy :: "Route \<Rightarrow> Route" where
  "route_destroy r = r\<lparr>rt_halted := True, rt_req := socket_close (rt_req r), rt_push := communicator_close (rt_push r),
    rt_send := send_stop send_queue_handler (rt_send r), rt_recv := recv_stop relay_handler (rt_recv r)\<rparr>"

section \<open>The directory\<close>

text \<open>\<open>PrefixMap\<close> is a map from strings here; its implementation by a trie is another theory. Keys that are too long for it are refused with an exception.\<close>

record NewRoute =
  nr_queryID :: QueryID
  nr_pipeID :: nat
  nr_map_uri :: string
  nr_host :: HostAddress_Base

text \<open>
  The directory. \<open>sv_subscribe\<close> is the socket by which the server subscribes to what services publish,
  \<open>sv_events\<close> the communicator that publishes the directory's own events, \<open>sv_register\<close> the one that
  services send their registration to.
\<close>

record Services =
  sv_map :: "string \<rightharpoonup> Route"
  sv_route_open :: "NewRoute list"
  sv_route_close :: "Route list"
  sv_registrationMap :: "nat \<rightharpoonup> string"
  sv_register :: "(unit, unit, nng_msg) Reply"
  sv_events :: "(unit, nng_msg) Sender_Box"
  sv_subscribe :: "unit Socket"

definition route :: "string \<Rightarrow> Services \<Rightarrow> Route option" where
  "route path s = (case longest_prefix (sv_map s) path of None \<Rightarrow> None | Some k \<Rightarrow> sv_map s k)"

text \<open>
  Routing gives a status, and the caller's message afterwards, which is empty when it has been passed on.
\<close>

definition route_by ::
    "(nng_msg \<Rightarrow> Route \<Rightarrow> unit result \<times> Route) \<Rightarrow> string \<Rightarrow> nng_msg \<Rightarrow> Services \<Rightarrow> Status \<times> nng_msg option \<times> Services" where
  "route_by send path m s =
    (case longest_prefix (sv_map s) path of
      None \<Rightarrow> (NotFound, Some m, s)
    | Some k \<Rightarrow>
        (case sv_map s k of
          None \<Rightarrow> (NotFound, Some m, s)
        | Some r \<Rightarrow>
            (case send m r of
              (Inl e, r') \<Rightarrow> (ServiceUnavailable, Some m, s\<lparr>sv_map := (sv_map s)(k \<mapsto> r')\<rparr>)
            | (Inr _, r') \<Rightarrow> (OK, None, s\<lparr>sv_map := (sv_map s)(k \<mapsto> r')\<rparr>))))"

definition routePush :: "string \<Rightarrow> nng_msg \<Rightarrow> Services \<Rightarrow> Status \<times> nng_msg option \<times> Services" where
  "routePush = route_by sendPush"

definition routeRequest :: "string \<Rightarrow> nng_msg \<Rightarrow> Services \<Rightarrow> Status \<times> nng_msg option \<times> Services" where
  "routeRequest = route_by sendRequest"

section \<open>Registration\<close>

text \<open>
  The handler of a registration request: the response sent at once through the tag, if any, and the
  directory afterwards. A target other than \<open>*services\<close> is only noted in the log. The second line of
  the body is not used. An exception that leaves the handler ends the program.
\<close>

definition plain_reply :: "Status \<Rightarrow> string \<Rightarrow> nng_msg option result" where
  "plain_reply status body =
    fst (ebind (startReply status (reasonPhrase status)) (\<lambda>_. ebind (writeBody body) (\<lambda>_. writer_release)) (writer_new Telling))"

definition services_recv :: "QueryID \<Rightarrow> nat \<Rightarrow> nng_msg \<Rightarrow> Services \<Rightarrow> nng_msg option result \<times> Services" where
  "services_recv queryID pipeID m s =
    (case msgview_request parse_reset (Some m) of
      Inl e \<Rightarrow> (case e of MsgExn _ _ \<Rightarrow> (replyWithError e ''Service Registry'', s) | _ \<Rightarrow> (Inl e, s))
    | Inr msg \<Rightarrow>
        (case ConsumeLine (mv_bodyString msg) of (pathPrefix, rest) \<Rightarrow>
          (case ConsumeLine rest of (configLine, rest) \<Rightarrow>
            if rest \<noteq> [] then (plain_reply BadRequest ''Malformed Registration Request Body.'', s)
            else (Inr None,
              s\<lparr>sv_registrationMap := (if pipeID \<in> dom (sv_registrationMap s) then sv_registrationMap s
                  else (sv_registrationMap s)(pipeID \<mapsto> pathPrefix)),
                sv_route_open := sv_route_open s @
                  [\<lparr>nr_queryID = queryID, nr_pipeID = pipeID, nr_map_uri = pathPrefix, nr_host = host_InProc pathPrefix\<rparr>]\<rparr>))))"

text \<open>
  How the reply communicator runs this handler: \<open>made\<close> is the context for the next request.
\<close>

definition answer_with :: "nng_msg option \<Rightarrow> (unit, nng_msg) AsyncReply" where
  "answer_with response = \<lparr>ay_recv = (\<lambda>q m h. (response, h)), ay_prep = (\<lambda>q m h. (Inr m, h)), ay_sent = (\<lambda>q h. h), ay_error = (\<lambda>q e h. h)\<rparr>"

definition services_aioReceived ::
    "nng_error + QueryID \<Rightarrow> nat \<Rightarrow> nng_error + nng_msg \<Rightarrow> Services \<Rightarrow> unit result \<times> Services" where
  "services_aioReceived made pipeID aioResult s =
    (case (aioResult, rp_ctx_recv (sv_register s)) of
      (Inr m, Some q) \<Rightarrow>
        (case services_recv q pipeID m s of
          (Inl e, s) \<Rightarrow> (Inl Terminate, s)
        | (Inr response, s) \<Rightarrow>
            (case reply_aioReceived (answer_with response) made (Inr m) (sv_register s) of
              (r, reg) \<Rightarrow> (r, s\<lparr>sv_register := reg\<rparr>)))
    | _ \<Rightarrow>
        (case reply_aioReceived (answer_with None) made aioResult (sv_register s) of (r, reg) \<Rightarrow> (r, s\<lparr>sv_register := reg\<rparr>)))"

text \<open>
  A pipe of the registration socket was removed: the path registered through it leaves the map. For
  a pipe that is not registered the code erases an invalid position.
\<close>

definition services_pipeEvent :: "nat \<Rightarrow> pipe_ev \<Rightarrow> Services \<Rightarrow> unit result \<times> Services" where
  "services_pipeEvent pipeID event s =
    (if event \<noteq> rem_post then (Inr (), s)
     else (case sv_registrationMap s pipeID of
        None \<Rightarrow> (Inl (Undefined ''erase of the end iterator''), s)
      | Some path \<Rightarrow>
          let s = s\<lparr>sv_registrationMap := (sv_registrationMap s)(pipeID := None)\<rparr> in
          (case sv_map s path of
            Some r \<Rightarrow> (Inr (), s\<lparr>sv_map := (sv_map s)(path := None), sv_route_close := sv_route_close s @ [r]\<rparr>)
          | None \<Rightarrow> (Inr (), s))))"

section \<open>The management thread\<close>

text \<open>Replying to a registration and publishing an event; an exception in the thread ends the program.\<close>

definition notice :: "Status \<Rightarrow> string \<Rightarrow> nng_msg option result" where
  "notice status body =
    fst (ebind (startReply status (reasonPhrase status)) (\<lambda>_. ebind (writeHeader ''Content-Type'' ''text/plain'') (\<lambda>_.
      ebind (writeBody body) (\<lambda>_. writer_release))) (writer_new Telling))"

definition notify :: "QueryID \<Rightarrow> Status \<Rightarrow> string \<Rightarrow> Services \<Rightarrow> unit result \<times> Services" where
  "notify queryID status body s =
    (case notice status body of
      Inl e \<Rightarrow> (Inl Terminate, s)
    | Inr m \<Rightarrow>
        (case respondTo (answer_with None) queryID m (sv_register s) of
          (Inl e, reg) \<Rightarrow> (Inl Terminate, s\<lparr>sv_register := reg\<rparr>)
        | (Inr _, reg) \<Rightarrow> (Inr (), s\<lparr>sv_register := reg\<rparr>)))"

definition service_event :: "Status \<Rightarrow> string \<Rightarrow> nng_msg option result" where
  "service_event status path =
    fst (ebind (startReport ''*services'' status (reasonPhrase status)) (\<lambda>_. ebind (writeBody path) (\<lambda>_. writer_release))
      (writer_new Telling))"

definition publish_event :: "Status \<Rightarrow> string \<Rightarrow> Services \<Rightarrow> unit result \<times> Services" where
  "publish_event status path s =
    (case service_event status path of
      Inl e \<Rightarrow> (Inl Terminate, s)
    | Inr None \<Rightarrow> (Inl (Undefined ''null message''), s)
    | Inr (Some m) \<Rightarrow>
        (case publish send_queue_handler m (sv_events s) of
          (Inl e, p) \<Rightarrow> (Inl Terminate, s\<lparr>sv_events := p\<rparr>)
        | (Inr _, p) \<Rightarrow> (Inr (), s\<lparr>sv_events := p\<rparr>)))"

text \<open>
  Closing a route disconnects the subscription and announces that the service is gone; the route is
  then deleted. The key it disconnects is the path itself.
\<close>

definition close_route :: "Route \<Rightarrow> Services \<Rightarrow> unit result \<times> Services" where
  "close_route r s =
    publish_event Gone (rt_path r) (s\<lparr>sv_subscribe := socket_disconnect (rt_path r) (sv_subscribe s)\<rparr>)"

text \<open>
  Opening a route, in the code's order: the route enters the map, the subscription is dialed, then
  the route's own sockets. An exception of the networking library takes the route out of the map again; the subscription
  stays dialed. The exception for a key that is too long for the map is not handled, and ends the program.
\<close>

definition enroll :: "platform \<Rightarrow> dial_outcomes \<Rightarrow> NewRoute \<Rightarrow> Services \<Rightarrow> unit result \<times> Services" where
  "enroll os env spec s =
    (case route_make env (nr_map_uri spec) of
      Inl e \<Rightarrow> (Inl e, s)
    | Inr r \<Rightarrow>
        if \<not> key_fits (nr_map_uri spec) then (Inl (StdExn ''Key is too long.''), s)
        else let s = s\<lparr>sv_map := (sv_map s)(nr_map_uri spec \<mapsto> r)\<rparr> in
        (case socket_dial_base os (do_sub env) (nr_host spec) (sv_subscribe s) of
          (Inl e, k) \<Rightarrow> (Inl e, s\<lparr>sv_subscribe := k\<rparr>)
        | (Inr _, k) \<Rightarrow>
            (case route_dial os env (nr_host spec) r of
              (x, r) \<Rightarrow> (x, s\<lparr>sv_subscribe := k, sv_map := (sv_map s)(nr_map_uri spec \<mapsto> r)\<rparr>))))"

definition open_route :: "platform \<Rightarrow> dial_outcomes \<Rightarrow> NewRoute \<Rightarrow> Services \<Rightarrow> unit result \<times> Services" where
  "open_route os env spec s =
    (if nr_map_uri spec \<in> dom (sv_map s) then
       notify (nr_queryID spec) Conflict (nr_map_uri spec @ [LF] @ ''This URI is already registered.'')
         (s\<lparr>sv_registrationMap := (sv_registrationMap s)(nr_pipeID spec := None)\<rparr>)
     else (case enroll os env spec s of
        (Inl (NngExn _ _), s) \<Rightarrow>
          notify (nr_queryID spec) ServiceUnavailable
            (host_string os (nr_host spec) @ [LF] @ ''Could not dial specified service URI.'')
            (s\<lparr>sv_map := (sv_map s)(nr_map_uri spec := None),
               sv_registrationMap := (sv_registrationMap s)(nr_pipeID spec := None)\<rparr>)
      | (Inl _, s) \<Rightarrow> (Inl Terminate, s)
      | (Inr _, s) \<Rightarrow>
          ebind (notify (nr_queryID spec) OK (nr_map_uri spec @ [LF] @ ''Enrolled with this URI.''))
            (\<lambda>_. publish_event Created (nr_map_uri spec)) s))"

text \<open>One pass of the thread: all routes to close, then all routes to open, from the front.\<close>

primrec close_routes :: "Route list \<Rightarrow> Services \<Rightarrow> unit result \<times> Services" where
  "close_routes [] s = (Inr (), s\<lparr>sv_route_close := []\<rparr>)"
| "close_routes (r # rs) s = ebind (close_route r) (\<lambda>_. close_routes rs) (s\<lparr>sv_route_close := rs\<rparr>)"

primrec open_routes :: "platform \<Rightarrow> (NewRoute \<Rightarrow> dial_outcomes) \<Rightarrow> NewRoute list \<Rightarrow> Services \<Rightarrow> unit result \<times> Services" where
  "open_routes os env [] s = (Inr (), s\<lparr>sv_route_open := []\<rparr>)"
| "open_routes os env (spec # specs) s =
    ebind (open_route os (env spec) spec) (\<lambda>_. open_routes os env specs) (s\<lparr>sv_route_open := specs\<rparr>)"

definition management_pass :: "platform \<Rightarrow> (NewRoute \<Rightarrow> dial_outcomes) \<Rightarrow> Services \<Rightarrow> unit result \<times> Services" where
  "management_pass os env s =
    ebind (\<lambda>s. close_routes (sv_route_close s) s) (\<lambda>_ s. open_routes os env (sv_route_open s) s) s"

section \<open>Construction\<close>

definition services_make ::
    "platform \<Rightarrow> nng_error + QueryID \<Rightarrow> nng_error + nat \<Rightarrow> nng_error + nat \<Rightarrow> string \<Rightarrow>
      unit Communicator \<Rightarrow> unit Communicator \<Rightarrow> unit Socket \<Rightarrow> unit result \<times> Services" where
  "services_make os made listened dialed ID reg pub sub =
    (let s = \<lparr>sv_map = Map.empty, sv_route_open = [], sv_route_close = [], sv_registrationMap = Map.empty,
           sv_register = reply_make reg, sv_events = sender_box pub, sv_subscribe = sub\<rparr>;
         on_register = (\<lambda>f s. case f (sv_register s) of (x, r) \<Rightarrow> (x, s\<lparr>sv_register := r\<rparr>));
         on_events = (\<lambda>f s. case f (sv_events s) of (x, p) \<Rightarrow> (x, s\<lparr>sv_events := p\<rparr>))
     in ebind (on_register (reply_initialize made (Some ()))) (\<lambda>_.
        ebind (on_register (communicator_on (setPipeHandler (Some ())))) (\<lambda>_.
        ebind (on_register (communicator_on (socket_listen_base os listened (host_InProc (ID @ ''/register''))))) (\<lambda>_.
        on_events (communicator_on (socket_dial_base os dialed (host_InProc (ID @ ''/internal'')))))))  s)"

section \<open>Invariant of the directory\<close>

definition map_inv :: "(string \<rightharpoonup> Route) \<Rightarrow> bool" where
  "map_inv m \<longleftrightarrow> (\<forall>k r. m k = Some r \<longrightarrow> rt_path r = k \<and> sl_handler (rt_send r) \<noteq> None \<and> sl_handler (se_loop (rt_push r)) \<noteq> None)"

definition open_inv :: "NewRoute list \<Rightarrow> (unit, unit, nng_msg) Reply \<Rightarrow> bool" where
  "open_inv specs reg \<longleftrightarrow> distinct (map nr_queryID specs) \<and>
    (\<forall>spec \<in> set specs. nr_queryID spec \<in> rp_unresponded reg \<and> nr_host spec = host_InProc (nr_map_uri spec))"

definition services_inv :: "Services \<Rightarrow> bool" where
  "services_inv s \<longleftrightarrow> map_inv (sv_map s) \<and> open_inv (sv_route_open s) (sv_register s) \<and>
    reply_inv (sv_register s) \<and> rp_handler (sv_register s) = Some () \<and> sl_handler (se_loop (sv_events s)) \<noteq> None"

text \<open>The communicators of the directory work: what the management thread needs to go on.\<close>

definition services_ready :: "Services \<Rightarrow> bool" where
  "services_ready s \<longleftrightarrow> communicator_isReady (sv_register s) \<and> communicator_isReady (sv_events s)"

text \<open>
  What happens to the directory, in any order: a registration arrives, a pipe goes, the management
  thread makes a pass, a message is routed, a transmission of its communicators or routes completes,
  the registration socket or the socket of the events changes. A step that ends the program has no successor.
\<close>

inductive services_step :: "platform \<Rightarrow> Services \<Rightarrow> Services \<Rightarrow> bool" for os where
  recv: "rp_aio_recv (sv_register s) = AioReceiving \<Longrightarrow> fresh_ctx made (sv_register s) \<Longrightarrow>
    services_aioReceived made pipeID aioResult s = (Inr (), s') \<Longrightarrow> services_step os s s'"
| pipe: "services_pipeEvent pipeID event s = (Inr (), s') \<Longrightarrow> services_step os s s'"
| pass: "management_pass os env s = (Inr (), s') \<Longrightarrow> services_step os s s'"
| request: "routeRequest path m s = (st, left, s') \<Longrightarrow> services_step os s s'"
| push: "routePush path m s = (st, left, s') \<Longrightarrow> services_step os s s'"
| reply_sent: "rp_aio_send (sv_register s) = AioSending x \<Longrightarrow>
    services_step os s (s\<lparr>sv_register := snd (reply_aioSent (answer_with None) e (sv_register s))\<rparr>)"
| event_sent: "services_step os s (s\<lparr>sv_events := (sv_events s)\<lparr>se_loop := send_callback send_queue_handler e (se_loop (sv_events s))\<rparr>\<rparr>)"
| route_sent: "sv_map s k = Some r \<Longrightarrow>
    services_step os s (s\<lparr>sv_map := (sv_map s)(k \<mapsto> r\<lparr>rt_send := send_callback send_queue_handler e (rt_send r)\<rparr>)\<rparr>)"
| socket: "services_step os s (s\<lparr>sv_register := (sv_register s)\<lparr>co_socket := sock\<rparr>\<rparr>)"
| event_socket: "services_step os s (s\<lparr>sv_events := (sv_events s)\<lparr>co_socket := sock\<rparr>\<rparr>)"

lemma answer_with_simps [simp]:
  "ay_recv (answer_with response) q m h = (response, h)" "ay_prep (answer_with response) q msg h = (Inr msg, h)"
  "ay_sent (answer_with response) q h = h" "ay_error (answer_with response) ctx e h = h"
  by (simp_all add: answer_with_def)

lemma map_invD:
  assumes "map_inv m" "m k = Some r"
  shows "rt_path r = k" "sl_handler (rt_send r) \<noteq> None" "sl_handler (se_loop (rt_push r)) \<noteq> None"
  using assms by (auto simp: map_inv_def)

lemma map_inv_update:
  "map_inv m \<Longrightarrow> rt_path r = k \<Longrightarrow> sl_handler (rt_send r) \<noteq> None \<Longrightarrow> sl_handler (se_loop (rt_push r)) \<noteq> None \<Longrightarrow> map_inv (m(k \<mapsto> r))"
  and map_inv_erase: "map_inv m \<Longrightarrow> map_inv (m(k := None))"
  by (auto simp: map_inv_def)

lemma send_queue_alive:
  assumes "sl_handler l = Some q"
  shows "\<exists>q'. send_msg send_queue_handler m l = (Inr (), l\<lparr>sl_handler := Some q',
      sl_aio := (if sq_busy q then sl_aio l else AioSending m)\<rparr>)"
    and "sl_handler (send_callback send_queue_handler e l) \<noteq> None"
  using assms by (auto simp: send_msg_def send_queue_prep_eq send_callback_def send_queue_sent_eq send_next_def
      split: prod.split option.split)

lemma send_queue_queued:
  assumes "sl_handler l \<noteq> None"
  obtains l' where "send_msg send_queue_handler m l = (Inr (), l')" "sl_handler l' \<noteq> None"
    "loop_as_queued l' = snd (qs_send m (loop_as_queued l))"
proof -
  obtain q where q: "sl_handler l = Some q" using assms by auto
  from send_queue_alive(1) [OF q, of m] loop_send_queued [OF q, of m] that show ?thesis by fastforce
qed

lemma sender_send_alive:
  assumes "sl_handler (se_loop p) \<noteq> None" "sender_send refusal send_queue_handler m p = (x, p')"
  shows "sl_handler (se_loop p') \<noteq> None \<and> co_socket p' = co_socket p \<and> (x = Inr () \<longleftrightarrow> communicator_isReady p)"
proof -
  obtain q where q: "sl_handler (se_loop p) = Some q" using assms(1) by auto
  from send_queue_alive(1) [OF this, of m] assms q show ?thesis by (auto simp: sender_send_def split: if_splits)
qed

lemma route_by_inv:
  assumes "map_inv (sv_map s)" "route_by send path m s = (st, left, s')"
    and keeps: "\<And>r x r'. sl_handler (rt_send r) \<noteq> None \<Longrightarrow> sl_handler (se_loop (rt_push r)) \<noteq> None \<Longrightarrow> send m r = (x, r') \<Longrightarrow>
      rt_path r' = rt_path r \<and> sl_handler (rt_send r') \<noteq> None \<and> sl_handler (se_loop (rt_push r')) \<noteq> None"
  shows "\<exists>mp. s' = s\<lparr>sv_map := mp\<rparr> \<and> map_inv mp"
proof (cases "s' = s")
  case True
  then show ?thesis using assms(1) by (intro exI [of _ "sv_map s"]) simp
next
  case False
  with assms(2) obtain k r where k: "longest_prefix (sv_map s) path = Some k" "sv_map s k = Some r"
    by (auto simp: route_by_def split: option.splits)
  obtain x r' where r': "send m r = (x, r')" by (cases "send m r")
  with k assms(2) have s': "s' = s\<lparr>sv_map := (sv_map s)(k \<mapsto> r')\<rparr>" by (auto simp: route_by_def split: sum.splits)
  have "map_inv ((sv_map s)(k \<mapsto> r'))"
    using keeps [OF _ _ r'] map_invD [OF assms(1) k(2)] by (intro map_inv_update [OF assms(1)]) auto
  with s' show ?thesis by blast
qed

lemma sendRequest_keeps:
  assumes "sl_handler (rt_send r) \<noteq> None" "sendRequest m r = (x, r')"
  shows "x = Inr () \<and> (\<exists>l. r' = r\<lparr>rt_send := l\<rparr> \<and> sl_handler l \<noteq> None)"
proof -
  obtain q where "sl_handler (rt_send r) = Some q" using assms(1) by auto
  from send_queue_alive(1) [OF this, of m] assms(2) show ?thesis by (auto simp: sendRequest_def)
qed

lemma sendPush_keeps:
  "sl_handler (se_loop (rt_push r)) \<noteq> None \<Longrightarrow> sendPush m r = (x, r') \<Longrightarrow>
    \<exists>p. r' = r\<lparr>rt_push := p\<rparr> \<and> sl_handler (se_loop p) \<noteq> None"
  using sender_send_alive [of "rt_push r"] by (fastforce simp: sendPush_def push_def split: prod.splits)

section \<open>The messages of the directory\<close>

lemma directory_reasons:
  "reasonPhrase OK = ''OK''" "reasonPhrase Created = ''Created''" "reasonPhrase Gone = ''Gone''"
  "reasonPhrase Conflict = ''Conflict''" "reasonPhrase ServiceUnavailable = ''Service Unavailable''"
  "reasonPhrase BadRequest = ''Bad Request''" "reasonPhrase NotFound = ''Not Found''"
  by (simp_all add: reasonPhrase_def http_reasonPhrase_def)

definition directory_status :: "Status \<Rightarrow> bool" where
  "directory_status st \<longleftrightarrow> st \<in> {OK, Created, Gone, Conflict, ServiceUnavailable, BadRequest, NotFound}"

lemma directory_statusE:
  assumes "directory_status st"
  obtains "st = OK" | "st = Created" | "st = Gone" | "st = Conflict" | "st = ServiceUnavailable" | "st = BadRequest" | "st = NotFound"
  using assms by (auto simp: directory_status_def)

lemma directory_line:
  assumes "directory_status st"
  shows "\<not> ContainsNewline (reasonPhrase st)" "length (reasonPhrase st) \<le> MAX_REASON_LENGTH"
    "\<not> protocol_valid (protocol_Parse (takeWhile (\<lambda>c. c \<noteq> SP) (reasonPhrase st)))"
    "0 < st" "st \<le> 999"
    "length (msg_head (reply_line Telling st (reasonPhrase st)) (preferred_newline Telling) [(''Content-Type'', ''text/plain'')]) \<le> 65535"
    "length (msg_head (reply_line Telling st (reasonPhrase st)) (preferred_newline Telling) []) \<le> 65535"
    "length (msg_head (report_line ''*services'' Telling st (reasonPhrase st)) (preferred_newline Telling) []) \<le> 65535"
  using assms
  by (elim directory_statusE;
      simp add: directory_reasons ContainsNewline_def protocol_Parse_def protocol_valid_def msg_head_def preferred_newline_def
        status_toString_def field_line_def)+

lemma plain_header_ok: "list_all field_ok [(''Content-Type'', ''text/plain'')]"
  by (simp add: field_ok_def)

lemma notice_compose:
  "notice st body = fst (compose_msg (startReply st (reasonPhrase st)) [(''Content-Type'', ''text/plain'')] body (writer_new Telling))"
  unfolding notice_def compose_msg_def by (simp add: ebind_def split: prod.split sum.split)

lemma notice_ok:
  assumes "directory_status st"
  shows "notice st body = Inr (Some \<lparr>m_header = [], m_body =
    msg_head (reply_line Telling st (reasonPhrase st)) (preferred_newline Telling) [(''Content-Type'', ''text/plain'')] @ body\<rparr>)"
  using composed_reply [OF _ directory_line(1-3) [OF assms] plain_header_ok directory_line(6) [OF assms], of body]
  by (auto simp: notice_compose protocol_valid_def)

lemma plain_reply_ok:
  assumes "directory_status st"
  shows "plain_reply st body = Inr (Some \<lparr>m_header = [], m_body =
    msg_head (reply_line Telling st (reasonPhrase st)) (preferred_newline Telling) [] @ body\<rparr>)"
  using composed_reply [OF _ directory_line(1-3) [OF assms] _ directory_line(7) [OF assms], of body]
  by (auto simp: plain_reply_def compose_plain protocol_valid_def)

lemma service_event_ok:
  assumes "directory_status st"
  shows "service_event st path = Inr (Some \<lparr>m_header = [], m_body =
    msg_head (report_line ''*services'' Telling st (reasonPhrase st)) (preferred_newline Telling) [] @ path\<rparr>)"
  using composed_report [OF _ services_request_ok(3) directory_line(1,2) [OF assms] _ directory_line(8) [OF assms], of path]
  by (auto simp: service_event_def compose_plain protocol_valid_def)

section \<open>The management thread\<close>

text \<open>What a reply to a registration does, when the registration awaits it.\<close>

definition answered :: "QueryID \<Rightarrow> nng_msg \<Rightarrow> (unit, unit, nng_msg) Reply \<Rightarrow> (unit, unit, nng_msg) Reply \<Rightarrow> bool" where
  "answered q m reg reg' \<longleftrightarrow> rp_unresponded reg' = rp_unresponded reg - {q} \<and> rp_handler reg' = Some () \<and>
    co_socket reg' = co_socket reg \<and> reply_inv reg' \<and> sending reg' = sending reg @ [(q, m)]"

lemma notify_ok:
  assumes "directory_status st" "communicator_isReady (sv_register s)" "rp_handler (sv_register s) = Some ()"
    "q \<in> rp_unresponded (sv_register s)" "reply_inv (sv_register s)"
  shows "\<exists>m reg'. notice st body = Inr (Some m) \<and> notify q st body s = (Inr (), s\<lparr>sv_register := reg'\<rparr>) \<and> answered q m (sv_register s) reg'"
proof -
  obtain m where m: "notice st body = Inr (Some m)" using notice_ok [OF assms(1)] by blast
  let ?reg = "(sv_register s)\<lparr>rp_handler := Some (), rp_unresponded := rp_unresponded (sv_register s) - {q},
    rp_outbox := snd (snd (sq_produce (q, m) (rp_outbox (sv_register s)))),
    rp_aio_send := (if sq_busy (rp_outbox (sv_register s)) then rp_aio_send (sv_register s) else AioSending (q, m))\<rparr>"
  have r: "respondTo (answer_with None) q (Some m) (sv_register s) = (Inr (), ?reg)"
    using respondTo_accepts [OF assms(2,3) _ assms(4), of "answer_with None" "Some m" m "()"] by simp
  have idle: "\<not> sq_busy (rp_outbox (sv_register s)) \<longrightarrow> sending (sv_register s) = []"
    using assms(5) by (simp add: reply_inv_def)
  have "answered q m (sv_register s) ?reg"
    using respondTo_inv [OF assms(5) r] sending_produce [OF idle, of "(q, m)"] by (simp add: answered_def sending_def [of ?reg])
  with m r show ?thesis by (auto simp: notify_def)
qed

lemma publish_event_ok:
  assumes "directory_status st" "communicator_isReady (sv_events s)" "sl_handler (se_loop (sv_events s)) \<noteq> None"
  shows "\<exists>p. publish_event st path s = (Inr (), s\<lparr>sv_events := p\<rparr>) \<and> communicator_isReady p \<and> sl_handler (se_loop p) \<noteq> None"
proof -
  obtain m where m: "service_event st path = Inr (Some m)" using service_event_ok [OF assms(1)] by blast
  obtain x p where x: "publish send_queue_handler m (sv_events s) = (x, p)" by (cases "publish send_queue_handler m (sv_events s)")
  from sender_send_alive [OF assms(3) x [unfolded publish_def]] assms(2)
  have "x = Inr ()" "communicator_isReady p" "sl_handler (se_loop p) \<noteq> None" by (auto simp: communicator_isReady_def)
  with m x show ?thesis by (auto simp: publish_event_def)
qed

lemma close_routes_ok:
  assumes "services_inv s" "services_ready s"
  shows "\<exists>p k. close_routes rs s = (Inr (), s\<lparr>sv_route_close := [], sv_events := p, sv_subscribe := k\<rparr>) \<and>
    communicator_isReady p \<and> sl_handler (se_loop p) \<noteq> None"
  using assms
proof (induction rs arbitrary: s)
  case Nil
  then show ?case
    by (intro exI [of _ "sv_events s"] exI [of _ "sv_subscribe s"]) (simp add: services_inv_def services_ready_def)
next
  case (Cons r rs)
  let ?s = "s\<lparr>sv_route_close := rs, sv_subscribe := socket_disconnect (rt_path r) (sv_subscribe s)\<rparr>"
  obtain p where p: "publish_event Gone (rt_path r) ?s = (Inr (), ?s\<lparr>sv_events := p\<rparr>)"
    "communicator_isReady p" "sl_handler (se_loop p) \<noteq> None"
    using publish_event_ok [of Gone ?s "rt_path r"] Cons.prems by (auto simp: directory_status_def services_inv_def services_ready_def)
  from Cons.IH [of "?s\<lparr>sv_events := p\<rparr>"] p Cons.prems
  show ?case by (auto simp: close_route_def services_inv_def services_ready_def)
qed

lemma route_make_alive:
  "route_make env path = Inr r \<Longrightarrow> rt_path r = path \<and> sl_handler (rt_send r) \<noteq> None \<and> sl_handler (se_loop (rt_push r)) \<noteq> None"
  by (auto simp: route_make_def sender_box_def sender_initialize_def sender_make_def send_init_def send_loop_new_def
      split: sum.splits)

lemma route_dial_alive:
  assumes "route_dial os env base r = (x, r')"
  shows "rt_path r' = rt_path r \<and> rt_send r' = rt_send r \<and> se_loop (rt_push r') = se_loop (rt_push r)"
  using assms by (auto simp: route_dial_def ebind_def communicator_on_def split: prod.splits sum.splits option.splits)

lemma enroll_effect:
  assumes "enroll os env spec s = (x, s1)"
  shows "\<exists>mp k. s1 = s\<lparr>sv_map := mp, sv_subscribe := k\<rparr> \<and> mp(nr_map_uri spec := None) = (sv_map s)(nr_map_uri spec := None) \<and>
    (x = Inr () \<longrightarrow> (\<exists>r. mp = (sv_map s)(nr_map_uri spec \<mapsto> r) \<and> rt_path r = nr_map_uri spec \<and>
      sl_handler (rt_send r) \<noteq> None \<and> sl_handler (se_loop (rt_push r)) \<noteq> None))"
proof (cases "isl (route_make env (nr_map_uri spec)) \<or> \<not> key_fits (nr_map_uri spec)")
  case True
  with assms have "s1 = s" "x \<noteq> Inr ()" by (auto simp: enroll_def split: sum.splits)
  then show ?thesis by (intro exI [of _ "sv_map s"] exI [of _ "sv_subscribe s"]) simp
next
  case False
  then obtain r where Inr: "route_make env (nr_map_uri spec) = Inr r" and fits: "key_fits (nr_map_uri spec)"
    by (cases "route_make env (nr_map_uri spec)") auto
  note r = route_make_alive [OF Inr]
  obtain y k where y: "socket_dial_base os (do_sub env) (nr_host spec) (sv_subscribe s) = (y, k)"
    by (cases "socket_dial_base os (do_sub env) (nr_host spec) (sv_subscribe s)")
  obtain z r' where z: "route_dial os env (nr_host spec) r = (z, r')" by (cases "route_dial os env (nr_host spec) r")
  show ?thesis
  proof (cases y)
    case (Inl e)
    with assms Inr fits y have "s1 = s\<lparr>sv_map := (sv_map s)(nr_map_uri spec \<mapsto> r), sv_subscribe := k\<rparr>" "x = Inl e"
      by (simp_all add: enroll_def)
    then show ?thesis by auto
  next
    case (Inr u)
    with assms \<open>route_make env (nr_map_uri spec) = Inr r\<close> fits y z
    have "s1 = s\<lparr>sv_map := (sv_map s)(nr_map_uri spec \<mapsto> r'), sv_subscribe := k\<rparr>" by (auto simp: enroll_def)
    with r route_dial_alive [OF z] show ?thesis
      by (intro exI [of _ "(sv_map s)(nr_map_uri spec \<mapsto> r')"] exI [of _ k]) auto
  qed
qed

lemma dial_error: "socket_dial_base os made base k = (Inl e, k') \<Longrightarrow> \<exists>n w. e = NngExn n w"
  by (auto simp: socket_dial_base_def socket_dial_def socket_connect_def split: if_splits sum.splits)

lemma route_make_socket:
  "route_make env path = Inl e \<Longrightarrow> \<exists>n w. e = NngExn n w"
  "route_make env path = Inr r \<Longrightarrow> co_socket (rt_push r) \<noteq> None"
  by (auto simp: route_make_def socket_make_def communicator_make_def sender_box_def sender_initialize_def sender_make_def
      Let_def split: sum.splits if_splits prod.splits)

lemma route_dial_error:
  assumes "route_dial os env base r = (Inl e, r')" "co_socket (rt_push r) \<noteq> None"
  shows "\<exists>n w. e = NngExn n w"
  using assms by (auto simp: route_dial_def ebind_def communicator_on_def dest: dial_error split: prod.splits sum.splits option.splits)

text \<open>A name that fits is refused only by the networking library.\<close>

lemma enroll_error:
  assumes "enroll os env spec s = (Inl e, s1)" "key_fits (nr_map_uri spec)"
  shows "\<exists>n w. e = NngExn n w"
  using assms
  by (auto simp: enroll_def Let_def dest: dial_error route_make_socket route_dial_error split: sum.splits prod.splits)

text \<open>
  What becomes of a registration: a conflict when the path is taken, unavailable when its service
  cannot be dialed, and otherwise enrolled; in each case the registration is answered.
\<close>

lemma open_route_ok:
  assumes inv: "services_inv s" and ready: "services_ready s" and q: "nr_queryID spec \<in> rp_unresponded (sv_register s)"
    and fits: "key_fits (nr_map_uri spec) \<or> fst (open_route os env spec s) = Inr ()"
  shows "\<exists>st body m s'. open_route os env spec s = (Inr (), s') \<and> notice st body = Inr (Some m) \<and>
    length body \<le> length (nr_map_uri spec) + length (host_string os (nr_host spec)) + 40 \<and>
    answered (nr_queryID spec) m (sv_register s) (sv_register s') \<and>
    st = (if nr_map_uri spec \<in> dom (sv_map s) then Conflict
          else if isl (fst (enroll os env spec s)) then ServiceUnavailable else OK) \<and>
    (if st = OK then \<exists>r. sv_map s' = (sv_map s)(nr_map_uri spec \<mapsto> r) else sv_map s' = sv_map s) \<and>
    map_inv (sv_map s') \<and> communicator_isReady (sv_events s') \<and> sl_handler (se_loop (sv_events s')) \<noteq> None \<and>
    sv_route_open s' = sv_route_open s \<and> sv_route_close s' = sv_route_close s"
proof -
  let ?uri = "nr_map_uri spec" and ?q = "nr_queryID spec"
  have reg: "rp_handler (sv_register s) = Some ()" "reply_inv (sv_register s)" "communicator_isReady (sv_register s)"
    "communicator_isReady (sv_events s)" "sl_handler (se_loop (sv_events s)) \<noteq> None" "map_inv (sv_map s)"
    using inv ready by (simp_all add: services_inv_def services_ready_def)
  have st: "directory_status Conflict" "directory_status ServiceUnavailable" "directory_status OK" "directory_status Created"
    by (simp_all add: directory_status_def)
  show ?thesis
  proof (cases "?uri \<in> dom (sv_map s)")
    case True
    let ?s = "s\<lparr>sv_registrationMap := (sv_registrationMap s)(nr_pipeID spec := None)\<rparr>"
    let ?b = "?uri @ [LF] @ ''This URI is already registered.''"
    obtain m reg' where "notice Conflict ?b = Inr (Some m)"
      "notify ?q Conflict ?b ?s = (Inr (), ?s\<lparr>sv_register := reg'\<rparr>)" "answered ?q m (sv_register s) reg'"
      using notify_ok [OF st(1), of ?s ?q ?b] reg q by fastforce
    with True reg show ?thesis
      by (intro exI [of _ Conflict] exI [of _ ?b] exI [of _ m] exI [of _ "?s\<lparr>sv_register := reg'\<rparr>"]) (simp add: open_route_def)
  next
    case False
    obtain x s1 where x: "enroll os env spec s = (x, s1)" by (cases "enroll os env spec s")
    from enroll_effect [OF x] obtain mp k where s1: "s1 = s\<lparr>sv_map := mp, sv_subscribe := k\<rparr>"
      "mp(?uri := None) = (sv_map s)(?uri := None)"
      "x = Inr () \<longrightarrow> (\<exists>r. mp = (sv_map s)(?uri \<mapsto> r) \<and> rt_path r = ?uri \<and> sl_handler (rt_send r) \<noteq> None \<and> sl_handler (se_loop (rt_push r)) \<noteq> None)"
      by blast
    show ?thesis
    proof (cases x)
      case (Inl e)
      have "\<exists>n w. e = NngExn n w"
        using fits enroll_error [of os env spec s e s1] x Inl False by (cases e) (auto simp: open_route_def)
      then obtain n w where e: "e = NngExn n w" by blast
      let ?s = "s1\<lparr>sv_map := (sv_map s1)(?uri := None), sv_registrationMap := (sv_registrationMap s1)(nr_pipeID spec := None)\<rparr>"
      let ?b = "host_string os (nr_host spec) @ [LF] @ ''Could not dial specified service URI.''"
      have mp: "(sv_map s1)(?uri := None) = sv_map s" using s1(1,2) False by (auto simp: domIff fun_upd_idem)
      obtain m reg' where "notice ServiceUnavailable ?b = Inr (Some m)"
        "notify ?q ServiceUnavailable ?b ?s = (Inr (), ?s\<lparr>sv_register := reg'\<rparr>)" "answered ?q m (sv_register s) reg'"
        using notify_ok [OF st(2), of ?s ?q ?b] reg q s1(1) by fastforce
      with False x Inl e reg s1(1) mp show ?thesis
        by (intro exI [of _ ServiceUnavailable] exI [of _ ?b] exI [of _ m] exI [of _ "?s\<lparr>sv_register := reg'\<rparr>"]) (simp add: open_route_def)
    next
      case (Inr u)
      then obtain r where r: "mp = (sv_map s)(?uri \<mapsto> r)" "map_inv mp"
        using s1(3) reg(6) by (auto intro!: map_inv_update)
      let ?b = "?uri @ [LF] @ ''Enrolled with this URI.''"
      obtain m reg' where n: "notice OK ?b = Inr (Some m)"
        "notify ?q OK ?b s1 = (Inr (), s1\<lparr>sv_register := reg'\<rparr>)" "answered ?q m (sv_register s) reg'"
        using notify_ok [OF st(3), of s1 ?q ?b] reg q s1(1) by fastforce
      obtain p where "publish_event Created ?uri (s1\<lparr>sv_register := reg'\<rparr>) = (Inr (), s1\<lparr>sv_register := reg', sv_events := p\<rparr>)"
        "communicator_isReady p" "sl_handler (se_loop p) \<noteq> None"
        using publish_event_ok [OF st(4), of "s1\<lparr>sv_register := reg'\<rparr>" ?uri] reg s1(1) by fastforce
      with n False x Inr s1(1) r show ?thesis
        by (intro exI [of _ OK] exI [of _ ?b] exI [of _ m] exI [of _ "s1\<lparr>sv_register := reg', sv_events := p\<rparr>"]) (auto simp: open_route_def)
    qed
  qed
qed

lemma open_routes_ok:
  assumes "services_inv (s\<lparr>sv_route_open := specs\<rparr>)" "services_ready s"
    and "(\<forall>spec \<in> set specs. key_fits (nr_map_uri spec)) \<or> fst (open_routes os env specs s) = Inr ()"
  shows "\<exists>s'. open_routes os env specs s = (Inr (), s') \<and> services_inv s' \<and> services_ready s' \<and> sv_route_open s' = [] \<and>
    sv_route_close s' = sv_route_close s \<and>
    rp_unresponded (sv_register s') = rp_unresponded (sv_register s) - nr_queryID ` set specs \<and>
    dom (sv_map s) \<subseteq> dom (sv_map s') \<and> dom (sv_map s') \<subseteq> dom (sv_map s) \<union> nr_map_uri ` set specs"
  using assms
proof (induction specs arbitrary: s)
  case Nil
  then show ?case by (simp add: services_inv_def services_ready_def)
next
  case (Cons spec specs)
  let ?s = "s\<lparr>sv_route_open := specs\<rparr>"
  have inv: "services_inv ?s" "services_ready ?s" "nr_queryID spec \<in> rp_unresponded (sv_register ?s)"
    using Cons.prems by (auto simp: services_inv_def open_inv_def services_ready_def)
  have "key_fits (nr_map_uri spec) \<or> fst (open_route os (env spec) spec ?s) = Inr ()"
    using Cons.prems(3) by (cases "open_route os (env spec) spec ?s"; cases "fst (open_route os (env spec) spec ?s)") (simp_all add: ebind_def)
  from open_route_ok [OF inv this] obtain m s1 where s1: "open_route os (env spec) spec ?s = (Inr (), s1)"
    "answered (nr_queryID spec) m (sv_register s) (sv_register s1)"
    "(\<exists>r. sv_map s1 = (sv_map s)(nr_map_uri spec \<mapsto> r)) \<or> sv_map s1 = sv_map s"
    "map_inv (sv_map s1)" "communicator_isReady (sv_events s1)" "sl_handler (se_loop (sv_events s1)) \<noteq> None"
    "sv_route_open s1 = specs" "sv_route_close s1 = sv_route_close s"
    by (auto split: if_splits)
  have "\<forall>x \<in> set specs. nr_queryID x \<noteq> nr_queryID spec"
    using Cons.prems(1) by (simp add: services_inv_def open_inv_def) (metis imageI)
  with s1 Cons.prems(1,2) have next1: "services_inv (s1\<lparr>sv_route_open := specs\<rparr>)" "services_ready s1"
    by (auto simp: services_inv_def open_inv_def answered_def services_ready_def communicator_isReady_def)
  have next2: "(\<forall>spec \<in> set specs. key_fits (nr_map_uri spec)) \<or> fst (open_routes os env specs s1) = Inr ()"
    using Cons.prems(3) s1(1) by auto
  from Cons.IH [OF next1 next2] obtain s' where s': "open_routes os env specs s1 = (Inr (), s')" "services_inv s'" "services_ready s'"
    "sv_route_open s' = []" "sv_route_close s' = sv_route_close s1"
    "rp_unresponded (sv_register s') = rp_unresponded (sv_register s1) - nr_queryID ` set specs"
    "dom (sv_map s1) \<subseteq> dom (sv_map s')" "dom (sv_map s') \<subseteq> dom (sv_map s1) \<union> nr_map_uri ` set specs" by blast
  have dom: "dom (sv_map s) \<subseteq> dom (sv_map s1)" "dom (sv_map s1) \<subseteq> insert (nr_map_uri spec) (dom (sv_map s))"
    using s1(3) by auto
  have "dom (sv_map s) \<subseteq> dom (sv_map s')" using dom(1) s'(7) by (rule subset_trans)
  moreover have "dom (sv_map s') \<subseteq> dom (sv_map s) \<union> nr_map_uri ` set (spec # specs)"
    using subset_trans [OF s'(8) Un_mono [OF dom(2) subset_refl]] by simp
  moreover have "rp_unresponded (sv_register s') = rp_unresponded (sv_register s) - nr_queryID ` set (spec # specs)"
    using s'(6) s1(2) by (auto simp: answered_def)
  moreover have "open_routes os env (spec # specs) s = (Inr (), s')" using s'(1) s1(1) by simp
  ultimately show ?case using s'(2-5) s1(8) by (intro exI [of _ s']) simp
qed

lemma management_pass_ok:
  assumes "services_inv s" "services_ready s"
    and "(\<forall>spec \<in> set (sv_route_open s). key_fits (nr_map_uri spec)) \<or> fst (management_pass os env s) = Inr ()"
  shows "\<exists>s'. management_pass os env s = (Inr (), s') \<and> services_inv s' \<and> services_ready s' \<and>
    sv_route_open s' = [] \<and> sv_route_close s' = [] \<and>
    rp_unresponded (sv_register s') = rp_unresponded (sv_register s) - nr_queryID ` set (sv_route_open s) \<and>
    dom (sv_map s) \<subseteq> dom (sv_map s') \<and> dom (sv_map s') \<subseteq> dom (sv_map s) \<union> nr_map_uri ` set (sv_route_open s)"
proof -
  obtain p k where c: "close_routes (sv_route_close s) s = (Inr (), s\<lparr>sv_route_close := [], sv_events := p, sv_subscribe := k\<rparr>)"
    "communicator_isReady p" "sl_handler (se_loop p) \<noteq> None" using close_routes_ok [OF assms(1,2)] by blast
  let ?s = "s\<lparr>sv_route_close := [], sv_events := p, sv_subscribe := k\<rparr>"
  have "services_inv (?s\<lparr>sv_route_open := sv_route_open s\<rparr>)" "services_ready ?s"
    using assms(1,2) c by (simp_all add: services_inv_def services_ready_def)
  moreover have "(\<forall>spec \<in> set (sv_route_open s). key_fits (nr_map_uri spec)) \<or> fst (open_routes os env (sv_route_open s) ?s) = Inr ()"
    using assms(3) c(1) by (auto simp: management_pass_def ebind_def)
  ultimately show ?thesis using open_routes_ok [where s = ?s and specs = "sv_route_open s" and os = os and env = env] c(1) by (simp add: management_pass_def ebind_def)
qed

section \<open>A pass that ends without an exception\<close>

text \<open>What such a pass leaves behind, also when the communicators of the directory are not ready and the pass does not need them.\<close>

definition directory_ok :: "Services \<Rightarrow> bool" where
  "directory_ok s \<longleftrightarrow> map_inv (sv_map s) \<and> reply_inv (sv_register s) \<and> rp_handler (sv_register s) = Some () \<and> sl_handler (se_loop (sv_events s)) \<noteq> None"

lemma notify_done:
  assumes "notify q st body s = (Inr (), s')"
  obtains reg where "s' = s\<lparr>sv_register := reg\<rparr>" "directory_ok s \<Longrightarrow> reply_inv reg \<and> rp_handler reg = Some ()"
proof -
  obtain m reg where m: "respondTo (answer_with None) q m (sv_register s) = (Inr (), reg)" "s' = s\<lparr>sv_register := reg\<rparr>"
    using assms by (auto simp: notify_def split: sum.splits prod.splits)
  have "reply_inv reg \<and> rp_handler reg = Some ()" if "directory_ok s"
    using that respondTo_inv [OF _ m(1)] m(1)
    by (auto simp: directory_ok_def respondTo_def Let_def split: if_splits option.splits prod.splits bool.splits)
  with m(2) show thesis by (rule that)
qed

lemma publish_event_done:
  assumes "publish_event st path s = (Inr (), s')"
  obtains p where "s' = s\<lparr>sv_events := p\<rparr>" "directory_ok s \<Longrightarrow> sl_handler (se_loop p) \<noteq> None"
proof -
  obtain m p where p: "publish send_queue_handler m (sv_events s) = (Inr (), p)" "s' = s\<lparr>sv_events := p\<rparr>"
    using assms by (auto simp: publish_event_def split: sum.splits option.splits prod.splits)
  have "sl_handler (se_loop p) \<noteq> None" if "directory_ok s"
    using that sender_send_alive [OF _ p(1) [unfolded publish_def]] by (simp add: directory_ok_def)
  with p(2) show thesis by (rule that)
qed

lemma close_routes_done:
  assumes "close_routes rs s = (Inr (), s')"
  shows "\<exists>p k. s' = s\<lparr>sv_route_close := [], sv_events := p, sv_subscribe := k\<rparr> \<and> (directory_ok s \<longrightarrow> sl_handler (se_loop p) \<noteq> None)"
  using assms
proof (induction rs arbitrary: s)
  case Nil
  then show ?case by (intro exI [of _ "sv_events s"] exI [of _ "sv_subscribe s"]) (auto simp: directory_ok_def)
next
  case (Cons r rs)
  let ?s = "s\<lparr>sv_route_close := rs, sv_subscribe := socket_disconnect (rt_path r) (sv_subscribe s)\<rparr>"
  from Cons.prems obtain s1 where s1: "publish_event Gone (rt_path r) ?s = (Inr (), s1)" "close_routes rs s1 = (Inr (), s')"
    by (auto simp: ebind_def close_route_def split: prod.splits sum.splits)
  from publish_event_done [OF s1(1)] obtain p where p: "s1 = ?s\<lparr>sv_events := p\<rparr>" "directory_ok ?s \<Longrightarrow> sl_handler (se_loop p) \<noteq> None" by blast
  from Cons.IH [OF s1(2)] obtain p' k where "s' = s1\<lparr>sv_route_close := [], sv_events := p', sv_subscribe := k\<rparr>"
    "directory_ok s1 \<longrightarrow> sl_handler (se_loop p') \<noteq> None" by blast
  with p show ?case by (intro exI [of _ p'] exI [of _ k]) (simp add: directory_ok_def)
qed

lemma open_route_done:
  assumes "open_route os env spec s = (Inr (), s')"
  shows "dom (sv_map s) \<subseteq> dom (sv_map s') \<and> sv_route_close s' = sv_route_close s \<and>
    (sv_map s' = sv_map s \<or> sv_registrationMap s' = sv_registrationMap s) \<and> (directory_ok s \<longrightarrow> directory_ok s')"
proof (cases "nr_map_uri spec \<in> dom (sv_map s)")
  case True
  with assms show ?thesis by (auto simp: open_route_def directory_ok_def elim!: notify_done)
next
  case False
  obtain x s1 where x: "enroll os env spec s = (x, s1)" by (cases "enroll os env spec s")
  from enroll_effect [OF x] obtain mp k where s1: "s1 = s\<lparr>sv_map := mp, sv_subscribe := k\<rparr>"
    "mp(nr_map_uri spec := None) = (sv_map s)(nr_map_uri spec := None)"
    "x = Inr () \<longrightarrow> (\<exists>r. mp = (sv_map s)(nr_map_uri spec \<mapsto> r) \<and> rt_path r = nr_map_uri spec \<and>
      sl_handler (rt_send r) \<noteq> None \<and> sl_handler (se_loop (rt_push r)) \<noteq> None)" by blast
  show ?thesis
  proof (cases x)
    case (Inl e)
    have "(sv_map s1)(nr_map_uri spec := None) = sv_map s" using s1(1,2) False by (auto simp: domIff fun_upd_idem)
    with assms False x Inl s1(1) show ?thesis
      by (cases e) (auto simp: open_route_def directory_ok_def elim!: notify_done)
  next
    case (Inr u)
    then obtain r where r: "mp = (sv_map s)(nr_map_uri spec \<mapsto> r)" "map_inv (sv_map s) \<longrightarrow> map_inv mp" using s1(3) by (auto intro!: map_inv_update)
    from assms False x Inr obtain s2 where s2: "notify (nr_queryID spec) OK (nr_map_uri spec @ [LF] @ ''Enrolled with this URI.'') s1 = (Inr (), s2)"
      "publish_event Created (nr_map_uri spec) s2 = (Inr (), s')" by (auto simp: open_route_def ebind_def split: prod.splits sum.splits)
    from notify_done [OF s2(1)] obtain reg where n: "s2 = s1\<lparr>sv_register := reg\<rparr>" "directory_ok s1 \<Longrightarrow> reply_inv reg \<and> rp_handler reg = Some ()" by blast
    from publish_event_done [OF s2(2)] obtain p where p: "s' = s2\<lparr>sv_events := p\<rparr>" "directory_ok s2 \<Longrightarrow> sl_handler (se_loop p) \<noteq> None" by blast
    from r(1) s1(1) n(1) p(1) have "dom (sv_map s) \<subseteq> dom (sv_map s')" "sv_route_close s' = sv_route_close s"
      "sv_registrationMap s' = sv_registrationMap s" by auto
    moreover have "directory_ok s'" if "directory_ok s" using that s1(1) r n p by (auto simp: directory_ok_def)
    ultimately show ?thesis by blast
  qed
qed

lemma open_routes_done:
  assumes "open_routes os env specs s = (Inr (), s')"
  shows "dom (sv_map s) \<subseteq> dom (sv_map s') \<and> sv_route_open s' = [] \<and> sv_route_close s' = sv_route_close s \<and> (directory_ok s \<longrightarrow> directory_ok s')"
  using assms
proof (induction specs arbitrary: s)
  case (Cons spec specs)
  then obtain s1 where s1: "open_route os (env spec) spec (s\<lparr>sv_route_open := specs\<rparr>) = (Inr (), s1)" "open_routes os env specs s1 = (Inr (), s')"
    by (auto simp: ebind_def split: prod.splits sum.splits)
  from open_route_done [OF s1(1)] Cons.IH [OF s1(2)] show ?case by (auto simp: directory_ok_def)
qed (auto simp: directory_ok_def)

lemma management_pass_done:
  assumes "management_pass os env s = (Inr (), s')"
  shows "dom (sv_map s) \<subseteq> dom (sv_map s') \<and> sv_route_open s' = [] \<and> sv_route_close s' = [] \<and> (services_inv s \<longrightarrow> services_inv s')"
proof -
  from assms obtain s1 where s1: "close_routes (sv_route_close s) s = (Inr (), s1)" "open_routes os env (sv_route_open s1) s1 = (Inr (), s')"
    by (auto simp: management_pass_def ebind_def split: prod.splits sum.splits)
  from close_routes_done [OF s1(1)] obtain p k where "s1 = s\<lparr>sv_route_close := [], sv_events := p, sv_subscribe := k\<rparr>"
    "directory_ok s \<longrightarrow> sl_handler (se_loop p) \<noteq> None" by blast
  with open_routes_done [OF s1(2)] show ?thesis by (auto simp: services_inv_def directory_ok_def open_inv_def)
qed

section \<open>Every step keeps the invariant\<close>

lemma answer_received:
  assumes "rp_handler reg = Some ()" "rp_ctx_recv reg = Some q" "reply_inv reg" "fresh_ctx made reg"
    and "reply_aioReceived (answer_with response) made (Inr m) reg = (Inr (), reg')"
  shows "reply_inv reg' \<and> rp_handler reg' = Some () \<and>
    (if response = None then rp_unresponded reg' = insert q (rp_unresponded reg) else rp_unresponded reg \<subseteq> rp_unresponded reg')"
proof -
  have inv: "reply_inv reg'" using aioReceived_inv [OF assms(3,4), of "answer_with response" "Inr m"] assms(5) by simp
  have q: "q \<notin> rp_unresponded reg" using assms(2,3) by (simp add: reply_inv_def)
  let ?reg = "reg\<lparr>rp_aio_recv := AioIdle, rp_unresponded := insert q (rp_unresponded reg), rp_ctx_recv := None, rp_handler := Some ()\<rparr>"
  have after: "receive_next made r = (Inr (), reg') \<Longrightarrow> rp_handler reg' = rp_handler r \<and> rp_unresponded reg' = rp_unresponded r" for r
    by (auto simp: receive_next_def split: sum.splits)
  show ?thesis
  proof (cases response)
    case None
    with assms have "receive_next made ?reg = (Inr (), reg')" by (simp add: reply_aioReceived_def)
    from after [OF this] None inv show ?thesis by simp
  next
    case (Some r)
    obtain y reg1 where y: "respondTo (answer_with response) q (Some r) ?reg = (y, reg1)"
      by (cases "respondTo (answer_with response) q (Some r) ?reg")
    with Some assms have "receive_next made reg1 = (Inr (), reg')"
      by (auto simp: reply_aioReceived_def split: sum.splits)
    from after [OF this] have "rp_handler reg' = rp_handler reg1" "rp_unresponded reg' = rp_unresponded reg1" by simp_all
    moreover have "rp_handler reg1 = Some () \<and> rp_unresponded reg \<subseteq> rp_unresponded reg1"
      using y q by (auto simp: respondTo_def sq_produce_def Let_def split: if_splits)
    ultimately show ?thesis using Some inv by simp
  qed
qed

lemma recv_inv:
  assumes "services_inv s" "fresh_ctx made (sv_register s)" "services_aioReceived made pipeID r s = (Inr (), s')"
  shows "services_inv s'"
proof -
  have reg: "rp_handler (sv_register s) = Some ()" "reply_inv (sv_register s)" using assms(1) by (simp_all add: services_inv_def)
  show ?thesis
  proof (cases "\<exists>m q. r = Inr m \<and> rp_ctx_recv (sv_register s) = Some q")
    case True
    then obtain m q where c: "r = Inr m" "rp_ctx_recv (sv_register s) = Some q" by blast
    have q: "q \<notin> rp_unresponded (sv_register s)" using c(2) reg(2) by (simp add: reply_inv_def)
    obtain response s1 where s1: "services_recv q pipeID m s = (Inr response, s1)"
      using assms(3) c by (auto simp: services_aioReceived_def split: prod.splits sum.splits)
    have same: "sv_register s1 = sv_register s" "sv_map s1 = sv_map s" "sv_events s1 = sv_events s"
      "sv_route_open s1 = sv_route_open s \<or> response = None \<and> (\<exists>uri. sv_route_open s1 = sv_route_open s @
        [\<lparr>nr_queryID = q, nr_pipeID = pipeID, nr_map_uri = uri, nr_host = host_InProc uri\<rparr>])"
      using s1 by (auto simp: services_recv_def split: sum.splits exn.splits prod.splits if_splits)
    obtain reg' where r': "reply_aioReceived (answer_with response) made (Inr m) (sv_register s) = (Inr (), reg')"
      "s' = s1\<lparr>sv_register := reg'\<rparr>"
      using assms(3) c s1 same(1) by (auto simp: services_aioReceived_def split: prod.splits)
    from answer_received [OF reg(1) c(2) reg(2) assms(2) r'(1)] same q assms(1) r'(2) show ?thesis
      by (auto simp: services_inv_def open_inv_def split: if_splits)
  next
    case False
    then have "s' = s\<lparr>sv_register := snd (reply_aioReceived (answer_with None) made r (sv_register s))\<rparr>"
      using assms(3) by (auto simp: services_aioReceived_def split: prod.splits sum.splits option.splits)
    moreover have "rp_handler (snd (reply_aioReceived (answer_with None) made r (sv_register s))) = Some () \<and>
        rp_unresponded (snd (reply_aioReceived (answer_with None) made r (sv_register s))) = rp_unresponded (sv_register s)"
      using False reg(1) by (cases r) (auto simp: reply_aioReceived_def split: option.splits)
    ultimately show ?thesis using assms(1) aioReceived_inv [OF reg(2) assms(2), of "answer_with None" r]
      by (auto simp: services_inv_def open_inv_def)
  qed
qed

lemma pipe_inv: "services_pipeEvent pipeID ev s = (Inr (), s') \<Longrightarrow> services_inv s \<Longrightarrow> services_inv s'"
  by (auto simp: services_pipeEvent_def services_inv_def map_inv_erase Let_def split: if_splits option.splits)

lemma reply_sent_inv:
  assumes "services_inv s" "rp_aio_send (sv_register s) = AioSending x"
  shows "services_inv (s\<lparr>sv_register := snd (reply_aioSent (answer_with None) e (sv_register s))\<rparr>)"
proof -
  let ?r = "snd (reply_aioSent (answer_with None) e (sv_register s))"
  have h: "rp_handler (sv_register s) = Some ()" using assms(1) by (simp add: services_inv_def)
  have "rp_handler ?r = Some () \<and> rp_unresponded ?r = rp_unresponded (sv_register s)"
    using assms(2) h aioSent_stops [OF assms(2), of e "answer_with None"]
      aioSent_success [of "sv_register s" "fst x" "snd x" "()" "answer_with None"]
    by (cases "e = nng_success") simp_all
  with assms(1) aioSent_inv [of "sv_register s" "answer_with None" e] show ?thesis
    by (simp add: services_inv_def open_inv_def)
qed

lemma routed_inv:
  assumes "services_inv s" "routeRequest path m s = (st, left, s') \<or> routePush path m s = (st, left, s')"
  shows "services_inv s'"
proof -
  have mp: "map_inv (sv_map s)" using assms(1) by (simp add: services_inv_def)
  have "rt_path r' = rt_path r \<and> sl_handler (rt_send r') \<noteq> None \<and> sl_handler (se_loop (rt_push r')) \<noteq> None"
    if "sl_handler (rt_send r) \<noteq> None" "sl_handler (se_loop (rt_push r)) \<noteq> None" "sendRequest m r = (x, r') \<or> sendPush m r = (x, r')"
    for r x r'
    using that sendRequest_keeps [OF that(1), of m x r'] sendPush_keeps [OF that(2), of m x r'] by auto
  then obtain mp' where "s' = s\<lparr>sv_map := mp'\<rparr>" "map_inv mp'"
    using assms(2) route_by_inv [OF mp, of sendRequest path m st left s'] route_by_inv [OF mp, of sendPush path m st left s']
    unfolding routeRequest_def routePush_def by blast
  with assms(1) show ?thesis by (simp add: services_inv_def)
qed

lemma services_inv_step: "services_step os s s' \<Longrightarrow> services_inv s \<Longrightarrow> services_inv s'"
proof (induction rule: services_step.induct)
  case (recv s made pipeID aioResult s')
  from recv_inv [OF recv.prems recv.hyps(2,3)] show ?case .
next
  case (pipe pipeID event s s')
  from pipe_inv [OF pipe.hyps pipe.prems] show ?case .
next
  case (pass s env s')
  from management_pass_done [OF pass.hyps] pass.prems show ?case by blast
next
  case (request path m s st left s')
  with routed_inv show ?case by blast
next
  case (push path m s st left s')
  with routed_inv show ?case by blast
next
  case (reply_sent s x e)
  from reply_sent_inv [OF reply_sent.prems reply_sent.hyps] show ?case .
next
  case (event_sent s e)
  then obtain q where "sl_handler (se_loop (sv_events s)) = Some q" by (auto simp: services_inv_def)
  from send_queue_alive(2) [OF this, of e] event_sent show ?case by (simp add: services_inv_def)
next
  case (route_sent s k r e)
  then have mp: "map_inv (sv_map s)" by (simp add: services_inv_def)
  note r = map_invD [OF mp route_sent.hyps]
  from r(2) obtain q where "sl_handler (rt_send r) = Some q" by auto
  from send_queue_alive(2) [OF this, of e] mp r have "map_inv ((sv_map s)(k \<mapsto> r\<lparr>rt_send := send_callback send_queue_handler e (rt_send r)\<rparr>))"
    by (intro map_inv_update) simp_all
  with route_sent.prems show ?case by (simp add: services_inv_def)
next
  case (socket s sock)
  then show ?case by (simp add: services_inv_def open_inv_def)
next
  case (event_socket s sock)
  then show ?case by (simp add: services_inv_def)
qed

lemma services_inv_reach: "(services_step os)\<^sup>*\<^sup>* s s' \<Longrightarrow> services_inv s \<Longrightarrow> services_inv s'"
  by (induction rule: rtranclp_induct) (auto intro: services_inv_step)

lemma services_inv_make:
  assumes "services_make os (Inr q) listened dialed ID reg pub sub = (Inr (), s)"
  shows "services_inv s"
proof -
  have "reply_inv s'" if "rp_outbox s' = sq_new" "rp_aio_send s' = AioIdle" "rp_unresponded s' = {}" for s' :: "(unit, unit, nng_msg) Reply"
    using that by (simp add: reply_inv_def sending_def sq_new_def)
  with assms show ?thesis
    by (auto simp: services_make_def services_inv_def Let_def ebind_def reply_initialize_def reply_make_def map_inv_def open_inv_def
        communicator_on_def setPipeHandler_def sender_box_def sender_initialize_def sender_make_def send_init_def send_loop_new_def
        socket_listen_base_def socket_dial_base_def split: prod.splits sum.splits option.splits if_splits)
qed

section \<open>Properties\<close>

text \<open>
  C6. Requests go to the service with the longest matching path: in every state the directory can
  reach, a request whose target has no registered prefix is refused as not found and left with the
  caller, and any other is handed to the sender of the route whose path is the longest registered
  prefix of the target, and to no other.
\<close>

theorem routing_longest_prefix:
  assumes "services_make os (Inr c) listened dialed ID reg pub sub = (Inr (), s0)" "(services_step os)\<^sup>*\<^sup>* s0 s"
  shows "((\<forall>k. prefix k path \<longrightarrow> sv_map s k = None) \<longrightarrow> routeRequest path m s = (NotFound, Some m, s)) \<and>
    (\<forall>k r. sv_map s k = Some r \<and> prefix k path \<and> (\<forall>j. prefix j path \<and> sv_map s j \<noteq> None \<longrightarrow> length j \<le> length k) \<longrightarrow>
      (\<exists>l. routeRequest path m s = (OK, None, s\<lparr>sv_map := (sv_map s)(k \<mapsto> r\<lparr>rt_send := l\<rparr>)\<rparr>) \<and>
        loop_as_queued l = snd (qs_send m (loop_as_queued (rt_send r)))))"
proof -
  have mp: "map_inv (sv_map s)" using services_inv_reach [OF assms(2) services_inv_make [OF assms(1)]] by (simp add: services_inv_def)
  have "routeRequest path m s = (NotFound, Some m, s)" if "\<forall>k. prefix k path \<longrightarrow> sv_map s k = None"
  proof -
    have "longest_prefix (sv_map s) path = None" using that longest_prefix_some by (cases "longest_prefix (sv_map s) path") fastforce+
    then show ?thesis by (simp add: routeRequest_def route_by_def)
  qed
  moreover have "\<exists>l. routeRequest path m s = (OK, None, s\<lparr>sv_map := (sv_map s)(k \<mapsto> r\<lparr>rt_send := l\<rparr>)\<rparr>) \<and>
      loop_as_queued l = snd (qs_send m (loop_as_queued (rt_send r)))"
    if k: "sv_map s k = Some r" "prefix k path" "\<forall>j. prefix j path \<and> sv_map s j \<noteq> None \<longrightarrow> length j \<le> length k" for k r
  proof -
    have lp: "longest_prefix (sv_map s) path = Some k" by (rule routes.longest_unique) (use k in auto)
    obtain l where l: "send_msg send_queue_handler m (rt_send r) = (Inr (), l)" "loop_as_queued l = snd (qs_send m (loop_as_queued (rt_send r)))"
      using send_queue_queued [OF map_invD(2) [OF mp k(1)], of m] by blast
    with lp k(1) have "routeRequest path m s = (OK, None, s\<lparr>sv_map := (sv_map s)(k \<mapsto> r\<lparr>rt_send := l\<rparr>)\<rparr>)"
      by (simp add: routeRequest_def route_by_def sendRequest_def)
    with l(2) show ?thesis by blast
  qed
  ultimately show ?thesis by blast
qed

text \<open>
  C5. The management thread gets through its work: in every state the directory can reach, while its
  communicators are ready and no name that waits is longer than a key can be, a pass ends without an exception, leaves nothing to open or close, has
  answered every registration that was waiting and no other query, and has neither removed a route nor
  added one for a path that was not asked for, whatever the outcome of dialing.
\<close>

theorem management_answers:
  assumes "services_make os (Inr c) listened dialed ID reg pub sub = (Inr (), s0)" "(services_step os)\<^sup>*\<^sup>* s0 s" "services_ready s"
    and "\<forall>spec \<in> set (sv_route_open s). key_fits (nr_map_uri spec)"
  shows "\<exists>s'. management_pass os env s = (Inr (), s') \<and> sv_route_open s' = [] \<and> sv_route_close s' = [] \<and>
    nr_queryID ` set (sv_route_open s) \<subseteq> rp_unresponded (sv_register s) \<and>
    rp_unresponded (sv_register s') = rp_unresponded (sv_register s) - nr_queryID ` set (sv_route_open s) \<and>
    dom (sv_map s) \<subseteq> dom (sv_map s') \<and> dom (sv_map s') \<subseteq> dom (sv_map s) \<union> nr_map_uri ` set (sv_route_open s)"
proof -
  have inv: "services_inv s" using services_inv_reach [OF assms(2) services_inv_make [OF assms(1)]] .
  then have "nr_queryID ` set (sv_route_open s) \<subseteq> rp_unresponded (sv_register s)" by (auto simp: services_inv_def open_inv_def)
  with management_pass_ok [OF inv assms(3), of os env] assms(4) show ?thesis by blast
qed

text \<open>How a path can leave the map: the removal of a pipe whose registration names it.\<close>

definition taken_down :: "nat \<Rightarrow> string \<Rightarrow> Services \<Rightarrow> Services \<Rightarrow> bool" where
  "taken_down pipeID uri s s' \<longleftrightarrow> sv_registrationMap s pipeID = Some uri \<and> services_pipeEvent pipeID rem_post s = (Inr (), s') \<and>
    (\<exists>r. sv_map s uri = Some r \<and> sv_map s' uri = None \<and> sv_route_close s' = sv_route_close s @ [r])"

lemma aioReceived_map:
  assumes "services_aioReceived made pipeID r s = (Inr (), s')"
  shows "sv_map s' = sv_map s"
proof -
  have "sv_map (snd (services_recv q pipeID m s)) = sv_map s" for q m
    by (auto simp: services_recv_def split: sum.splits exn.splits prod.splits)
  with assms show ?thesis by (auto simp: services_aioReceived_def split: prod.splits sum.splits option.splits) (metis snd_conv)+
qed

lemma path_leaves:
  assumes "services_step os s s'" "sv_map s uri \<noteq> None" "sv_map s' uri = None"
  shows "\<exists>pipeID. taken_down pipeID uri s s'"
  using assms
proof (induction rule: services_step.induct)
  case (recv s made pipeID aioResult s')
  then show ?case by (simp add: aioReceived_map)
next
  case (pipe pipeID event s s')
  then show ?case
    by (intro exI [of _ pipeID]) (auto simp: taken_down_def services_pipeEvent_def Let_def split: if_splits option.splits)
next
  case (pass env s s')
  with management_pass_done [OF pass.hyps] show ?case by blast
qed (auto simp: routeRequest_def routePush_def route_by_def Let_def split: option.splits prod.splits if_splits sum.splits)

text \<open>
  C27. A route stays until a pipe that registered its path goes away. Take any path that is in the
  map, and any further course of the directory: registrations, passes of the management thread with
  whatever outcomes and whether or not the sockets are ready, routed messages, completions, changes
  of the sockets, and pipes that come and go. Then either some pipe whose registration names the path
  was removed on the way, which took the path from the map and handed its route to the management
  thread to be closed; or the path is still in the map, and every target that has it as prefix, and no
  longer registered prefix, is routed to it. The pipe need not be the one of the service that has the
  path.
\<close>

theorem routed_until_disconnect:
  assumes "(services_step os)\<^sup>*\<^sup>* s t" "sv_map s uri \<noteq> None"
  shows "(\<exists>pipeID u v. (services_step os)\<^sup>*\<^sup>* s u \<and> taken_down pipeID uri u v \<and> (services_step os)\<^sup>*\<^sup>* v t) \<or>
    sv_map t uri \<noteq> None \<and> (\<forall>path. prefix uri path \<and> (\<forall>j. prefix j path \<and> sv_map t j \<noteq> None \<longrightarrow> length j \<le> length uri) \<longrightarrow>
      longest_prefix (sv_map t) path = Some uri)"
proof -
  have "(\<exists>pipeID u v. (services_step os)\<^sup>*\<^sup>* s u \<and> taken_down pipeID uri u v \<and> (services_step os)\<^sup>*\<^sup>* v t) \<or> sv_map t uri \<noteq> None"
    using assms
  proof (induction rule: rtranclp_induct)
    case (step t t')
    show ?case
    proof (cases "sv_map t uri = None \<or> sv_map t' uri \<noteq> None")
      case False
      with path_leaves [OF step.hyps(2), of uri] obtain pipeID where "taken_down pipeID uri t t'" by auto
      with step.hyps(1) show ?thesis by (intro disjI1 exI [of _ pipeID] exI [of _ t] exI [of _ t']) simp
    next
      case True
      have "(services_step os)\<^sup>*\<^sup>* v t \<Longrightarrow> (services_step os)\<^sup>*\<^sup>* v t'" for v
        by (erule rtranclp.rtrancl_into_rtrancl) (rule step.hyps(2))
      with True step.IH [OF step.prems] show ?thesis by blast
    qed
  qed simp
  moreover have "longest_prefix (sv_map t) path = Some uri"
    if "sv_map t uri \<noteq> None" "prefix uri path" "\<forall>j. prefix j path \<and> sv_map t j \<noteq> None \<longrightarrow> length j \<le> length uri" for path
    by (rule routes.longest_unique) (use that in auto)
  ultimately show ?thesis by blast
qed

text \<open>
  C39. A service that asks for a path in use, and goes away before the management thread gets to it,
  takes down the route of the service that has the path.
\<close>

theorem conflicting_disconnect:
  assumes "sv_map s path = Some r" "registration_message path path = Inr (Some m)" "path \<noteq> []" "no_newline path"
    "length path < 2 ^ 60" "sv_registrationMap s pipeID = None"
  shows "\<exists>s1 s2. services_recv q pipeID m s = (Inr None, s1) \<and> services_pipeEvent pipeID rem_post s1 = (Inr (), s2) \<and>
    sv_map s2 path = None \<and> r \<in> set (sv_route_close s2)"
proof -
  from registration_message_ok [of path path parse_reset] assms(2,3,5) obtain v where
    v: "msgview_request parse_reset (Some m) = Inr v" "mv_bodyString v = path @ [LF] @ path" by auto
  have "ConsumeLine (path @ [LF] @ path) = (path, path)" "ConsumeLine path = (path, [])"
    using ConsumeLine_LF [OF assms(4), of path] ConsumeLine_end [OF assms(4)] by simp_all
  with v assms(1,6) show ?thesis by (auto simp: services_recv_def services_pipeEvent_def)
qed

section \<open>Instances\<close>

text \<open>A directory that one service has registered with, from the request to the route.\<close>

definition example_outcomes :: dial_outcomes where
  "example_outcomes = \<lparr>do_open_req = nng_success, do_open_push = nng_success, do_sub = Inr 1, do_req = Inr 2, do_push = Inr 3\<rparr>"

definition example_directory :: "platform \<Rightarrow> unit result \<times> Services" where
  "example_directory os = services_make os (Inr 1) (Inr 1) (Inr 2) ''srv'' (example_communicator SERVICE REQ_REP)
    (example_communicator SERVICE PUB_SUB) (the (co_socket (example_communicator CLIENT PUB_SUB)))"

lemma example_made:
  "fst (example_directory os) = Inr ()" "services_ready (snd (example_directory os))"
  "sv_map (snd (example_directory os)) = Map.empty" "sv_registrationMap (snd (example_directory os)) = Map.empty"
  "sv_route_open (snd (example_directory os)) = []" "sv_route_close (snd (example_directory os)) = []"
  "rp_aio_recv (sv_register (snd (example_directory os))) = AioReceiving" "rp_ctx_recv (sv_register (snd (example_directory os))) = Some 1"
  "rp_unresponded (sv_register (snd (example_directory os))) = {}" "rp_outbox (sv_register (snd (example_directory os))) = sq_new"
  "rp_handler (sv_register (snd (example_directory os))) = Some ()" "rp_aio_send (sv_register (snd (example_directory os))) = AioIdle"
  "sk_open (sv_subscribe (snd (example_directory os)))"
  by (simp_all add: example_directory_def services_make_def ebind_def reply_initialize_def reply_make_def communicator_on_def
      setPipeHandler_def sender_box_def sender_initialize_def sender_make_def send_init_def send_loop_new_def services_ready_def
      socket_listen_base_def socket_dial_base_def socket_listen_def socket_dial_def socket_connect_def example_communicator_def
      communicator_isReady_def socket_isReady_def receive_next_def sq_new_def)

lemma example_make:
  "services_make os (Inr 1) (Inr 1) (Inr 2) ''srv'' (example_communicator SERVICE REQ_REP) (example_communicator SERVICE PUB_SUB)
      (the (co_socket (example_communicator CLIENT PUB_SUB))) = (Inr (), snd (example_directory os))"
  using example_made(1) [of os] unfolding example_directory_def by (metis prod.collapse)

lemma example_registered:
  "\<exists>s. (services_step os)\<^sup>*\<^sup>* (snd (example_directory os)) s \<and> services_ready s \<and> sv_map s = Map.empty \<and>
    sv_route_open s = [\<lparr>nr_queryID = 1, nr_pipeID = 4, nr_map_uri = ''/a'', nr_host = host_InProc ''/a''\<rparr>] \<and>
    sv_route_close s = [] \<and> sv_registrationMap s = [4 \<mapsto> ''/a''] \<and> rp_unresponded (sv_register s) = {1} \<and> sk_open (sv_subscribe s)"
proof -
  let ?s = "snd (example_directory os)"
  from registration_message_ok [of "''/a''" "''/a''" parse_reset] obtain m v where
    m: "msgview_request parse_reset (Some m) = Inr v" "mv_bodyString v = ''/a'' @ [LF] @ ''/a''" by auto
  have "ConsumeLine (''/a'' @ [LF] @ ''/a'') = (''/a'', ''/a'')" "ConsumeLine ''/a'' = (''/a'', [])" by simp_all
  with m have "services_recv 1 4 m ?s = (Inr None, ?s\<lparr>sv_registrationMap := [4 \<mapsto> ''/a''],
      sv_route_open := [\<lparr>nr_queryID = 1, nr_pipeID = 4, nr_map_uri = ''/a'', nr_host = host_InProc ''/a''\<rparr>]\<rparr>)"
    by (simp add: services_recv_def example_made)
  then have *: "\<exists>s. services_aioReceived (Inr 2) 4 (Inr m) ?s = (Inr (), s) \<and> services_ready s \<and> sv_map s = Map.empty \<and>
    sv_route_open s = [\<lparr>nr_queryID = 1, nr_pipeID = 4, nr_map_uri = ''/a'', nr_host = host_InProc ''/a''\<rparr>] \<and>
    sv_route_close s = [] \<and> sv_registrationMap s = [4 \<mapsto> ''/a''] \<and> rp_unresponded (sv_register s) = {1} \<and> sk_open (sv_subscribe s)"
    using example_made [of os]
    by (simp add: services_aioReceived_def reply_aioReceived_def receive_next_def services_ready_def communicator_isReady_def)
  have "fresh_ctx (Inr 2) (sv_register ?s)" by (simp add: fresh_ctx_def reply_contexts_def example_made sending_def sq_new_def)
  with * show ?thesis using example_made(7) services_step.recv by (meson r_into_rtranclp)
qed

lemma example_enrolls:
  assumes "sk_open (sv_subscribe s)" "key_fits (nr_map_uri spec)"
  shows "\<not> isl (fst (enroll os example_outcomes spec s))"
proof -
  have "Choose CLIENT REQ_REP \<noteq> NO_PROTOCOL" "Choose CLIENT PUSH_PULL \<noteq> NO_PROTOCOL" by (simp_all add: Choose_eq_no_protocol)
  then obtain r where r: "route_make example_outcomes (nr_map_uri spec) = Inr r" "sk_open (rt_req r)"
    "\<exists>k. co_socket (rt_push r) = Some k \<and> sk_open k"
    by (simp add: route_make_def example_outcomes_def socket_make_def communicator_make_def sender_box_def
        sender_initialize_def sender_make_def send_init_def send_loop_new_def Let_def)
  then have "\<exists>r'. route_dial os example_outcomes (nr_host spec) r = (Inr (), r')"
    by (auto simp: route_dial_def ebind_def example_outcomes_def communicator_on_def socket_dial_base_def socket_dial_def socket_connect_def)
  with r(1) assms show ?thesis
    by (auto simp: enroll_def Let_def example_outcomes_def socket_dial_base_def socket_dial_def socket_connect_def)
qed

lemma example_enrolled:
  "\<exists>s r. (services_step os)\<^sup>*\<^sup>* (snd (example_directory os)) s \<and> sv_map s = [''/a'' \<mapsto> r] \<and> sv_registrationMap s = [4 \<mapsto> ''/a'']"
proof -
  obtain s where s: "(services_step os)\<^sup>*\<^sup>* (snd (example_directory os)) s" "services_ready s" "sv_map s = Map.empty"
    "sv_route_open s = [\<lparr>nr_queryID = 1, nr_pipeID = 4, nr_map_uri = ''/a'', nr_host = host_InProc ''/a''\<rparr>]"
    "sv_route_close s = []" "rp_unresponded (sv_register s) = {1}" "sk_open (sv_subscribe s)" "sv_registrationMap s = [4 \<mapsto> ''/a'']"
    using example_registered [of os] by blast
  let ?spec = "\<lparr>nr_queryID = 1, nr_pipeID = 4, nr_map_uri = ''/a'', nr_host = host_InProc ''/a''\<rparr>"
  let ?s = "s\<lparr>sv_route_close := [], sv_route_open := []\<rparr>"
  from services_inv_reach [OF s(1) services_inv_make [OF example_make]] have inv: "services_inv ?s" by (simp add: services_inv_def open_inv_def)
  have "\<not> isl (fst (enroll os example_outcomes ?spec ?s))" by (rule example_enrolls) (simp_all add: s(7) key_fits_def MAX_KEY_SIZE_def)
  moreover have "key_fits ''/a''" by (simp add: key_fits_def MAX_KEY_SIZE_def)
  ultimately obtain s' r where
    s': "open_route os example_outcomes ?spec ?s = (Inr (), s')" "sv_map s' = [''/a'' \<mapsto> r]"
    using open_route_ok [OF inv, of ?spec os example_outcomes] s(2,3,6) by (auto simp: services_ready_def)
  then have "management_pass os (\<lambda>_. example_outcomes) s = (Inr (), s'\<lparr>sv_route_open := []\<rparr>)"
    using s(4,5) by (simp add: management_pass_def ebind_def)
  with s(1,2) have "(services_step os)\<^sup>*\<^sup>* (snd (example_directory os)) (s'\<lparr>sv_route_open := []\<rparr>)"
    by (meson rtranclp.rtrancl_into_rtrancl services_step.pass)
  with s'(2) s(3,8) open_route_done [OF s'(1)] show ?thesis by (intro exI [of _ "s'\<lparr>sv_route_open := []\<rparr>"] exI [of _ r]) simp
qed

theorem routing_longest_prefix_witness:
  "\<exists>s r l m. sv_map s = [''/a'' \<mapsto> r] \<and>
    routeRequest ''/a/b'' m s = (OK, None, s\<lparr>sv_map := [''/a'' \<mapsto> r\<lparr>rt_send := l\<rparr>]\<rparr>) \<and> routeRequest ''/b'' m s = (NotFound, Some m, s)"
proof -
  obtain s r where s: "(services_step Apple)\<^sup>*\<^sup>* (snd (example_directory Apple)) s" "sv_map s = [''/a'' \<mapsto> r]"
    using example_enrolled [of Apple] by blast
  note route = routing_longest_prefix [OF example_make s(1)]
  have "prefix ''/a'' ''/a/b''" "\<not> prefix ''/a'' ''/b''" by simp_all
  then show ?thesis using route [of "''/b''" m] route [of "''/a/b''" m] s(2) by (auto split: if_splits)
qed

theorem management_answers_witness:
  "\<exists>s s'. length (sv_route_open s) = 1 \<and> management_pass Apple (\<lambda>_. example_outcomes) s = (Inr (), s') \<and>
    sv_route_open s' = [] \<and> rp_unresponded (sv_register s') = {}"
proof -
  obtain s where s: "(services_step Apple)\<^sup>*\<^sup>* (snd (example_directory Apple)) s" "services_ready s" "rp_unresponded (sv_register s) = {1}"
    "sv_route_open s = [\<lparr>nr_queryID = 1, nr_pipeID = 4, nr_map_uri = ''/a'', nr_host = host_InProc ''/a''\<rparr>]"
    using example_registered [of Apple] by blast
  obtain s' where "management_pass Apple (\<lambda>_. example_outcomes) s = (Inr (), s')" "sv_route_open s' = []"
    "rp_unresponded (sv_register s') = rp_unresponded (sv_register s) - nr_queryID ` set (sv_route_open s)"
    using management_answers [OF example_make s(1,2), of "\<lambda>_. example_outcomes"] s(4) by (auto simp: key_fits_def MAX_KEY_SIZE_def)
  with s(3,4) show ?thesis by (intro exI [of _ s] exI [of _ s']) simp
qed

theorem routed_until_disconnect_witness:
  "\<exists>s t u v pipeID. sv_map s ''/a'' \<noteq> None \<and> sv_map t ''/a'' = None \<and>
    (services_step Apple)\<^sup>*\<^sup>* s u \<and> taken_down pipeID ''/a'' u v \<and> (services_step Apple)\<^sup>*\<^sup>* v t"
proof -
  obtain s r where s: "sv_map s = [''/a'' \<mapsto> r]" "sv_registrationMap s = [4 \<mapsto> ''/a'']" "(services_step Apple)\<^sup>*\<^sup>* (snd (example_directory Apple)) s"
    using example_enrolled [of Apple] by blast
  let ?t = "s\<lparr>sv_registrationMap := Map.empty, sv_map := Map.empty, sv_route_close := sv_route_close s @ [r]\<rparr>"
  have "services_pipeEvent 4 rem_post s = (Inr (), ?t)" using s by (simp add: services_pipeEvent_def)
  from r_into_rtranclp [of "services_step Apple", OF services_step.pipe [OF this]] have step: "(services_step Apple)\<^sup>*\<^sup>* s ?t" .
  with routed_until_disconnect [OF step, of "''/a''"] s(1) obtain pipeID u v where
    "(services_step Apple)\<^sup>*\<^sup>* s u" "taken_down pipeID ''/a'' u v" "(services_step Apple)\<^sup>*\<^sup>* v ?t" by auto
  with s(1) show ?thesis by (intro exI [of _ s] exI [of _ ?t] exI [of _ u] exI [of _ v] exI [of _ pipeID]) simp
qed

theorem conflicting_disconnect_witness:
  "\<exists>r m s1 s2. services_recv 1 4 m ((snd (example_directory Apple))\<lparr>sv_map := [''/a'' \<mapsto> r]\<rparr>) = (Inr None, s1) \<and>
    services_pipeEvent 4 rem_post s1 = (Inr (), s2) \<and> sv_map s2 ''/a'' = None"
proof -
  obtain m where m: "registration_message ''/a'' ''/a'' = Inr (Some m)" using registration_message_ok [of "''/a''" "''/a''" parse_reset] by auto
  show ?thesis
    using conflicting_disconnect [of "(snd (example_directory Apple))\<lparr>sv_map := [''/a'' \<mapsto> r]\<rparr>" "''/a''" r m 4 1] m example_made(4) [of Apple]
    by fastforce
qed

end
