(* ===== verification/Server.thy ===== *)
theory Server
  imports Server_Services
begin

text \<open>
  The server: its three relays, \<open>PubSub\<close> (\<open>src/telling/server_publish.cpp\<close>), \<open>PushPull\<close>
  (\<open>src/telling/server_pull.cpp\<close>) and \<open>ReqRep\<close> (\<open>src/telling/server_reply.cpp\<close>), and the object that owns
  them together with the directory of services (\<open>src/telling/server.cpp\<close>). The relay thread of \<open>ReqRep\<close> only runs the
  library's device between two sockets, and the log is left out.
\<close>

section \<open>Requests and replies\<close>

record ReqRep =
  rr_reply_ext :: "unit Socket"
  rr_request_dvc :: "unit Socket"
  rr_reply_int :: "unit Socket"
  rr_send :: "(nng_msg SendQueueMtx, nng_msg) SendLoop"
  rr_recv :: "(unit, nng_msg) RecvLoop"

definition reqrep_make ::
    "platform \<Rightarrow> nng_error + nat \<Rightarrow> nng_error + nat \<Rightarrow> HostAddress_Base \<Rightarrow> unit Socket \<Rightarrow> unit Socket \<Rightarrow> unit Socket \<Rightarrow>
      unit result \<times> ReqRep" where
  "reqrep_make os listened dialed address_internal reply_ext request_dvc reply_int =
    ebind (\<lambda>r. case send_init send_queue_handler (Some sq_new) (rr_send r) of (x, l) \<Rightarrow> (x, r\<lparr>rr_send := l\<rparr>)) (\<lambda>_.
    ebind (\<lambda>r. case recv_start relay_handler (Some ()) (rr_recv r) of (x, l) \<Rightarrow> (x, r\<lparr>rr_recv := l\<rparr>)) (\<lambda>_.
    ebind (\<lambda>r. case socket_listen_base os listened address_internal (rr_reply_int r) of (x, k) \<Rightarrow> (x, r\<lparr>rr_reply_int := k\<rparr>)) (\<lambda>_ r.
      case socket_dial_base os dialed address_internal (rr_request_dvc r) of (x, k) \<Rightarrow> (x, r\<lparr>rr_request_dvc := k\<rparr>))))
    \<lparr>rr_reply_ext = reply_ext, rr_request_dvc = request_dvc, rr_reply_int = reply_int,
      rr_send = send_loop_new, rr_recv = recv_loop_new\<rparr>"

text \<open>Destruction lets the handler expire and closes the sockets before the relay thread is joined.\<close>

definition reqrep_destroy :: "ReqRep \<Rightarrow> ReqRep" where
  "reqrep_destroy r = r\<lparr>rr_recv := (rr_recv r)\<lparr>rl_handler := None\<rparr>, rr_reply_int := socket_close (rr_reply_int r),
    rr_request_dvc := socket_close (rr_request_dvc r), rr_reply_ext := socket_close (rr_reply_ext r)\<rparr>"

text \<open>A reply of a service goes to the client; a refusal by the queue is only logged.\<close>

definition service_replying :: "nng_msg \<Rightarrow> ReqRep \<Rightarrow> unit result \<times> ReqRep" where
  "service_replying m r =
    (case send_msg send_queue_handler m (rr_send r) of
      (Inl e, l) \<Rightarrow> ((case e of NngExn _ _ \<Rightarrow> Inr () | _ \<Rightarrow> Inl Terminate), r\<lparr>rr_send := l\<rparr>)
    | (Inr _, l) \<Rightarrow> (Inr (), r\<lparr>rr_send := l\<rparr>))"

text \<open>
  The reply for a request that could not be routed; the header that the library routes the reply by
  is taken from the request, if it is still there.
\<close>

definition failure_body :: "Status \<Rightarrow> string \<Rightarrow> unit writer_op" where
  "failure_body status uri =
    (if status = NotFound then writeBody (''No service for URI `'' @ uri @ ''`'')
     else if status = ServiceUnavailable then writeBody ''Service exists but forwarding failed.''
     else (\<lambda>w. (Inr (), w)))"

definition failure_reply :: "Status \<Rightarrow> string \<Rightarrow> nng_msg option \<Rightarrow> nng_msg option result" where
  "failure_reply status uri msg =
    fst (ebind (startReply status (reasonPhrase status)) (\<lambda>_. ebind (failure_body status uri) (\<lambda>_.
      ebind (case msg of Some m \<Rightarrow> setNNGHeader (m_header m) | None \<Rightarrow> (\<lambda>w. (Inr (), w))) (\<lambda>_. writer_release))) (writer_new Telling))"

definition client_requesting :: "nng_msg \<Rightarrow> ReqRep \<times> Services \<Rightarrow> unit result \<times> ReqRep \<times> Services" where
  "client_requesting m rs =
    (case rs of (r, s) \<Rightarrow>
      (case msgview_request parse_reset (Some m) of
        Inl e \<Rightarrow> ((case e of MsgExn _ _ \<Rightarrow> Inr () | _ \<Rightarrow> Inl Terminate), r, s)
      | Inr v \<Rightarrow>
          (case routeRequest (mv_uriString v) m s of
            (status, msg, s) \<Rightarrow>
              if isSuccessful status then (Inr (), r, s)
              else (case failure_reply status (mv_uriString v) msg of
                  Inl e \<Rightarrow> (Inl Terminate, r, s)
                | Inr None \<Rightarrow> (Inl (Undefined ''null message''), r, s)
                | Inr (Some reply) \<Rightarrow> (case service_replying reply r of (x, r) \<Rightarrow> (x, r, s))))))"

section \<open>Pushing\<close>

record PushPull =
  pp_pull :: "(unit, unit, nng_msg) Receiver"

definition pushpull_make :: "unit Communicator \<Rightarrow> unit result \<times> PushPull" where
  "pushpull_make c = (case receiver_initialize relay_handler (Some ()) (receiver_make c) of (x, p) \<Rightarrow> (x, \<lparr>pp_pull = p\<rparr>))"

definition pushpull_destroy :: "PushPull \<Rightarrow> PushPull" where
  "pushpull_destroy p = (let c = pp_pull p in
    \<lparr>pp_pull = snd (communicator_disconnectAll (c\<lparr>re_loop := (re_loop c)\<lparr>rl_handler := None\<rparr>\<rparr>))\<rparr>)"

text \<open>A message that cannot be routed is discarded: there is no way to answer.\<close>

definition pulling :: "nng_msg \<Rightarrow> Services \<Rightarrow> unit result \<times> Services" where
  "pulling m s =
    (case msgview_request parse_reset (Some m) of
      Inl e \<Rightarrow> ((case e of MsgExn _ _ \<Rightarrow> Inr () | _ \<Rightarrow> Inl Terminate), s)
    | Inr v \<Rightarrow> (case routePush (mv_uriString v) m s of (status, msg, s) \<Rightarrow> (Inr (), s)))"

section \<open>Publishing\<close>

text \<open>
  The subscription's socket is part of the directory's state, since the management thread dials it;
  here are the rest of the subscriber and the publisher.
\<close>

record PubSub =
  ps_topics :: "string list"
  ps_loop :: "(unit, nng_msg) RecvLoop"
  ps_publish :: "(unit, nng_msg) Sender_Box"

definition pubsub_make ::
    "platform \<Rightarrow> nng_error \<Rightarrow> nng_error + nat \<Rightarrow> HostAddress_Base \<Rightarrow> unit Communicator \<Rightarrow> unit Communicator \<Rightarrow>
      unit result \<times> PubSub \<times> unit Socket option" where
  "pubsub_make os set_opt listened address_internal sub pub =
    (case ebind (subscribe set_opt []) (\<lambda>_. ebind (communicator_on (socket_listen_base os listened address_internal)) (\<lambda>_.
        receiver_initialize relay_handler (Some ()))) (receiver_make sub) of
      (x, c) \<Rightarrow> (x, \<lparr>ps_topics = re_topics c, ps_loop = re_loop c, ps_publish = sender_box pub\<rparr>, co_socket c))"

definition pubsub_destroy :: "PubSub \<times> unit Socket \<Rightarrow> PubSub \<times> unit Socket" where
  "pubsub_destroy ps = (case ps of (p, sub) \<Rightarrow>
    (p\<lparr>ps_loop := (ps_loop p)\<lparr>rl_handler := None\<rparr>, ps_publish := snd (communicator_disconnectAll (ps_publish p))\<rparr>, socket_disconnectAll sub))"

text \<open>The publisher throws when no endpoint of the server is open, and the exception leaves the library's callback.\<close>

definition subscribing :: "nng_msg \<Rightarrow> (unit, nng_msg) Sender_Box \<Rightarrow> unit result \<times> (unit, nng_msg) Sender_Box" where
  "subscribing m p =
    (case msgview_report parse_reset (Some m) of
      Inl e \<Rightarrow> ((case e of MsgExn _ _ \<Rightarrow> Inr () | _ \<Rightarrow> Inl Terminate), p)
    | Inr v \<Rightarrow>
        (case publish send_queue_handler m p of
          (Inl e, p) \<Rightarrow> (Inl Terminate, p)
        | (Inr _, p) \<Rightarrow> (Inr (), p)))"

section \<open>The server\<close>

record Server =
  srv_ID :: string
  srv_publish :: PubSub
  srv_pull :: PushPull
  srv_reply :: ReqRep
  srv_services :: Services

definition server_sockets :: "Server \<Rightarrow> unit Socket option list" where
  "server_sockets srv = [Some (rr_reply_ext (srv_reply srv)), co_socket (ps_publish (srv_publish srv)), co_socket (pp_pull (srv_pull srv))]"

definition server_with :: "Server \<Rightarrow> unit Socket option list \<Rightarrow> Server" where
  "server_with srv ks = srv\<lparr>srv_reply := (srv_reply srv)\<lparr>rr_reply_ext := the (ks ! 0)\<rparr>,
    srv_publish := (srv_publish srv)\<lparr>ps_publish := (ps_publish (srv_publish srv))\<lparr>co_socket := ks ! 1\<rparr>\<rparr>,
    srv_pull := \<lparr>pp_pull = (pp_pull (srv_pull srv))\<lparr>co_socket := ks ! 2\<rparr>\<rparr>\<rparr>"

definition server_open ::
    "platform \<Rightarrow> (nat \<Rightarrow> nng_error + nat) \<Rightarrow> HostAddress_Base \<Rightarrow> nat list \<Rightarrow> Server \<Rightarrow> unit result \<times> Server" where
  "server_open os made base order srv = (case Listen os made base order (server_sockets srv) of (x, ks) \<Rightarrow> (x, server_with srv ks))"

definition server_close :: "platform \<Rightarrow> HostAddress_Base \<Rightarrow> Server \<Rightarrow> Server" where
  "server_close os base srv = server_with srv (Disconnect os base (server_sockets srv))"

text \<open>
  What the library gives the constructor: the sockets and communicators that were opened, and the
  results of the calls on them. \<open>order\<close> is the order in which the compiler evaluates the arguments of \<open>Listen\<close>.
\<close>

record server_outcomes =
  so_sub :: "unit Communicator"
  so_pub :: "unit Communicator"
  so_pull :: "unit Communicator"
  so_reply_ext :: "unit Socket"
  so_request_dvc :: "unit Socket"
  so_reply_int :: "unit Socket"
  so_register :: "unit Communicator"
  so_events :: "unit Communicator"
  so_set_opt :: nng_error
  so_sub_listen :: "nng_error + nat"
  so_int_listen :: "nng_error + nat"
  so_dvc_dial :: "nng_error + nat"
  so_context :: "nng_error + QueryID"
  so_register_listen :: "nng_error + nat"
  so_events_dial :: "nng_error + nat"
  so_open :: "nat \<Rightarrow> nng_error + nat"
  so_order :: "nat list"

definition server_make :: "platform \<Rightarrow> server_outcomes \<Rightarrow> string \<Rightarrow> bool \<Rightarrow> Server result" where
  "server_make os env ID open_inproc =
    (let address_internal = host_InProc (ID @ ''/internal'') in
     case pubsub_make os (so_set_opt env) (so_sub_listen env) address_internal (so_sub env) (so_pub env) of
       (Inl e, _) \<Rightarrow> Inl e
     | (Inr _, p, sub) \<Rightarrow>
     (case pushpull_make (so_pull env) of
       (Inl e, _) \<Rightarrow> Inl e
     | (Inr _, q) \<Rightarrow>
     (case reqrep_make os (so_int_listen env) (so_dvc_dial env) address_internal (so_reply_ext env) (so_request_dvc env) (so_reply_int env) of
       (Inl e, _) \<Rightarrow> Inl e
     | (Inr _, r) \<Rightarrow>
     (case services_make os (so_context env) (so_register_listen env) (so_events_dial env) ID (so_register env) (so_events env) (the sub) of
       (Inl e, _) \<Rightarrow> Inl e
     | (Inr _, s) \<Rightarrow>
         let srv = \<lparr>srv_ID = ID, srv_publish = p, srv_pull = q, srv_reply = r, srv_services = s\<rparr> in
         if open_inproc
         then (case server_open os (so_open env) (host_InProc ID) (so_order env) srv of (Inl e, _) \<Rightarrow> Inl e | (Inr _, srv) \<Rightarrow> Inr srv)
         else Inr srv))))"

section \<open>Lemmas\<close>

lemma set_header_commutes:
  assumes "w_msg w = Some m" "autoCloseHeaders w = (r, w')"
  shows "autoCloseHeaders (w\<lparr>w_msg := Some (m\<lparr>m_header := h\<rparr>)\<rparr>) = (r, w'\<lparr>w_msg := map_option (m_header_update (\<lambda>_. h)) (w_msg w')\<rparr>)"
  using assms by (auto simp: autoCloseHeaders_def ebind_def newline_def append_body_def split: prod.splits if_splits)

lemma release_with_header:
  assumes "w_msg w = Some m" "writer_release w = (Inr (Some m'), w')"
  shows "fst (ebind (setNNGHeader h) (\<lambda>_. writer_release) w) = Inr (Some (m'\<lparr>m_header := h\<rparr>))"
proof -
  obtain r w1 where w1: "autoCloseHeaders w = (r, w1)" by (cases "autoCloseHeaders w")
  with assms(2) have "\<exists>m1. w_msg w1 = Some m1"
    by (auto simp: writer_release_def ebind_def complete_length_def Let_def split: sum.splits prod.splits if_splits option.splits)
  with assms w1 set_header_commutes [OF assms(1) w1, of h] show ?thesis
    by (auto simp: writer_release_def ebind_def complete_length_def setNNGHeader_def Let_def
        split: sum.splits prod.splits if_splits option.splits)
qed

lemma view_with_header:
  assumes "msgview_make L0 (Some m) t = Inr v"
  shows "\<exists>v'. msgview_make L0 (Some (m\<lparr>m_header := h\<rparr>)) t = Inr v' \<and> mv_status v' = mv_status v \<and>
    mv_reason v' = mv_reason v \<and> mv_bodyString v' = mv_bodyString v"
  using assms by (auto simp: msgview_make_def mv_status_def mv_statusString_def mv_reason_def mv_bodyString_def mv_bodySize_def
      mv_string_def mv_raw_def split: prod.splits sum.splits)

lemma not_found_reply:
  assumes "length uri < 2 ^ 63"
  shows "\<exists>reply w. failure_reply NotFound uri (Some m) = Inr (Some reply) \<and> m_header reply = m_header m \<and>
    msgview_reply parse_reset (Some reply) = Inr w \<and> mv_status w = NotFound \<and> mv_reason w = ''Not Found'' \<and>
    mv_bodyString w = ''No service for URI `'' @ uri @ ''`''"
proof -
  let ?body = "''No service for URI `'' @ uri @ ''`''"
  have line: "directory_status NotFound" by (simp add: directory_status_def)
  have "length (msg_head (reply_line Telling NotFound (reasonPhrase NotFound)) (preferred_newline Telling) [] @ ?body) < 2 ^ 64"
    using directory_line(7) [OF line] assms by simp
  from written_reply [OF _ directory_line(4,5,1-3) [OF line] _ directory_line(7) [OF line] this, of REPLY parse_reset] obtain m' w' v where
    m': "compose_msg (startReply NotFound (reasonPhrase NotFound)) [] ?body (writer_new Telling) = (Inr (Some m'), w')"
    "msgview_make parse_reset (Some m') REPLY = Inr v" "mv_status v = NotFound" "mv_reason v = ''Not Found''" "mv_bodyString v = ?body"
    by (auto simp: protocol_valid_def directory_reasons)
  obtain w1 where w1: "startReply NotFound (reasonPhrase NotFound) (writer_new Telling) = (Inr (), w1)"
    using m'(1) by (cases "startReply NotFound (reasonPhrase NotFound) (writer_new Telling)") (auto simp: compose_plain ebind_def split: sum.splits)
  obtain w2 where w2: "writeBody ?body w1 = (Inr (), w2)" "writer_release w2 = (Inr (Some m'), w')"
    using m'(1) w1 by (cases "writeBody ?body w1") (auto simp: compose_plain ebind_def split: sum.splits)
  then obtain m2 where m2: "w_msg w2 = Some m2"
    by (auto simp: writer_release_def ebind_def autoCloseHeaders_def malformed_def complete_length_def newline_def append_body_def Let_def
        split: sum.splits prod.splits if_splits option.splits)
  have "failure_reply NotFound uri (Some m) = Inr (Some (m'\<lparr>m_header := m_header m\<rparr>))"
    using w1 w2(1) release_with_header [OF m2 w2(2), of "m_header m"] by (simp add: failure_reply_def failure_body_def ebind_def)
  with view_with_header [OF m'(2), of "m_header m"] m'(3-5) show ?thesis by (auto simp: msgview_reply_def)
qed

lemma uri_length:
  assumes "msgview_make L0 (Some m) t = Inr v"
  shows "length (mv_uriString v) < 65536"
proof -
  obtain L where "parse_msg (m_body m) t L0 = (Inr (), L)" and v: "mv_layout v = L"
    using assms by (auto simp: msgview_make_def split: prod.splits sum.splits)
  then have ok: "layout_ok (length (m_body m)) L" by (intro parse_msg_layout_ok)
  have "snd (uri_range L) \<le> unat (sl_len L)" using ok layout_ok_ranges(3,4) [OF ok] by (cases "has_uri L") auto
  moreover have "unat (sl_len L) < 65536" by simp
  ultimately have "snd (uri_range L) < 65536" by (rule le_less_trans)
  then show ?thesis by (simp add: mv_uriString_def mv_string_def v min_less_iff_disj)
qed

section \<open>Invariant\<close>

text \<open>The senders of the server live as long as it does, and the directory keeps its invariant.\<close>

definition server_inv :: "Server \<Rightarrow> bool" where
  "server_inv srv \<longleftrightarrow> services_inv (srv_services srv) \<and> sl_handler (rr_send (srv_reply srv)) \<noteq> None \<and>
    sl_handler (se_loop (ps_publish (srv_publish srv))) \<noteq> None"

inductive server_step :: "platform \<Rightarrow> Server \<Rightarrow> Server \<Rightarrow> bool" for os where
  request: "client_requesting m (srv_reply srv, srv_services srv) = (Inr (), r, s) \<Longrightarrow>
    server_step os srv (srv\<lparr>srv_reply := r, srv_services := s\<rparr>)"
| reply: "service_replying m (srv_reply srv) = (Inr (), r) \<Longrightarrow> server_step os srv (srv\<lparr>srv_reply := r\<rparr>)"
| reply_sent: "server_step os srv (srv\<lparr>srv_reply := (srv_reply srv)\<lparr>rr_send :=
    send_callback send_queue_handler e (rr_send (srv_reply srv))\<rparr>\<rparr>)"
| push: "pulling m (srv_services srv) = (Inr (), s) \<Longrightarrow> server_step os srv (srv\<lparr>srv_services := s\<rparr>)"
| publish: "subscribing m (ps_publish (srv_publish srv)) = (Inr (), p) \<Longrightarrow>
    server_step os srv (srv\<lparr>srv_publish := (srv_publish srv)\<lparr>ps_publish := p\<rparr>\<rparr>)"
| publish_sent: "ps_publish (srv_publish srv) = p \<Longrightarrow> server_step os srv (srv\<lparr>srv_publish := (srv_publish srv)\<lparr>ps_publish :=
    p\<lparr>se_loop := send_callback send_queue_handler e (se_loop p)\<rparr>\<rparr>\<rparr>)"
| directory: "services_step os (srv_services srv) s \<Longrightarrow> server_step os srv (srv\<lparr>srv_services := s\<rparr>)"
| opened: "server_open os made base order srv = (x, srv') \<Longrightarrow> server_step os srv srv'"
| closed: "server_step os srv (server_close os base srv)"

lemma server_with_inv: "server_inv srv \<Longrightarrow> server_inv (server_with srv ks)"
  by (simp add: server_inv_def server_with_def)

lemma service_replying_ok:
  assumes "sl_handler (rr_send r) \<noteq> None"
  shows "\<exists>l. service_replying m r = (Inr (), r\<lparr>rr_send := l\<rparr>) \<and> sl_handler l \<noteq> None \<and>
    loop_as_queued l = snd (qs_send m (loop_as_queued (rr_send r)))"
  by (rule send_queue_queued [OF assms, of m]) (auto simp: service_replying_def)

lemma routed_services_inv: "services_inv s \<Longrightarrow> routeRequest path m s = (st, left, s') \<Longrightarrow> services_inv s'"
  and pushed_services_inv: "services_inv s \<Longrightarrow> routePush path m s = (st, left, s') \<Longrightarrow> services_inv s'"
  by (blast intro: services_inv_step services_step.request, blast intro: services_inv_step services_step.push)

definition request_disposition :: "nng_msg \<Rightarrow> ReqRep \<Rightarrow> Services \<Rightarrow> ReqRep \<Rightarrow> Services \<Rightarrow> bool" where
  "request_disposition m r s r' s' \<longleftrightarrow>
    (case msgview_request parse_reset (Some m) of
      Inl _ \<Rightarrow> r' = r \<and> s' = s
    | Inr v \<Rightarrow>
        (case longest_prefix (sv_map s) (mv_uriString v) of
          Some k \<Rightarrow> r' = r \<and> (\<exists>rt l. sv_map s k = Some rt \<and> s' = s\<lparr>sv_map := (sv_map s)(k \<mapsto> rt\<lparr>rt_send := l\<rparr>)\<rparr> \<and>
            loop_as_queued l = snd (qs_send m (loop_as_queued (rt_send rt))))
        | None \<Rightarrow> s' = s \<and> (\<exists>reply w. loop_as_queued (rr_send r') = snd (qs_send reply (loop_as_queued (rr_send r))) \<and>
            m_header reply = m_header m \<and> msgview_reply parse_reset (Some reply) = Inr w \<and> mv_status w = NotFound \<and>
            mv_bodyString w = ''No service for URI `'' @ mv_uriString v @ ''`'')))"

lemma client_requesting_ok:
  assumes "services_inv s" "sl_handler (rr_send r) \<noteq> None"
  shows "\<exists>r' s'. client_requesting m (r, s) = (Inr (), r', s') \<and> services_inv s' \<and> sl_handler (rr_send r') \<noteq> None \<and>
    request_disposition m r s r' s'"
proof (cases "msgview_request parse_reset (Some m)")
  case (Inl e)
  then obtain c t where "e = MsgExn c t"
    using parse_msg_error [of "m_body m" REQUEST parse_reset e] by (auto simp: msgview_request_def msgview_make_def split: prod.splits sum.splits)
  with Inl assms show ?thesis by (simp add: client_requesting_def request_disposition_def)
next
  case (Inr v)
  let ?uri = "mv_uriString v"
  show ?thesis
  proof (cases "longest_prefix (sv_map s) ?uri")
    case None
    have "length ?uri < 2 ^ 63" using uri_length [of parse_reset m REQUEST v] Inr by (simp add: msgview_request_def)
    from not_found_reply [OF this, of m] obtain reply w where
      reply: "failure_reply NotFound ?uri (Some m) = Inr (Some reply)" "m_header reply = m_header m"
        "msgview_reply parse_reset (Some reply) = Inr w" "mv_status w = NotFound" "mv_bodyString w = ''No service for URI `'' @ ?uri @ ''`''" by blast
    obtain l where l: "service_replying reply r = (Inr (), r\<lparr>rr_send := l\<rparr>)" "sl_handler l \<noteq> None"
      "loop_as_queued l = snd (qs_send reply (loop_as_queued (rr_send r)))"
      using service_replying_ok [OF assms(2), of reply] by blast
    have "client_requesting m (r, s) = (Inr (), r\<lparr>rr_send := l\<rparr>, s)"
      using Inr None reply(1) l(1) by (simp add: client_requesting_def routeRequest_def route_by_def isSuccessful_def)
    moreover have "request_disposition m r s (r\<lparr>rr_send := l\<rparr>) s"
      using Inr None reply(2-5) l(3) by (auto simp: request_disposition_def)
    ultimately show ?thesis using assms(1) l(2) by auto
  next
    case (Some k)
    then obtain rt where rt: "sv_map s k = Some rt" using longest_prefix_some [OF Some] by auto
    have "map_inv (sv_map s)" using assms(1) by (simp add: services_inv_def)
    from map_invD(2) [OF this rt] obtain l where l: "send_msg send_queue_handler m (rt_send rt) = (Inr (), l)"
      "loop_as_queued l = snd (qs_send m (loop_as_queued (rt_send rt)))"
      by (rule send_queue_queued [of _ m])
    let ?s = "s\<lparr>sv_map := (sv_map s)(k \<mapsto> rt\<lparr>rt_send := l\<rparr>)\<rparr>"
    have routed: "routeRequest ?uri m s = (OK, None, ?s)" using Some rt l(1) by (simp add: routeRequest_def route_by_def sendRequest_def)
    then have "client_requesting m (r, s) = (Inr (), r, ?s)" using Inr by (simp add: client_requesting_def isSuccessful_def)
    moreover have "request_disposition m r s r ?s"
      using Inr Some rt l(2) by (auto simp: request_disposition_def)
    ultimately show ?thesis using assms routed_services_inv [OF assms(1) routed] by auto
  qed
qed

lemma server_inv_step: "server_step os srv srv' \<Longrightarrow> server_inv srv \<Longrightarrow> server_inv srv'"
proof (induction rule: server_step.induct)
  case (request m srv r s)
  with client_requesting_ok [of "srv_services srv" "srv_reply srv" m] show ?case by (auto simp: server_inv_def)
next
  case (push m srv s)
  then show ?case using pushed_services_inv by (auto simp: pulling_def server_inv_def split: sum.splits prod.splits)
next
  case (publish m srv p)
  then show ?case using sender_send_alive [of "ps_publish (srv_publish srv)"]
    by (auto simp: subscribing_def publish_def server_inv_def split: sum.splits prod.splits)
next
  case (reply m srv r)
  with service_replying_ok [of "srv_reply srv" m] show ?case by (auto simp: server_inv_def)
next
  case (reply_sent srv e)
  then show ?case using send_queue_alive(2) [of "rr_send (srv_reply srv)"] by (auto simp: server_inv_def)
next
  case (publish_sent srv p e)
  then show ?case using send_queue_alive(2) [of "se_loop p"] by (auto simp: server_inv_def)
qed (auto simp: server_inv_def server_open_def server_close_def server_with_def services_inv_step split: prod.splits)

lemma server_inv_reach: "(server_step os)\<^sup>*\<^sup>* srv srv' \<Longrightarrow> server_inv srv \<Longrightarrow> server_inv srv'"
  by (induction rule: rtranclp_induct) (auto intro: server_inv_step)

lemma reqrep_make_alive: "reqrep_make os li di a x y z = (Inr (), r) \<Longrightarrow> sl_handler (rr_send r) \<noteq> None"
  by (auto simp: reqrep_make_def ebind_def send_init_def send_loop_new_def split: prod.splits sum.splits if_splits)

lemma sender_box_alive: "sl_handler (se_loop (sender_box c)) \<noteq> None"
  by (simp add: sender_box_def sender_initialize_def sender_make_def send_init_def send_loop_new_def)

lemma server_inv_make:
  assumes "server_make os env ID open_inproc = Inr srv"
  shows "server_inv srv"
proof -
  from assms obtain p sub pp r s srv1 where
    p: "pubsub_make os (so_set_opt env) (so_sub_listen env) (host_InProc (ID @ ''/internal'')) (so_sub env) (so_pub env) = (Inr (), p, sub)"
    and r: "reqrep_make os (so_int_listen env) (so_dvc_dial env) (host_InProc (ID @ ''/internal'')) (so_reply_ext env) (so_request_dvc env) (so_reply_int env) = (Inr (), r)"
    and s: "services_make os (so_context env) (so_register_listen env) (so_events_dial env) ID (so_register env) (so_events env) (the sub) = (Inr (), s)"
    and srv1: "srv1 = \<lparr>srv_ID = ID, srv_publish = p, srv_pull = pp, srv_reply = r, srv_services = s\<rparr>"
    and srv: "srv = srv1 \<or> (\<exists>ks. srv = server_with srv1 ks)"
    by (auto simp: server_make_def Let_def server_open_def split: prod.splits sum.splits if_splits)
  have "sl_handler (se_loop (ps_publish p)) \<noteq> None" using p sender_box_alive by (auto simp: pubsub_make_def split: prod.splits)
  moreover obtain q where "so_context env = Inr q"
    using s by (cases "so_context env") (auto simp: services_make_def ebind_def reply_initialize_def reply_make_def Let_def)
  ultimately have "server_inv srv1"
    using reqrep_make_alive [OF r] services_inv_make s by (auto simp: server_inv_def srv1)
  with srv server_with_inv show ?thesis by auto
qed

section \<open>Properties\<close>

text \<open>
  C3. The server disposes of every request: in every state a server can reach, handling a message
  from a client ends without an exception, and the message is dropped if it is not a request, is
  queued unchanged for the service with the longest path that is a prefix of its target if there is
  one, and is otherwise answered: a reply that carries the routing header of the request, and that
  parses to the status 404 and names the target, is queued for the client.
\<close>

theorem server_routes_requests:
  assumes "server_make os env ID open_inproc = Inr srv0" "(server_step os)\<^sup>*\<^sup>* srv0 srv"
  shows "\<exists>r s. client_requesting m (srv_reply srv, srv_services srv) = (Inr (), r, s) \<and>
    request_disposition m (srv_reply srv) (srv_services srv) r s"
proof -
  have "server_inv srv" using server_inv_reach [OF assms(2) server_inv_make [OF assms(1)]] .
  with client_requesting_ok [of "srv_services srv" "srv_reply srv" m] show ?thesis by (auto simp: server_inv_def)
qed

text \<open>
  C33. Reports from services are passed on unchanged while an endpoint of the server is open, and a
  report that arrives while none is open ends the program.
\<close>

theorem server_relays_reports:
  assumes "server_make os env ID open_inproc = Inr srv0" "(server_step os)\<^sup>*\<^sup>* srv0 srv"
    and "msgview_report parse_reset (Some m) = Inr v" "p = ps_publish (srv_publish srv)"
  shows "if communicator_isReady p
    then \<exists>l. subscribing m p = (Inr (), p\<lparr>se_loop := l\<rparr>) \<and> loop_as_queued l = snd (qs_send m (loop_as_queued (se_loop p)))
    else subscribing m p = (Inl Terminate, p)"
proof -
  have "server_inv srv" using server_inv_reach [OF assms(2) server_inv_make [OF assms(1)]] .
  then have "sl_handler (se_loop p) \<noteq> None" by (simp add: server_inv_def assms(4))
  then show ?thesis
    by (rule send_queue_queued [of _ m]) (use assms(3) in \<open>auto simp: subscribing_def publish_def sender_send_def\<close>)
qed

section \<open>Instances\<close>

definition example_server_outcomes :: server_outcomes where
  "example_server_outcomes = (let sock = (\<lambda>role pattern. the (co_socket (example_communicator role pattern))) in
    \<lparr>so_sub = example_communicator CLIENT PUB_SUB, so_pub = example_communicator SERVICE PUB_SUB, so_pull = example_communicator SERVICE PUSH_PULL,
     so_reply_ext = sock SERVICE REQ_REP, so_request_dvc = sock CLIENT REQ_REP, so_reply_int = sock SERVICE REQ_REP,
     so_register = example_communicator SERVICE REQ_REP, so_events = example_communicator SERVICE PUB_SUB, so_set_opt = nng_success,
     so_sub_listen = Inr 1, so_int_listen = Inr 2, so_dvc_dial = Inr 3, so_context = Inr 1, so_register_listen = Inr 4,
     so_events_dial = Inr 5, so_open = (\<lambda>_. Inr 6), so_order = [0, 1, 2]\<rparr>)"

lemma example_listens:
  "sk_open k \<Longrightarrow> \<exists>k'. socket_listen_base os (Inr n) base k = (Inr (), k') \<and> sk_open k'"
  "sk_open k \<Longrightarrow> \<exists>k'. socket_dial_base os (Inr n) base k = (Inr (), k') \<and> sk_open k'"
  by (simp_all add: socket_listen_base_def socket_listen_def socket_dial_base_def socket_dial_def socket_connect_def)

lemma example_communicator_open:
  "\<exists>k. co_socket (example_communicator role pattern) = Some k \<and> sk_open k \<and> sk_pipe_handler k = None"
  by (simp add: example_communicator_def)

lemma sender_box_socket: "co_socket (sender_box c) = co_socket c"
  by (simp add: sender_box_def sender_initialize_def sender_make_def split: prod.split)

lemma example_pubsub:
  "\<exists>p k. pubsub_make os nng_success (Inr n) base (example_communicator r x) (example_communicator r' y) = (Inr (), p, Some k) \<and>
    communicator_isReady (ps_publish p)"
proof -
  obtain k where k: "co_socket (example_communicator r x) = Some k" "sk_open k" using example_communicator_open by blast
  obtain k' where "socket_listen_base os (Inr n) base k = (Inr (), k')" using example_listens(1) [OF k(2)] by blast
  with k(1) show ?thesis using example_communicator_socket [of r' y]
    by (auto simp: pubsub_make_def ebind_def subscribe_def receiver_make_def communicator_on_def receiver_initialize_def
        recv_start_def recv_loop_new_def relay_handler_def communicator_isReady_def sender_box_socket)
qed

lemma example_pushpull: "\<exists>q. pushpull_make (example_communicator r x) = (Inr (), q)"
  by (simp add: pushpull_make_def receiver_make_def receiver_initialize_def recv_start_def recv_loop_new_def relay_handler_def)

lemma example_services:
  "\<exists>s. services_make os (Inr q) (Inr a) (Inr b) ID (example_communicator r x) (example_communicator r' y) sub = (Inr (), s) \<and>
    sv_map s = Map.empty"
  using example_communicator_open [of r x] example_communicator_open [of r' y]
  by (auto simp: services_make_def ebind_def reply_initialize_def reply_make_def communicator_on_def setPipeHandler_def sender_box_socket
      socket_listen_base_def socket_dial_base_def socket_listen_def socket_dial_def socket_connect_def)

lemma example_reqrep:
  assumes "sk_open z" "sk_open y"
  shows "\<exists>r. reqrep_make os (Inr n) (Inr k) base x y z = (Inr (), r)"
  using example_listens(1) [OF assms(1), of os n base] example_listens(2) [OF assms(2), of os k base]
  by (auto simp: reqrep_make_def ebind_def send_init_def send_loop_new_def recv_start_def recv_loop_new_def relay_handler_def
      send_queue_handler_def)

lemma example_server:
  "\<exists>srv. server_make Apple example_server_outcomes ''srv'' False = Inr srv \<and> sv_map (srv_services srv) = Map.empty \<and>
    communicator_isReady (ps_publish (srv_publish srv))"
proof -
  let ?E = example_server_outcomes and ?base = "host_InProc (''srv'' @ ''/internal'')"
  obtain p k where p: "pubsub_make Apple nng_success (Inr 1) ?base (example_communicator CLIENT PUB_SUB) (example_communicator SERVICE PUB_SUB) =
      (Inr (), p, Some k)" "communicator_isReady (ps_publish p)" using example_pubsub by blast
  obtain q where q: "pushpull_make (example_communicator SERVICE PUSH_PULL) = (Inr (), q)" using example_pushpull by blast
  have "sk_open (the (co_socket (example_communicator role pattern)))" for role pattern using example_communicator_open [of role pattern] by auto
  then obtain r where r: "reqrep_make Apple (Inr 2) (Inr 3) ?base (the (co_socket (example_communicator SERVICE REQ_REP)))
      (the (co_socket (example_communicator CLIENT REQ_REP))) (the (co_socket (example_communicator SERVICE REQ_REP))) = (Inr (), r)"
    using example_reqrep by blast
  obtain s where s: "services_make Apple (Inr 1) (Inr 4) (Inr 5) ''srv'' (example_communicator SERVICE REQ_REP)
      (example_communicator SERVICE PUB_SUB) k = (Inr (), s)" "sv_map s = Map.empty" using example_services by blast
  have "server_make Apple ?E ''srv'' False = Inr \<lparr>srv_ID = ''srv'', srv_publish = p, srv_pull = q, srv_reply = r, srv_services = s\<rparr>"
    unfolding server_make_def example_server_outcomes_def Let_def using p(1) q r s(1) by simp
  with p(2) s(2) show ?thesis by simp
qed

theorem server_routes_requests_witness:
  "\<exists>srv r s m. server_make Apple example_server_outcomes ''srv'' False = Inr srv \<and>
    client_requesting m (srv_reply srv, srv_services srv) = (Inr (), r, s) \<and> request_disposition m (srv_reply srv) (srv_services srv) r s"
  using example_server server_routes_requests [OF _ rtranclp.rtrancl_refl] by meson

theorem server_relays_reports_witness:
  "\<exists>m p l. subscribing m p = (Inr (), p\<lparr>se_loop := l\<rparr>) \<and> loop_as_queued l = snd (qs_send m (loop_as_queued (se_loop p)))"
proof -
  obtain srv where srv: "server_make Apple example_server_outcomes ''srv'' False = Inr srv" "communicator_isReady (ps_publish (srv_publish srv))"
    using example_server by blast
  let ?line = "report_line ''/a'' Telling OK (reasonPhrase OK)"
  have "directory_status OK" by (simp add: directory_status_def)
  note line = directory_line [OF this]
  have "length (msg_head ?line (preferred_newline Telling) []) \<le> 65535" "length (msg_head ?line (preferred_newline Telling) [] @ []) < 2 ^ 64"
    by (simp_all add: directory_reasons msg_head_def preferred_newline_def status_toString_def)
  from written_report [OF _ _ _ _ line(1,2) _ this, of REPORT parse_reset]
  obtain m v where "msgview_report parse_reset (Some m) = Inr v"
    using line(4,5) by (auto simp: protocol_valid_def ContainsWhitespace_def msgview_report_def)
  from server_relays_reports [OF srv(1) rtranclp.rtrancl_refl this refl] srv(2) show ?thesis by auto
qed

end
