(* ===== verification/Service_Reactor.thy ===== *)
theory Service_Reactor
  imports Msg_Writer Service_Reply
begin

text \<open>
  Reactors: \<open>include/telling/service_reactor.h\<close> and \<open>src/telling/service_reactor.cpp\<close>. A reactor is a handler of a
  service that parses incoming requests and calls a method of its own by the request's method; the
  exceptions of that method become replies.
\<close>

section \<open>Queries and methods\<close>

text \<open>
  A query carries a prompt, \<open>SendPrompt\<close>, which refers to a place for the reply or to none; a pushed
  message has no such place and the number 0. The place holds the last message that was put into it.
  The methods of a reactor work on its own state and on that place, and may throw.
\<close>

record Query =
  qu_id :: QueryID
  qu_reply :: bool

type_synonym 'r reaction = "Query \<Rightarrow> MsgView \<Rightarrow> 'r \<times> nng_msg option \<Rightarrow> unit result \<times> 'r \<times> nng_msg option"

definition query_reply :: "bool \<Rightarrow> nng_msg option \<Rightarrow> 'r \<times> nng_msg option \<Rightarrow> 'r \<times> nng_msg option" where
  "query_reply dest msg s = (if dest then (fst s, msg) else s)"

definition reply_with :: "Query \<Rightarrow> nng_msg option result \<Rightarrow> 'r \<times> nng_msg option \<Rightarrow> unit result \<times> 'r \<times> nng_msg option" where
  "reply_with q written s = (case written of Inl e \<Rightarrow> (Inl e, s) | Inr msg \<Rightarrow> (Inr (), query_reply (qu_reply q) msg s))"

text \<open>The virtual methods of the class.\<close>

record 'r Reactor =
  async_get :: "'r reaction"
  async_head :: "'r reaction"
  async_trace :: "'r reaction"
  async_options :: "'r reaction"
  async_put :: "'r reaction"
  async_delete :: "'r reaction"
  async_patch :: "'r reaction"
  async_post :: "'r reaction"
  async_UNKNOWN :: "'r reaction"

definition allow_reply :: "Status \<Rightarrow> Methods \<Rightarrow> nng_msg option result" where
  "allow_reply status methods =
    fst (ebind (startReply status (reasonPhrase status)) (\<lambda>_. ebind (writeHeader_Allow methods) (\<lambda>_. writer_release)) (writer_new Telling))"

definition mv_uri :: "MsgView \<Rightarrow> UriView" where
  "mv_uri v = Some (mv_uriString v)"

text \<open>The methods that the class implements; \<open>allowed\<close> is the only other method without a default.\<close>

definition reactor_NotImplemented :: "(UriView \<Rightarrow> 'r \<Rightarrow> Methods) \<Rightarrow> 'r reaction" where
  "reactor_NotImplemented allowed q req s = reply_with q (allow_reply NotImplemented (allowed (mv_uri req) (fst s))) s"

definition reactor_options :: "(UriView \<Rightarrow> 'r \<Rightarrow> Methods) \<Rightarrow> 'r reaction" where
  "reactor_options allowed q req s = reply_with q (allow_reply OK (allowed (mv_uri req) (fst s))) s"

definition reactor_trace :: "'r reaction" where
  "reactor_trace q req s = reply_with q
    (fst (ebind (startReply OK (reasonPhrase OK)) (\<lambda>_. ebind (writeHeader ''Content-Type'' ''http'') (\<lambda>_. writer_release)) (writer_new Telling))) s"

definition reactor_defaults :: "(UriView \<Rightarrow> 'r \<Rightarrow> Methods) \<Rightarrow> 'r reaction \<Rightarrow> 'r Reactor" where
  "reactor_defaults allowed get =
    \<lparr>async_get = get, async_head = reactor_NotImplemented allowed, async_trace = reactor_trace,
     async_options = reactor_options allowed, async_put = reactor_NotImplemented allowed,
     async_delete = reactor_NotImplemented allowed, async_patch = reactor_NotImplemented allowed,
     async_post = reactor_NotImplemented allowed, async_UNKNOWN = reactor_NotImplemented allowed\<rparr>"

section \<open>Handling\<close>

text \<open>A request without a method of its own in the table is let pass without a reply.\<close>

definition reactor_dispatch :: "'r Reactor \<Rightarrow> 'r reaction" where
  "reactor_dispatch R q req =
    (case mv_method req of
      GET \<Rightarrow> async_get R q req
    | HEAD \<Rightarrow> async_head R q req
    | OPTIONS \<Rightarrow> async_options R q req
    | TRACE \<Rightarrow> async_trace R q req
    | PUT \<Rightarrow> async_put R q req
    | DELETE \<Rightarrow> async_delete R q req
    | PATCH \<Rightarrow> async_patch R q req
    | POST \<Rightarrow> async_post R q req
    | MethodUnknown \<Rightarrow> async_UNKNOWN R q req
    | _ \<Rightarrow> (\<lambda>s. (Inr (), s)))"

definition reactor_try :: "string \<Rightarrow> 'r Reactor \<Rightarrow> Query \<Rightarrow> nng_msg \<Rightarrow> 'r \<times> nng_msg option \<Rightarrow> unit result \<times> 'r \<times> nng_msg option" where
  "reactor_try uri_prefix R q m s =
    (case msgview_request parse_reset (Some m) of
      Inl e \<Rightarrow> (Inl e, s)
    | Inr req \<Rightarrow>
        if \<not> hasPrefix (mv_uri req) uri_prefix then (Inl (StatusExn BadGateway uri_prefix), s)
        else reactor_dispatch R q req s)"

definition internal_error :: "string \<Rightarrow> nng_msg option result" where
  "internal_error body =
    fst (ebind (startReply InternalServerError (reasonPhrase InternalServerError)) (\<lambda>_.
      ebind (writeHeader ''Content-Type'' ''text/plain'') (\<lambda>_. ebind (writeBody body) (\<lambda>_. writer_release))) (writer_new Telling))"

text \<open>
  \<open>_handle\<close>: the exceptions of the library, whose texts for its errors are \<open>what\<close>, and those of the
  standard library are replied to as internal errors.
\<close>

definition exception_reply :: "(nng_error \<Rightarrow> string) \<Rightarrow> string \<Rightarrow> exn \<Rightarrow> nng_msg option result" where
  "exception_reply what uri_prefix e =
    (case e of
      MsgExn _ _ \<Rightarrow> replyWithError e uri_prefix
    | StatusExn _ _ \<Rightarrow> replyWithError e uri_prefix
    | NngExn c who \<Rightarrow> internal_error (''NNG exception in `'' @ uri_prefix @ ''`:'' @ [CR, LF, TAB] @ what c @ '' -- '' @ who)
    | StdExn text \<Rightarrow> internal_error (''C++ exception in `'' @ uri_prefix @ ''`:'' @ [CR, LF, TAB] @ text)
    | _ \<Rightarrow> Inl e)"

definition catchable :: "exn \<Rightarrow> bool" where
  "catchable e = (case e of Undefined _ \<Rightarrow> False | Terminate \<Rightarrow> False | _ \<Rightarrow> True)"

definition reactor_handle ::
    "(nng_error \<Rightarrow> string) \<Rightarrow> string \<Rightarrow> 'r Reactor \<Rightarrow> Query \<Rightarrow> nng_msg \<Rightarrow> 'r \<times> nng_msg option \<Rightarrow> unit result \<times> 'r \<times> nng_msg option" where
  "reactor_handle what uri_prefix R q m s =
    (case reactor_try uri_prefix R q m s of
      (Inr _, s) \<Rightarrow> (Inr (), s)
    | (Inl e, s) \<Rightarrow>
        if \<not> catchable e then (Inl e, s)
        else if qu_reply q then reply_with q (exception_reply what uri_prefix e) s
        else (Inr (), s))"

text \<open>How a reactor receives what was pushed, and what was requested: the result is the reply to send at once.\<close>

definition reactor_pulled :: "(nng_error \<Rightarrow> string) \<Rightarrow> string \<Rightarrow> 'r Reactor \<Rightarrow> nng_msg \<Rightarrow> 'r \<Rightarrow> unit result \<times> 'r" where
  "reactor_pulled what uri_prefix R m r =
    (case reactor_handle what uri_prefix R \<lparr>qu_id = 0, qu_reply = False\<rparr> m (r, None) of (x, r, _) \<Rightarrow> (x, r))"

definition reactor_requested ::
    "(nng_error \<Rightarrow> string) \<Rightarrow> string \<Rightarrow> 'r Reactor \<Rightarrow> QueryID \<Rightarrow> nng_msg \<Rightarrow> 'r \<Rightarrow> unit result \<times> 'r \<times> nng_msg option" where
  "reactor_requested what uri_prefix R queryID m r = reactor_handle what uri_prefix R \<lparr>qu_id = queryID, qu_reply = True\<rparr> m (r, None)"

text \<open>
  As the handler of a reply communicator. What leaves the handler as an exception cannot be caught by
  the communicator either; \<open>reactor_contains_exceptions\<close> below says when there is none.
\<close>

definition reactor_async :: "(nng_error \<Rightarrow> string) \<Rightarrow> string \<Rightarrow> 'r Reactor \<Rightarrow> ('r, nng_msg) AsyncReply" where
  "reactor_async what uri_prefix R =
    \<lparr>ay_recv = (\<lambda>q m r. case reactor_requested what uri_prefix R q m r of (_, r, reply) \<Rightarrow> (reply, r)),
     ay_prep = (\<lambda>q m r. (Inr m, r)), ay_sent = (\<lambda>q r. r), ay_error = (\<lambda>q e r. r)\<rparr>"

section \<open>Replies\<close>

text \<open>The reason phrase of every status is fit for a reply.\<close>

definition reason_fits :: "string \<Rightarrow> bool" where
  "reason_fits r \<longleftrightarrow> \<not> ContainsNewline r \<and> length r \<le> MAX_REASON_LENGTH \<and> \<not> protocol_valid (protocol_Parse (takeWhile (\<lambda>c. c \<noteq> SP) r))"

lemma reason_fits_if: "reason_fits a \<Longrightarrow> reason_fits b \<Longrightarrow> reason_fits (if c then a else b)"
  by simp

lemma http_reason_fits: "reason_fits (http_reasonPhrase s)"
  unfolding http_reasonPhrase_def
  by (intro reason_fits_if; simp add: reason_fits_def ContainsNewline_def protocol_Parse_def protocol_valid_def)

lemma reason_fits_status: "reason_fits (reasonPhrase s)"
  using http_reason_fits [of s]
  by (simp add: reasonPhrase_def Let_def) (simp add: reason_fits_def ContainsNewline_def protocol_Parse_def protocol_valid_def)

definition fields_length :: "(string \<times> string) list \<Rightarrow> nat" where
  "fields_length fs = sum_list (map (\<lambda>f. length (fst f) + length (snd f) + 2) fs)"

lemma reply_head_length:
  assumes "0 < s" "s \<le> 999" "fields_length fs \<le> 60000"
  shows "length (msg_head (reply_line Telling s (reasonPhrase s)) (preferred_newline Telling) fs) \<le> 65535"
proof -
  have "length (join_lines [LF] (map field_line fs)) = fields_length fs"
    by (induction fs) (simp_all add: fields_length_def field_line_def)
  moreover have "length (reasonPhrase s) \<le> 128" using reason_fits_status [of s] by (simp add: reason_fits_def)
  ultimately show ?thesis using assms by (simp add: msg_head_def preferred_newline_def)
qed

lemma status_reply:
  assumes "0 < s" "s \<le> 999" "list_all field_ok fs" "fields_length fs \<le> 60000" "length body < 2 ^ 63"
  obtains m v where "fst (compose_msg (startReply s (reasonPhrase s)) fs body (writer_new Telling)) = Inr (Some m)"
    "msgview_reply L0 (Some m) = Inr v" "mv_status v = s" "mv_headers v = map field_view fs" "mv_bodyString v = body"
proof -
  have "protocol_valid Telling" by (simp add: protocol_valid_def)
  moreover note head = reply_head_length [OF assms(1,2,4)]
  moreover have "length (msg_head (reply_line Telling s (reasonPhrase s)) (preferred_newline Telling) fs @ body) < 2 ^ 64" using head assms(5) by simp
  ultimately show ?thesis
    using that written_reply [of Telling s "reasonPhrase s" fs body REPLY L0] assms(1-3) reason_fits_status [of s, unfolded reason_fits_def]
    by (fastforce simp: msgview_reply_def)
qed

text \<open>A message without a body is released like one with an empty body.\<close>

lemma autoCloseHeaders_closed: "autoCloseHeaders w = (Inr (), w') \<Longrightarrow> p_body (w_layout w') \<noteq> 0"
proof (cases "p_body (w_layout w) = 0")
  case True
  assume a: "autoCloseHeaders w = (Inr (), w')"
  with True obtain s L where "parse_msg s UNKNOWN (w_layout w) = (Inr (), L)" and L: "w_layout w' = L"
    by (auto simp: malformed_def autoCloseHeaders_def ebind_def newline_def append_body_def split: option.splits sum.splits prod.splits)
  from parse_msg_layout_ok [OF this(1)] show ?thesis by (auto simp: layout_ok_def L)
qed (simp add: autoCloseHeaders_def)

lemma w_msg_update_same: "w_msg w = m \<Longrightarrow> w\<lparr>w_msg := m\<rparr> = w"
  by auto

lemma release_empty_body:
  assumes "fst (ebind (writeBody []) (\<lambda>_. writer_release) w) = Inr x"
  shows "fst (writer_release w) = Inr x"
proof -
  obtain w1 where w1: "autoCloseHeaders w = (Inr (), w1)" "fst (writer_release w1) = Inr x"
    using assms by (cases "autoCloseHeaders w")
      (auto simp: ebind_def writeBody_def append_body_def w_msg_update_same split: sum.splits option.splits)
  with autoCloseHeaders_closed [OF w1(1)] show ?thesis by (simp add: writer_release_def ebind_def autoCloseHeaders_def [of w1])
qed

lemma allow_fold:
  assumes "no_newline a"
  shows "no_newline (snd (fold (allow_step ms) xs (b, a))) \<and> length (snd (fold (allow_step ms) xs (b, a))) \<le> length a + 30 * length xs"
  using assms
proof (induction xs arbitrary: a b)
  case (Cons m xs)
  obtain b' a' where s: "allow_step ms m (b, a) = (b', a')" by fastforce
  have "no_newline (method_toString m) \<and> length (method_toString m) \<le> 28" by (cases m) (simp_all add: method_toString_def)
  with s Cons.prems have "no_newline a'" "length a' \<le> length a + 30" by (auto simp: allow_step_def split: if_splits)
  with Cons.IH [of a' b'] s show ?case by simp
qed simp

lemma allow_field: "field_ok (''Allow'', allow_value ms)" "fields_length [(''Allow'', allow_value ms)] \<le> 60000"
  using allow_fold [of "[]" ms valid_methods True]
  by (simp_all add: allow_value_def field_ok_def fields_length_def valid_methods_def)

section \<open>What a query is answered with\<close>

definition answers :: "nng_msg option \<Rightarrow> Status \<Rightarrow> (string \<times> string) list \<Rightarrow> bool" where
  "answers reply st fs \<longleftrightarrow> (\<exists>m v. reply = Some m \<and> msgview_reply parse_reset (Some m) = Inr v \<and> mv_status v = st \<and>
    mv_headers v = map field_view fs)"

lemma compose_answers:
  assumes "0 < s" "s \<le> 999" "list_all field_ok fs" "fields_length fs \<le> 60000" "length body < 2 ^ 63"
  obtains reply where "fst (compose_msg (startReply s (reasonPhrase s)) fs body (writer_new Telling)) = Inr reply" "answers reply s fs"
  using status_reply [OF assms, of parse_reset] that unfolding answers_def by metis

lemma compose_one: "compose_msg start [f] body = ebind start (\<lambda>_. ebind (writeHeader (fst f) (snd f)) (\<lambda>_. ebind (writeBody body) (\<lambda>_. writer_release)))"
  by (simp add: compose_msg_def fun_eq_iff ebind_def split: prod.split sum.split)

lemma ebind_InrE:
  assumes "fst (ebind f g w) = Inr x"
  obtains a w' where "f w = (Inr a, w')" "fst (g a w') = Inr x"
  using assms that by (cases "f w"; cases "fst (f w)") (simp_all add: ebind_def)

lemma ebind_Inr: "f w = (Inr a, w') \<Longrightarrow> ebind f g w = g a w'"
  by (simp add: ebind_def)

lemma compose_no_body:
  assumes "fst (compose_msg start [f] [] w) = Inr x"
  shows "fst (ebind start (\<lambda>_. ebind (writeHeader (fst f) (snd f)) (\<lambda>_. writer_release)) w) = Inr x"
  using assms unfolding compose_one
  by (elim ebind_InrE [of start] ebind_InrE [of "writeHeader (fst f) (snd f)"]) (simp only: ebind_Inr release_empty_body)

lemma allow_reply_answers:
  assumes "0 < s" "s \<le> 999"
  obtains reply where "allow_reply s ms = Inr reply" "answers reply s [(''Allow'', allow_value ms)]"
proof -
  obtain reply where "fst (compose_msg (startReply s (reasonPhrase s)) [(''Allow'', allow_value ms)] [] (writer_new Telling)) = Inr reply"
    "answers reply s [(''Allow'', allow_value ms)]"
    by (rule compose_answers [of s "[(''Allow'', allow_value ms)]" "[]"]) (use assms allow_field [of ms] in simp_all)
  with compose_no_body [of _ "(''Allow'', allow_value ms)"] that show ?thesis by (simp add: allow_reply_def writeHeader_Allow_def)
qed

lemma trace_answers:
  obtains reply where "reply_with q (fst (ebind (startReply OK (reasonPhrase OK)) (\<lambda>_. ebind (writeHeader ''Content-Type'' ''http'') (\<lambda>_. writer_release)) (writer_new Telling))) s =
    (Inr (), query_reply (qu_reply q) reply s)" "answers reply OK [(''Content-Type'', ''http'')]"
proof -
  obtain reply where "fst (compose_msg (startReply OK (reasonPhrase OK)) [(''Content-Type'', ''http'')] [] (writer_new Telling)) = Inr reply"
    "answers reply OK [(''Content-Type'', ''http'')]"
    by (rule compose_answers [of OK "[(''Content-Type'', ''http'')]" "[]"]) (simp_all add: field_ok_def fields_length_def)
  with compose_no_body [of _ "(''Content-Type'', ''http'')"] that show ?thesis by (simp add: reply_with_def)
qed

text \<open>Exceptions.\<close>

definition error_status :: "exn \<Rightarrow> Status" where
  "error_status e = (case e of MsgExn c _ \<Rightarrow> msg_replyStatus c | StatusExn s _ \<Rightarrow> s | _ \<Rightarrow> InternalServerError)"

definition exn_length :: "(nng_error \<Rightarrow> string) \<Rightarrow> exn \<Rightarrow> nat" where
  "exn_length what e = (case e of MsgExn _ t \<Rightarrow> length t | StatusExn _ t \<Rightarrow> length t | NngExn c who \<Rightarrow> length (what c) + length who | StdExn t \<Rightarrow> length t | _ \<Rightarrow> 0)"

definition error_text :: "(nng_error \<Rightarrow> string) \<Rightarrow> string \<Rightarrow> exn \<Rightarrow> string" where
  "error_text what uri_prefix e = (case e of
      MsgExn m excerpt \<Rightarrow>
        (if uri_prefix \<noteq> [] then '' in `'' @ uri_prefix @ ''`:'' @ [CR, LF, TAB] else []) @ msg_what m @
        (if excerpt \<noteq> [] then [CR, LF] @ ''At location:'' @ [CR, LF, TAB] @ ''`'' @ excerpt @ ''`'' else []) @ [CR, LF]
    | StatusExn s t \<Rightarrow> (if uri_prefix \<noteq> [] then uri_prefix @ '': '' else []) @ t
    | NngExn c who \<Rightarrow> ''NNG exception in `'' @ uri_prefix @ ''`:'' @ [CR, LF, TAB] @ what c @ '' -- '' @ who
    | StdExn t \<Rightarrow> ''C++ exception in `'' @ uri_prefix @ ''`:'' @ [CR, LF, TAB] @ t
    | _ \<Rightarrow> [])"

lemma error_text_length: "length (error_text what uri_prefix e) \<le> exn_length what e + length uri_prefix + 100"
proof (cases e)
  case (MsgExn c t)
  have "length (msg_what c) \<le> 60" by (cases c) (simp_all add: msg_what_def)
  with MsgExn show ?thesis by (simp add: error_text_def exn_length_def)
qed (simp_all add: error_text_def exn_length_def)

lemma write_reply: "ebind (\<lambda>_. WriteReply s None) f w = ebind (startReply s (reasonPhrase s)) f (writer_new Telling)"
  by (simp add: ebind_def WriteReply_def)

lemma exception_reply_compose:
  assumes "catchable e"
  shows "exception_reply what uri_prefix e = fst (compose_msg (startReply (error_status e) (reasonPhrase (error_status e)))
    [(''Content-Type'', ''text/plain'')] (error_text what uri_prefix e) (writer_new Telling))"
  using assms unfolding compose_one exception_reply_def replyWithError_def internal_error_def
  by (cases e) (simp_all only: catchable_def exn.case fst_conv snd_conv write_reply Let_def error_text_def error_status_def
      exn_replyStatus_def option.case)

lemma exception_answers:
  assumes "catchable e" "0 < error_status e" "error_status e \<le> 999" "exn_length what e + length uri_prefix < 2 ^ 62"
  obtains reply where "exception_reply what uri_prefix e = Inr reply" "answers reply (error_status e) [(''Content-Type'', ''text/plain'')]"
proof -
  have "length (error_text what uri_prefix e) < 2 ^ 63" using error_text_length [of what uri_prefix e] assms(4) by simp
  from compose_answers [OF assms(2,3) _ _ this, of "[(''Content-Type'', ''text/plain'')]"] that show ?thesis
    unfolding exception_reply_compose [OF assms(1)] by (auto simp: field_ok_def fields_length_def)
qed

text \<open>What a reactor that implements only GET answers, by the status and the header fields; \<open>None\<close> is no answer.\<close>

definition default_answer :: "(UriView \<Rightarrow> 'r \<Rightarrow> Methods) \<Rightarrow> string \<Rightarrow> nng_msg \<Rightarrow> 'r \<Rightarrow> (Status \<times> (string \<times> string) list) option" where
  "default_answer allowed uri_prefix m r =
    (case msgview_request parse_reset (Some m) of
      Inl e \<Rightarrow> Some (error_status e, [(''Content-Type'', ''text/plain'')])
    | Inr v \<Rightarrow>
        if \<not> prefix uri_prefix (mv_uriString v) then Some (BadGateway, [(''Content-Type'', ''text/plain'')])
        else if mv_method v \<in> {HEAD, PUT, DELETE, PATCH, POST, MethodUnknown}
        then Some (NotImplemented, [(''Allow'', allow_value (allowed (mv_uri v) r))])
        else if mv_method v = OPTIONS then Some (OK, [(''Allow'', allow_value (allowed (mv_uri v) r))])
        else if mv_method v = TRACE then Some (OK, [(''Content-Type'', ''http'')])
        else None)"

lemma reactor_default_answers:
  assumes "length (m_body m) + length uri_prefix < 2 ^ 61"
    and "\<forall>v. msgview_request parse_reset (Some m) = Inr v \<and> prefix uri_prefix (mv_uriString v) \<longrightarrow> mv_method v \<noteq> GET"
  shows "\<exists>reply. reactor_requested what uri_prefix (reactor_defaults allowed get) q m r = (Inr (), r, reply) \<and>
    (case default_answer allowed uri_prefix m r of None \<Rightarrow> reply = None | Some (st, fs) \<Rightarrow> answers reply st fs)"
proof -
  let ?R = "reactor_defaults allowed get" and ?q = "\<lparr>qu_id = q, qu_reply = True\<rparr>"
  have caught: "\<exists>reply. reactor_requested what uri_prefix ?R q m r = (Inr (), r, reply) \<and> answers reply (error_status e) [(''Content-Type'', ''text/plain'')]"
    if "reactor_try uri_prefix ?R ?q m (r, None) = (Inl e, r, None)" "catchable e" "error_status e \<in> {1..999}"
      "exn_length what e + length uri_prefix < 2 ^ 62" for e
    by (rule exception_answers [OF that(2) _ _ that(4)])
      (use that in \<open>simp_all add: reactor_requested_def reactor_handle_def reply_with_def query_reply_def\<close>)
  have allow: "\<exists>reply. reply_with ?q (allow_reply st ms) (r, None) = (Inr (), r, reply) \<and> answers reply st [(''Allow'', allow_value ms)]"
    if "st \<in> {1..999}" for st ms
    by (rule allow_reply_answers [of st ms]) (use that in \<open>simp_all add: reply_with_def query_reply_def\<close>)
  show ?thesis
  proof (cases "msgview_request parse_reset (Some m)")
    case (Inl e)
    then obtain c t where e: "e = MsgExn c t" "length t \<le> length (m_body m) + 60"
      using parse_msg_error [of "m_body m" REQUEST parse_reset e] by (auto simp: msgview_request_def msgview_make_def split: prod.splits sum.splits)
    have "error_status e \<in> {1..999}" by (cases c) (simp_all add: e error_status_def msg_replyStatus_def)
    with caught [of e] Inl e assms(1) show ?thesis
      by (simp add: reactor_try_def default_answer_def catchable_def exn_length_def)
  next
    case (Inr v)
    show ?thesis
    proof (cases "prefix uri_prefix (mv_uriString v)")
      case False
      with caught [of "StatusExn BadGateway uri_prefix"] Inr assms(1) show ?thesis
        by (simp add: reactor_try_def default_answer_def catchable_def exn_length_def error_status_def hasPrefix_iff mv_uri_def uri_text_def)
    next
      case True
      have run: "\<exists>reply. reactor_requested what uri_prefix ?R q m r = (Inr (), r, reply) \<and> P reply"
        if "\<exists>reply. reactor_dispatch ?R ?q v (r, None) = (Inr (), r, reply) \<and> P reply" for P
        using that True Inr
        by (auto simp: reactor_requested_def reactor_handle_def reactor_try_def hasPrefix_iff mv_uri_def uri_text_def)
      obtain reply where trace: "reactor_trace ?q v (r, None) = (Inr (), r, reply)" "answers reply OK [(''Content-Type'', ''http'')]"
        by (rule trace_answers [of ?q "(r, None)"]) (simp add: reactor_trace_def query_reply_def)
      have "mv_method v \<noteq> GET" using assms(2) Inr True by simp
      then show ?thesis
        using Inr True allow [of NotImplemented "allowed (mv_uri v) r"] allow [of OK "allowed (mv_uri v) r"] trace
        by (intro run, cases "mv_method v") (auto simp: reactor_dispatch_def reactor_defaults_def default_answer_def
            reactor_NotImplemented_def reactor_options_def)
    qed
  qed
qed

section \<open>Answering at once\<close>

text \<open>A handler that puts a reply into the prompt of a request: the reply is queued behind the earlier ones.\<close>

lemma immediate_answer:
  assumes "communicator_isReady s" "rp_handler s = Some h" "rp_ctx_recv s = Some q" "reply_inv s"
    and "ay_recv H q m h = (Some x, h1)" "ay_prep H q (Some x) h1 = (Inr (Some y), h2)"
  shows "\<exists>s'. reply_aioReceived H (Inr c) (Inr m) s = (Inr (), s') \<and> sending s' = sending s @ [(q, y)] \<and>
    rp_handler s' = Some h2 \<and> rp_unresponded s' = rp_unresponded s \<and> rp_ctx_recv s' = Some c"
proof -
  let ?s = "s\<lparr>rp_aio_recv := AioIdle, rp_unresponded := insert q (rp_unresponded s), rp_ctx_recv := None, rp_handler := Some h1\<rparr>"
  let ?s1 = "?s\<lparr>rp_handler := Some h2, rp_unresponded := rp_unresponded ?s - {q},
    rp_outbox := snd (snd (sq_produce (q, y) (rp_outbox ?s))),
    rp_aio_send := (if sq_busy (rp_outbox ?s) then rp_aio_send ?s else AioSending (q, y))\<rparr>"
  have r: "respondTo H q (Some x) ?s = (Inr (), ?s1)"
    using assms(1,6) by (intro respondTo_accepts) (simp_all add: communicator_isReady_def)
  have "q \<notin> rp_unresponded s" and idle: "\<not> sq_busy (rp_outbox s) \<longrightarrow> sending s = []" using assms(3,4) by (simp_all add: reply_inv_def)
  moreover have "reply_aioReceived H (Inr c) (Inr m) s = (Inr (), ?s1\<lparr>rp_ctx_recv := Some c, rp_aio_recv := AioReceiving\<rparr>)"
    using assms(2,3,5) r by (simp add: reply_aioReceived_def receive_next_def)
  ultimately show ?thesis by (simp add: sending_def sq_produce_def)
qed

section \<open>Properties\<close>

text \<open>
  C31. Exceptions stay inside the reactor and reach the client: whatever exception of the standard
  library, the messaging library or this library ends the method that handles a request, the handler
  returns normally, with the state that the method left, and the query is answered with the status
  of the exception, or as an internal error when it has none. For a message that was pushed the
  exception has no effect.
\<close>

theorem reactor_contains_exceptions:
  assumes "reactor_try uri_prefix R q m s = (Inl e, s')" "catchable e"
    and "0 < error_status e" "error_status e \<le> 999" "exn_length what e + length uri_prefix < 2 ^ 62"
  shows "if qu_reply q
    then \<exists>reply. reactor_handle what uri_prefix R q m s = (Inr (), fst s', reply) \<and>
      answers reply (error_status e) [(''Content-Type'', ''text/plain'')]
    else reactor_handle what uri_prefix R q m s = (Inr (), s')"
proof (cases "qu_reply q")
  case True
  obtain reply where "exception_reply what uri_prefix e = Inr reply" "answers reply (error_status e) [(''Content-Type'', ''text/plain'')]"
    by (rule exception_answers [OF assms(2-5)])
  with assms(1,2) True show ?thesis by (simp add: reactor_handle_def reply_with_def query_reply_def)
qed (use assms(1,2) in \<open>simp add: reactor_handle_def\<close>)

text \<open>
  C32. A service whose reactor implements only GET answers every other request at once, and leaves the
  reactor's own state as it was: a message that does not parse with the status of the parse error, a
  request for another path as a bad gateway, a method that is not implemented as such, with the
  allowed methods, OPTIONS with the allowed methods and TRACE with success. The answer is queued
  behind the earlier ones, for the query that was received. Only a CONNECT request stays unanswered.
\<close>

theorem reactor_service_answers:
  assumes "H = reactor_async what uri_prefix (reactor_defaults allowed get)"
    and "(reply_step H)\<^sup>*\<^sup>* (reply_make c0) s" "communicator_isReady s" "rp_handler s = Some r" "rp_ctx_recv s = Some q"
    and "length (m_body m) + length uri_prefix < 2 ^ 61"
    and "\<forall>v. msgview_request parse_reset (Some m) = Inr v \<and> prefix uri_prefix (mv_uriString v) \<longrightarrow> mv_method v \<noteq> GET"
    and "default_answer allowed uri_prefix m r = Some (st, fs)"
  shows "\<exists>s' reply. reply_aioReceived H (Inr c) (Inr m) s = (Inr (), s') \<and> rp_handler s' = Some r \<and>
    sending s' = sending s @ [(q, reply)] \<and> answers (Some reply) st fs"
proof -
  obtain x where x: "reactor_requested what uri_prefix (reactor_defaults allowed get) q m r = (Inr (), r, x)" "answers x st fs"
    using reactor_default_answers [OF assms(6,7), of what allowed get q r] assms(8) by auto
  then obtain reply where "x = Some reply" by (auto simp: answers_def)
  with x immediate_answer [OF assms(3-5) reply_inv_reach [OF assms(2)], of H m reply r reply r c] show ?thesis
    by (auto simp: assms(1) reactor_async_def)
qed

section \<open>Instances\<close>

text \<open>A reactor at \<open>/a\<close> whose GET declines, with a request for each of the two properties.\<close>

definition example_reactor :: "unit Reactor" where
  "example_reactor = reactor_defaults (\<lambda>_ _. methods_insert GET methods_empty) (\<lambda>q req s. (Inl (StatusExn NotFound ''nothing''), s))"

lemma example_request:
  assumes "method_valid me"
  obtains m v where "msgview_request parse_reset (Some m) = Inr v" "mv_uriString v = ''/a''" "mv_method v = me" "length (m_body m) < 1000"
proof -
  have head: "length (msg_head (request_line me ''/a'' Telling) (preferred_newline Telling) []) < 1000"
    using assms by (cases me) (simp_all add: method_toString_def msg_head_def preferred_newline_def method_valid_def)
  have "protocol_valid Telling" "\<not> ContainsWhitespace ''/a''" by (simp_all add: protocol_valid_def ContainsWhitespace_def)
  with written_request [of Telling me "''/a''" "[]" "[]" REQUEST parse_reset] assms head that show ?thesis
    by (auto simp: msgview_request_def)
qed

theorem reactor_contains_exceptions_witness:
  "\<exists>m reply. reactor_handle (\<lambda>_. []) ''/a'' example_reactor \<lparr>qu_id = 1, qu_reply = True\<rparr> m ((), None) = (Inr (), (), reply) \<and>
    answers reply NotFound [(''Content-Type'', ''text/plain'')]"
proof -
  have "method_valid GET" by (simp add: method_valid_def)
  then obtain m v where m: "msgview_request parse_reset (Some m) = Inr v" "mv_uriString v = ''/a''" "mv_method v = GET" by (rule example_request)
  have "reactor_try ''/a'' example_reactor \<lparr>qu_id = 1, qu_reply = True\<rparr> m ((), None) = (Inl (StatusExn NotFound ''nothing''), (), None)"
    using m by (simp add: reactor_try_def reactor_dispatch_def example_reactor_def reactor_defaults_def hasPrefix_iff mv_uri_def uri_text_def)
  from reactor_contains_exceptions [OF this, of "\<lambda>_. []"] show ?thesis by (auto simp: catchable_def error_status_def exn_length_def)
qed

theorem reactor_service_answers_witness:
  "\<exists>(s :: (unit, unit, nng_msg) Reply) m s' reply. reply_aioReceived (reactor_async (\<lambda>_. []) ''/a'' example_reactor) (Inr 2) (Inr m) s = (Inr (), s') \<and>
    sending s' = [(1, reply)] \<and> answers (Some reply) OK [(''Allow'', ''GET'')]"
proof -
  let ?al = "(\<lambda>_ _. methods_insert GET methods_empty) :: UriView \<Rightarrow> unit \<Rightarrow> Methods"
  let ?H = "reactor_async (\<lambda>_. []) ''/a'' example_reactor"
  let ?c = "example_communicator SERVICE REQ_REP"
  have "method_valid OPTIONS" by (simp add: method_valid_def)
  then obtain m v where m: "msgview_request parse_reset (Some m) = Inr v" "mv_uriString v = ''/a''" "mv_method v = OPTIONS" "length (m_body m) < 1000"
    by (rule example_request)
  let ?s = "snd (reply_initialize (Inr 1) (Some ()) (reply_make ?c))"
  have s: "(reply_step ?H)\<^sup>*\<^sup>* (reply_make ?c) ?s"
    by (intro r_into_rtranclp reply_step.init) (simp add: fresh_ctx_def reply_contexts_def reply_make_def sending_def sq_new_def)
  have v: "communicator_isReady ?s" "rp_handler ?s = Some ()" "rp_ctx_recv ?s = Some 1" "sending ?s = []"
    using example_communicator_socket [of SERVICE REQ_REP]
    by (auto simp: reply_initialize_def reply_make_def communicator_isReady_def sending_def sq_new_def)
  have "default_answer ?al ''/a'' m () = Some (OK, [(''Allow'', ''GET'')])"
    using m(1-3) by (simp add: default_answer_def) code_simp
  then obtain s' reply where "reply_aioReceived ?H (Inr 2) (Inr m) ?s = (Inr (), s')" "sending s' = sending ?s @ [(1, reply)]"
      "answers (Some reply) OK [(''Allow'', ''GET'')]"
    using reactor_service_answers [OF example_reactor_def [THEN arg_cong [where f = "reactor_async (\<lambda>_. []) ''/a''"]] s v(1-3), of m OK _ 2] m by auto
  with v(4) show ?thesis by (intro exI [of _ ?s] exI [of _ m] exI [of _ s'] exI [of _ reply]) simp
qed

end
