(* ===== verification/Http_Client.thy ===== *)
theory Http_Client
  imports Msg_Writer Client_Request
begin

text \<open>
  The HTTP client: \<open>include/telling/http_client.h\<close> and \<open>src/telling/http_client.cpp\<close>. Every request has an
  action, which connects, writes the request, and reads the response in pieces until it is complete.
  The results of the operations of the library are arguments.
\<close>

section \<open>Actions\<close>

datatype HTTP_STATE = H_IDLE | H_CONNECT | H_SEND | H_RECV

text \<open>
  An action, with its address. A connection is a number. The response is the bytes received so far, the array being
  as long as that when it is parsed; \<open>None\<close> is an empty message object.
\<close>

record Http_Action =
  ha_addr :: nat
  ha_queryID :: QueryID
  ha_state :: HTTP_STATE
  ha_req :: "nng_msg option"
  ha_res :: "nng_msg option"
  ha_conn :: "nat option"
  ha_completion :: MsgCompletion

definition no_completion :: MsgCompletion where
  "no_completion = \<lparr>mc_complete = False, mc_is_chunked = False, mc_length_header = False, mc_message_length = 0\<rparr>"

text \<open>\<open>HttpClient::Handler\<close>: besides the methods of a query, connections and the progress of a response.\<close>

record 'h HttpHandler = "('h, nng_msg) AsyncRequest" +
  hh_open :: "nat \<Rightarrow> 'h \<Rightarrow> 'h"
  hh_close :: "nat \<Rightarrow> 'h \<Rightarrow> 'h"
  hh_progress :: "QueryID \<Rightarrow> MsgCompletion \<Rightarrow> MsgView \<Rightarrow> 'h \<Rightarrow> 'h"

record 'h HttpClient =
  hc_handler :: "'h option"
  hc_nextQueryID :: QueryID
  hc_active :: "Http_Action list"
  hc_idle :: "Http_Action list"

definition http_initialize :: "'h option \<Rightarrow> 'h HttpClient \<Rightarrow> unit result \<times> 'h HttpClient" where
  "http_initialize handler s =
    (if hc_handler s \<noteq> None then (Inl (NngExn nng_busy ''HttpClient::initialize (already initialized)''), s)
     else (Inr (), if handler \<noteq> None then s\<lparr>hc_handler := handler\<rparr> else s))"

definition http_make :: "'h option \<Rightarrow> 'h HttpClient" where
  "http_make handler = snd (http_initialize handler \<lparr>hc_handler = None, hc_nextQueryID = 0, hc_active = [], hc_idle = []\<rparr>)"

definition http_count_stats :: "Http_Action \<Rightarrow> MsgStats \<Rightarrow> MsgStats" where
  "http_count_stats a n = (case ha_state a of
      H_SEND \<Rightarrow> n\<lparr>awaiting_send := awaiting_send n + 1\<rparr>
    | H_RECV \<Rightarrow> n\<lparr>awaiting_recv := awaiting_recv n + 1\<rparr>
    | _ \<Rightarrow> n)"

definition http_msgStats :: "'h HttpClient \<Rightarrow> MsgStats" where
  "http_msgStats s = fold http_count_stats (hc_active s) \<lparr>awaiting_send = 0, awaiting_recv = 0\<rparr>"

section \<open>Requests\<close>

text \<open>
  The numbers of queries are given out in order and wrap around. \<open>made\<close> is the outcome of allocating an
  action and its operation: an error, or the address of the action.
\<close>

definition http_allocate :: "nng_error + nat \<Rightarrow> Http_Action list \<Rightarrow> (Http_Action \<times> Http_Action list) result" where
  "http_allocate made idle = (case idle of
      [] \<Rightarrow> (case made of
          Inl e \<Rightarrow> Inl (NngExn e ''HttpClient::request'')
        | Inr addr \<Rightarrow> Inr (\<lparr>ha_addr = addr, ha_queryID = 0, ha_state = H_IDLE, ha_req = None, ha_res = None, ha_conn = None,
            ha_completion = no_completion\<rparr>, []))
    | a # rest \<Rightarrow> Inr (a, rest))"

definition http_request :: "('h, 'z) HttpHandler_scheme \<Rightarrow> nng_error + nat \<Rightarrow> nng_msg \<Rightarrow> 'h HttpClient \<Rightarrow> QueryID result \<times> 'h HttpClient" where
  "http_request H made req s =
    (case hc_handler s of
      None \<Rightarrow> (Inl (NngExn nng_exist ''Request communicator has no message handler''), s)
    | Some h \<Rightarrow>
        (case http_allocate made (hc_idle s) of
          Inl e \<Rightarrow> (Inl e, s)
        | Inr (a, idle) \<Rightarrow>
            let q = hc_nextQueryID s; a = a\<lparr>ha_queryID := q\<rparr>; s = s\<lparr>hc_nextQueryID := q + 1\<rparr> in
            (case aq_prep H q req h of
              (Inl e, h) \<Rightarrow> (Inl e, s\<lparr>hc_handler := Some h, hc_idle := idle\<rparr>)
            | (Inr None, h) \<Rightarrow>
                (Inl (NngExn nng_canceled ''AsyncQuery declined the message.''), s\<lparr>hc_handler := Some h, hc_idle := a # idle\<rparr>)
            | (Inr (Some m), h) \<Rightarrow>
                (Inr q, s\<lparr>hc_handler := Some h, hc_idle := idle,
                  hc_active := a\<lparr>ha_state := H_CONNECT, ha_req := Some m\<rparr> # hc_active s\<rparr>))))"

section \<open>The callback\<close>

text \<open>
  The callback of an action, with the result of its operation: an error, or the connection made and the
  bytes read, of which only the one that fits the operation counts. First the result is taken in; the
  outcome says whether to disconnect. An error that means the end of the connection is passed over
  when the response has no explicit length so far.
\<close>

definition http_parse :: "Http_Action \<Rightarrow> MsgView option" where
  "http_parse a = (case msgview_reply parse_reset (ha_res a) of Inl e \<Rightarrow> None | Inr v \<Rightarrow> Some v)"

definition connection_ended :: "nng_error \<Rightarrow> bool" where
  "connection_ended e \<longleftrightarrow> e \<in> {nng_connaborted, nng_connreset, nng_connshut, nng_closed}"

definition http_take ::
    "('h, 'z) HttpHandler_scheme \<Rightarrow> nng_error + nat \<times> string \<Rightarrow> Http_Action \<Rightarrow> 'h \<Rightarrow> bool \<times> Http_Action \<times> 'h" where
  "http_take H aioResult a h =
    (case aioResult of
      Inr (conn, bytes) \<Rightarrow>
        (case ha_state a of
          H_CONNECT \<Rightarrow> (False, a\<lparr>ha_conn := Some conn\<rparr>, hh_open H conn h)
        | H_SEND \<Rightarrow> (False, a\<lparr>ha_req := None\<rparr>, aq_sent H (ha_queryID a) h)
        | H_RECV \<Rightarrow>
            let a = a\<lparr>ha_res := map_option (\<lambda>m. m\<lparr>m_body := m_body m @ bytes\<rparr>) (ha_res a)\<rparr> in
            (case http_parse a of
              None \<Rightarrow> (False, a, h)
            | Some v \<Rightarrow> (False, a\<lparr>ha_completion := completion v\<rparr>, hh_progress H (ha_queryID a) (completion v) v h))
        | H_IDLE \<Rightarrow> (True, a, h))
    | Inl e \<Rightarrow>
        if connection_ended e \<and> mc_implicit (ha_completion a) then (False, a, h)
        else (True, a\<lparr>ha_completion := no_completion\<rparr>, aq_error H (ha_queryID a) (async_error_of e) h))"

text \<open>Then a response that is complete, or that ends with the connection, is turned over, and the connection closed.\<close>

definition http_finish :: "('h, 'z) HttpHandler_scheme \<Rightarrow> Http_Action \<Rightarrow> 'h option \<Rightarrow> Http_Action \<times> 'h option" where
  "http_finish H a handler =
    (let deliver = mc_complete (ha_completion a) \<or> mc_implicit (ha_completion a);
         handler = map_option (\<lambda>h. if deliver then aq_recv H (ha_queryID a) (ha_res a) h else h) handler;
         handler = (case ha_conn a of None \<Rightarrow> handler | Some c \<Rightarrow> map_option (hh_close H c) handler)
     in (a\<lparr>ha_conn := None, ha_req := None, ha_res := None\<rparr>, handler))"

text \<open>Last the next operation is started, or the action returns to the pool. An operation on no connection is undefined.\<close>

definition http_set :: "Http_Action \<Rightarrow> Http_Action list \<Rightarrow> Http_Action list" where
  "http_set a as = map (\<lambda>b. if ha_addr b = ha_addr a then a else b) as"

definition http_erase :: "nat \<Rightarrow> Http_Action list \<Rightarrow> Http_Action list" where
  "http_erase addr as = filter (\<lambda>b. ha_addr b \<noteq> addr) as"

definition http_advance :: "Http_Action \<Rightarrow> 'h HttpClient \<Rightarrow> unit result \<times> 'h HttpClient" where
  "http_advance a s =
    (let go = (\<lambda>a. (if ha_conn a = None then Inl (Undefined ''null connection'') else Inr (),
           s\<lparr>hc_active := http_set a (hc_active s)\<rparr>))
     in case ha_state a of
          H_CONNECT \<Rightarrow> go (a\<lparr>ha_state := H_SEND\<rparr>)
        | H_SEND \<Rightarrow> go (a\<lparr>ha_state := H_RECV, ha_completion := no_completion, ha_res := Some \<lparr>m_header = [], m_body = []\<rparr>\<rparr>)
        | H_RECV \<Rightarrow> go a
        | H_IDLE \<Rightarrow> (Inr (), s\<lparr>hc_active := http_erase (ha_addr a) (hc_active s), hc_idle := hc_idle s @ [a]\<rparr>))"

definition http_callback ::
    "('h, 'z) HttpHandler_scheme \<Rightarrow> nng_error + nat \<times> string \<Rightarrow> Http_Action \<Rightarrow> 'h HttpClient \<Rightarrow> unit result \<times> 'h HttpClient" where
  "http_callback H aioResult a s =
    (case (case hc_handler s of
        None \<Rightarrow> (True, a, None)
      | Some h \<Rightarrow> (case http_take H aioResult a h of (d, a, h) \<Rightarrow> (d, a, Some h))) of
      (disconnect, a, handler) \<Rightarrow>
        if disconnect \<or> mc_complete (ha_completion a)
        then (case http_finish H a handler of (a, handler) \<Rightarrow> http_advance (a\<lparr>ha_state := H_IDLE\<rparr>) (s\<lparr>hc_handler := handler\<rparr>))
        else http_advance a (s\<lparr>hc_handler := handler\<rparr>))"

definition http_complete ::
    "('h, 'z) HttpHandler_scheme \<Rightarrow> nat \<Rightarrow> nng_error + nat \<times> string \<Rightarrow> 'h HttpClient \<Rightarrow> unit result \<times> 'h HttpClient" where
  "http_complete H addr aioResult s =
    (case find (\<lambda>a. ha_addr a = addr) (hc_active s) of None \<Rightarrow> (Inr (), s) | Some a \<Rightarrow> http_callback H aioResult a s)"

text \<open>The destructor cancels every active operation, waits until none is active, and deletes the pool.\<close>

definition http_cancelAll :: "('h, 'z) HttpHandler_scheme \<Rightarrow> 'h HttpClient \<Rightarrow> 'h HttpClient" where
  "http_cancelAll H s = fold (\<lambda>addr s. snd (http_complete H addr (Inl nng_canceled) s)) (map ha_addr (hc_active s)) s"

definition http_destroy :: "('h, 'z) HttpHandler_scheme \<Rightarrow> 'h HttpClient \<Rightarrow> 'h HttpClient" where
  "http_destroy H s = (http_cancelAll H s)\<lparr>hc_idle := []\<rparr>"

section \<open>Requests as futures\<close>

text \<open>
  \<open>HttpClient_Box\<close>. Its delegate keeps promises as that of \<open>Request_Box\<close> does, and notes that a
  connection was made once, by whichever request.
\<close>

record Http_Delegate =
  hd_promises :: "nng_msg Delegate"
  hd_connected :: bool

definition http_delegate_new :: Http_Delegate where
  "http_delegate_new = \<lparr>hd_promises = delegate_new, hd_connected = False\<rparr>"

definition http_getFuture :: "QueryID \<Rightarrow> Http_Delegate \<Rightarrow> nat result \<times> Http_Delegate" where
  "http_getFuture qid d = (case getFuture qid (hd_promises d) of (r, p) \<Rightarrow> (r, d\<lparr>hd_promises := p\<rparr>))"

definition http_delegate_prep :: "QueryID \<Rightarrow> nng_msg \<Rightarrow> Http_Delegate \<Rightarrow> (nng_msg option) result \<times> Http_Delegate" where
  "http_delegate_prep q m d = (case delegate_prep q m (hd_promises d) of (r, p) \<Rightarrow> (r, d\<lparr>hd_promises := p\<rparr>))"

definition http_delegate_sent :: "QueryID \<Rightarrow> Http_Delegate \<Rightarrow> Http_Delegate" where
  "http_delegate_sent q d = d\<lparr>hd_promises := delegate_sent q (hd_promises d)\<rparr>"

definition http_delegate_recv :: "QueryID \<Rightarrow> nng_msg option \<Rightarrow> Http_Delegate \<Rightarrow> Http_Delegate" where
  "http_delegate_recv q response d = d\<lparr>hd_promises := delegate_recv q response (hd_promises d)\<rparr>"

definition http_delegate_error :: "QueryID \<Rightarrow> AsyncError \<Rightarrow> Http_Delegate \<Rightarrow> Http_Delegate" where
  "http_delegate_error q status d = d\<lparr>hd_promises := delegate_settle q (\<lambda>p. Inl (NngExn (ae_status status)
    (if hd_connected d then (if pe_sent p then ''HTTP response reception'' else ''HTTP request transmission'')
     else ''HTTP connection establishment''))) (hd_promises d)\<rparr>"

definition Http_Delegate_handler :: "Http_Delegate HttpHandler" where
  "Http_Delegate_handler =
    \<lparr>aq_prep = http_delegate_prep, aq_sent = http_delegate_sent, aq_recv = http_delegate_recv, aq_error = http_delegate_error,
     hh_open = (\<lambda>conn d. d\<lparr>hd_connected := True\<rparr>), hh_close = (\<lambda>conn d. d), hh_progress = (\<lambda>q c v d. d)\<rparr>"

definition http_box_make :: "Http_Delegate HttpClient" where
  "http_box_make = snd (http_initialize (Some http_delegate_new) (http_make None))"

definition http_box_future :: "QueryID \<Rightarrow> Http_Delegate HttpClient \<Rightarrow> nat result \<times> Http_Delegate HttpClient" where
  "http_box_future qid s = (case hc_handler s of
      None \<Rightarrow> (Inl (Undefined ''null pointer''), s)
    | Some d \<Rightarrow> (case http_getFuture qid d of (r, d) \<Rightarrow> (r, s\<lparr>hc_handler := Some d\<rparr>)))"

definition http_box_request :: "nng_error + nat \<Rightarrow> nng_msg \<Rightarrow> Http_Delegate HttpClient \<Rightarrow> nat result \<times> Http_Delegate HttpClient" where
  "http_box_request made req s = (case http_request Http_Delegate_handler made req s of
      (Inl e, s) \<Rightarrow> (Inl e, s)
    | (Inr qid, s) \<Rightarrow> http_box_future qid s)"

text \<open>The box releases its delegate before the client is destroyed: promises still pending are broken.\<close>

definition http_box_destroy :: "Http_Delegate HttpClient \<Rightarrow> (nat \<rightharpoonup> (nng_msg option) result) \<times> Http_Delegate HttpClient" where
  "http_box_destroy s =
    (case hc_handler s of None \<Rightarrow> Map.empty | Some d \<Rightarrow> delegate_destroy (hd_promises d),
     http_destroy Http_Delegate_handler (s\<lparr>hc_handler := None\<rparr>))"

section \<open>Runs\<close>

definition http_addrs :: "'h HttpClient \<Rightarrow> nat list" where
  "http_addrs s = map ha_addr (hc_active s) @ map ha_addr (hc_idle s)"

text \<open>
  What can happen to a client, in any order: a request (an action that is made has an address of its
  own, and the next number is not that of a query under way, which holds as long as there are
  fewer than \<open>2 ^ 32\<close> newer ones), a completion, and the expiry of the handler. A completion with
  undefined behaviour has no successor.
\<close>

inductive http_step :: "('h, 'z) HttpHandler_scheme \<Rightarrow> 'h HttpClient \<Rightarrow> 'h HttpClient \<Rightarrow> bool" for H where
  request: "\<forall>addr. made = Inr addr \<longrightarrow> addr \<notin> set (http_addrs s) \<Longrightarrow> hc_nextQueryID s \<notin> ha_queryID ` set (hc_active s) \<Longrightarrow>
    http_step H s (snd (http_request H made m s))"
| complete: "http_complete H addr r s = (Inr (), s') \<Longrightarrow> http_step H s s'"

inductive http_life :: "('h, 'z) HttpHandler_scheme \<Rightarrow> 'h HttpClient \<Rightarrow> 'h HttpClient \<Rightarrow> bool" for H where
  step: "http_step H s s' \<Longrightarrow> http_life H s s'"
| expire: "http_life H s (s\<lparr>hc_handler := None\<rparr>)"
| install: "http_life H s (snd (http_initialize h s))"

definition http_action_ok :: "Http_Action \<Rightarrow> bool" where
  "http_action_ok a = (case ha_state a of
      H_IDLE \<Rightarrow> False
    | H_CONNECT \<Rightarrow> ha_conn a = None \<and> ha_res a = None
    | H_SEND \<Rightarrow> ha_conn a \<noteq> None \<and> ha_res a = None
    | H_RECV \<Rightarrow> ha_conn a \<noteq> None \<and> ha_res a \<noteq> None)"

definition http_action_rests :: "Http_Action \<Rightarrow> bool" where
  "http_action_rests a \<longleftrightarrow> ha_state a = H_IDLE \<and> ha_conn a = None \<and> ha_req a = None \<and> ha_res a = None"

definition http_inv :: "'h HttpClient \<Rightarrow> bool" where
  "http_inv s \<longleftrightarrow> distinct (http_addrs s) \<and> distinct (map ha_queryID (hc_active s)) \<and>
    list_all http_action_ok (hc_active s) \<and> list_all http_action_rests (hc_idle s)"

section \<open>Lemmas\<close>

lemma find_http: "find (\<lambda>a. ha_addr a = addr) as = Some a \<Longrightarrow> a \<in> set as \<and> ha_addr a = addr"
  by (auto simp: find_Some_iff)

lemma addrs_http_set [simp]: "map ha_addr (http_set a as) = map ha_addr as"
  by (induction as) (simp_all add: http_set_def)

lemma addrs_http_erase [simp]: "map ha_addr (http_erase addr as) = filter (\<lambda>p. p \<noteq> addr) (map ha_addr as)"
  by (induction as) (simp_all add: http_erase_def)

lemma in_http_erase [simp]: "b \<in> set (http_erase addr as) \<longleftrightarrow> b \<in> set as \<and> ha_addr b \<noteq> addr"
  by (auto simp: http_erase_def)

lemma in_http_set: "b \<in> set (http_set a as) \<Longrightarrow> b = a \<or> b \<in> set as \<and> ha_addr b \<noteq> ha_addr a"
  by (auto simp: http_set_def split: if_splits)

lemma queries_http_set:
  assumes "distinct (map ha_addr as)" "a \<in> set as" "ha_addr a' = ha_addr a" "ha_queryID a' = ha_queryID a"
  shows "map ha_queryID (http_set a' as) = map ha_queryID as"
  using assms by (auto simp: http_set_def distinct_map inj_on_def)

text \<open>What a callback does: it ends the query, or it starts the next operation on a connection.\<close>

lemma http_take_keeps:
  assumes "http_take H r a h = (d, a', h')"
  shows "ha_addr a' = ha_addr a" "ha_queryID a' = ha_queryID a" "ha_state a' = ha_state a"
    "ha_conn a' = (if ha_state a = H_CONNECT then (case r of Inl _ \<Rightarrow> ha_conn a | Inr (c, _) \<Rightarrow> Some c) else ha_conn a)"
    "ha_res a' = None \<longleftrightarrow> ha_res a = None"
  using assms
  by (auto simp: http_take_def Let_def split: sum.splits prod.splits HTTP_STATE.splits option.splits if_splits)

lemma http_callback_ends:
  assumes "hc_handler s = None \<or> (\<exists>h. hc_handler s = Some h \<and> (fst (http_take H r a h) \<or>
    mc_complete (ha_completion (fst (snd (http_take H r a h))))))"
  shows "\<exists>h a'. http_callback H r a s = (Inr (), s\<lparr>hc_handler := h, hc_active := http_erase (ha_addr a) (hc_active s), hc_idle := hc_idle s @ [a']\<rparr>) \<and>
    ha_addr a' = ha_addr a \<and> http_action_rests a'"
proof -
  obtain d a1 h1 where t: "(case hc_handler s of None \<Rightarrow> (True, a, None) | Some h \<Rightarrow> (case http_take H r a h of (d, a, h) \<Rightarrow> (d, a, Some h))) = (d, a1, h1)"
    by (cases "case hc_handler s of None \<Rightarrow> (True, a, None) | Some h \<Rightarrow> (case http_take H r a h of (d, a, h) \<Rightarrow> (d, a, Some h))") auto
  have a1: "d \<or> mc_complete (ha_completion a1)" "ha_addr a1 = ha_addr a"
    using assms t http_take_keeps(1) by (auto split: option.splits prod.splits)
  obtain a2 h2 where f: "http_finish H a1 h1 = (a2, h2)" by fastforce
  have "ha_addr a2 = ha_addr a1" "http_action_rests (a2\<lparr>ha_state := H_IDLE\<rparr>)"
    using f by (auto simp: http_finish_def http_action_rests_def Let_def)
  with a1 t f show ?thesis
    by (intro exI [of _ h2] exI [of _ "a2\<lparr>ha_state := H_IDLE\<rparr>"]) (auto simp: http_callback_def http_advance_def)
qed

lemma http_callback_cases:
  assumes "http_callback H r a s = (Inr (), s')" "ha_state a \<noteq> H_IDLE"
  obtains (ends) h a' where "s' = s\<lparr>hc_handler := h, hc_active := http_erase (ha_addr a) (hc_active s), hc_idle := hc_idle s @ [a']\<rparr>"
      "ha_addr a' = ha_addr a" "http_action_rests a'"
  | (connected) h h' a1 where "ha_state a = H_CONNECT" "hc_handler s = Some h" "http_take H r a h = (False, a1, h')" "ha_conn a1 \<noteq> None"
      "s' = s\<lparr>hc_handler := Some h', hc_active := http_set (a1\<lparr>ha_state := H_SEND\<rparr>) (hc_active s)\<rparr>"
  | (written) h h' a1 where "ha_state a = H_SEND" "hc_handler s = Some h" "http_take H r a h = (False, a1, h')" "ha_conn a1 \<noteq> None"
      "s' = s\<lparr>hc_handler := Some h', hc_active := http_set (a1\<lparr>ha_state := H_RECV, ha_completion := no_completion,
        ha_res := Some \<lparr>m_header = [], m_body = []\<rparr>\<rparr>) (hc_active s)\<rparr>"
  | (reading) h h' a1 where "ha_state a = H_RECV" "hc_handler s = Some h" "http_take H r a h = (False, a1, h')" "ha_conn a1 \<noteq> None"
      "s' = s\<lparr>hc_handler := Some h', hc_active := http_set a1 (hc_active s)\<rparr>"
proof (cases "hc_handler s = None \<or> (\<exists>h. hc_handler s = Some h \<and> (fst (http_take H r a h) \<or>
    mc_complete (ha_completion (fst (snd (http_take H r a h))))))")
  case True
  from http_callback_ends [OF this] assms(1) show thesis by (auto intro: ends)
next
  case False
  then obtain h a1 h' where t: "hc_handler s = Some h" "http_take H r a h = (False, a1, h')" "\<not> mc_complete (ha_completion a1)"
    by (cases "hc_handler s"; cases "http_take H r a (the (hc_handler s))") auto
  note keeps = http_take_keeps [OF t(2)]
  from assms(1) t have "http_advance a1 (s\<lparr>hc_handler := Some h'\<rparr>) = (Inr (), s')" by (simp add: http_callback_def)
  with t assms(2) keeps(3) show thesis
    by (cases "ha_state a") (auto simp: http_advance_def Let_def split: if_splits intro: connected written reading)
qed

lemma http_request_cases:
  assumes "http_request H made m s = (r, s')"
  obtains (refused) "s' = s" "isl r"
  | (declined) h a idle x h' where "hc_handler s = Some h" "http_allocate made (hc_idle s) = Inr (a, idle)"
      "aq_prep H (hc_nextQueryID s) m h = (x, h')" "\<nexists>m'. x = Inr (Some m')" "isl r"
      "s' = s\<lparr>hc_nextQueryID := hc_nextQueryID s + 1, hc_handler := Some h',
        hc_idle := (if x = Inr None then a\<lparr>ha_queryID := hc_nextQueryID s\<rparr> # idle else idle)\<rparr>"
  | (accepted) h a idle m' h' where "hc_handler s = Some h" "http_allocate made (hc_idle s) = Inr (a, idle)"
      "aq_prep H (hc_nextQueryID s) m h = (Inr (Some m'), h')" "r = Inr (hc_nextQueryID s)"
      "s' = s\<lparr>hc_nextQueryID := hc_nextQueryID s + 1, hc_handler := Some h', hc_idle := idle,
        hc_active := a\<lparr>ha_queryID := hc_nextQueryID s, ha_state := H_CONNECT, ha_req := Some m'\<rparr> # hc_active s\<rparr>"
proof (cases "\<exists>h a idle. hc_handler s = Some h \<and> http_allocate made (hc_idle s) = Inr (a, idle)")
  case True
  then obtain h a idle where h: "hc_handler s = Some h" "http_allocate made (hc_idle s) = Inr (a, idle)" by blast
  obtain x h' where x: "aq_prep H (hc_nextQueryID s) m h = (x, h')" by (cases "aq_prep H (hc_nextQueryID s) m h")
  show thesis
  proof (cases "\<exists>m'. x = Inr (Some m')")
    case True
    with assms h x show thesis by (auto simp: http_request_def Let_def intro: accepted)
  next
    case False
    then consider e where "x = Inl e" | "x = Inr None" by (cases x) auto
    then show thesis using assms h x by cases (auto simp: http_request_def Let_def intro: declined)
  qed
next
  case False
  with assms show thesis
    by (auto simp: http_request_def split: option.splits sum.splits intro: refused)
qed

lemma http_allocate_ok:
  assumes "http_inv s" "\<forall>addr. made = Inr addr \<longrightarrow> addr \<notin> set (http_addrs s)" "http_allocate made (hc_idle s) = Inr (a, idle)"
  shows "http_action_rests a" "list_all http_action_rests idle" "distinct (ha_addr a # map ha_addr (hc_active s) @ map ha_addr idle)"
  using assms by (auto simp: http_allocate_def http_inv_def http_addrs_def http_action_rests_def split: list.splits sum.splits)

lemma http_inv_request:
  assumes "http_inv s" "\<forall>addr. made = Inr addr \<longrightarrow> addr \<notin> set (http_addrs s)" "hc_nextQueryID s \<notin> ha_queryID ` set (hc_active s)"
    and "http_request H made m s = (r, s')"
  shows "http_inv s'"
  using assms(4)
proof (cases rule: http_request_cases)
  case (declined h a idle x h')
  from http_allocate_ok [OF assms(1,2) declined(2)] declined(6) assms(1) show ?thesis
    by (auto simp: http_inv_def http_addrs_def http_action_rests_def)
next
  case (accepted h a idle m' h')
  from http_allocate_ok [OF assms(1,2) accepted(2)] accepted(5) assms(1,3) show ?thesis
    by (auto simp: http_inv_def http_addrs_def http_action_rests_def http_action_ok_def)
qed (use assms(1) in simp)

lemma http_inv_set:
  assumes "http_inv s" "a \<in> set (hc_active s)" "ha_addr a' = ha_addr a" "ha_queryID a' = ha_queryID a" "http_action_ok a'"
  shows "http_inv (s\<lparr>hc_handler := h, hc_active := http_set a' (hc_active s)\<rparr>)"
proof -
  have d: "distinct (map ha_addr (hc_active s))" using assms(1) by (simp add: http_inv_def http_addrs_def)
  show ?thesis using assms(1,5) queries_http_set [OF d assms(2-4)]
    by (auto simp: http_inv_def http_addrs_def list_all_iff dest!: in_http_set)
qed

lemma http_inv_callback:
  assumes "http_inv s" "a \<in> set (hc_active s)" "http_callback H r a s = (Inr (), s')"
  shows "http_inv s'"
proof -
  have ok: "http_action_ok a" using assms(1,2) by (auto simp: http_inv_def list_all_iff)
  then have st: "ha_state a \<noteq> H_IDLE" by (auto simp: http_action_ok_def)
  from assms(3) st show ?thesis
  proof (cases rule: http_callback_cases)
    case (ends h a')
    have "distinct (filter (\<lambda>p. p \<noteq> ha_addr a) (map ha_addr (hc_active s)) @ map ha_addr (hc_idle s) @ [ha_addr a])"
      using assms(1,2) by (auto simp: http_inv_def http_addrs_def)
    moreover have "distinct (map ha_queryID (http_erase (ha_addr a) (hc_active s)))"
      using assms(1) by (auto simp: http_inv_def http_erase_def intro: distinct_map_filter)
    ultimately show ?thesis using ends assms(1) by (auto simp: http_inv_def http_addrs_def list_all_iff)
  next
    case (connected h h' a1)
    with ok http_take_keeps [OF connected(3)] show ?thesis
      unfolding connected(5) by (intro http_inv_set [OF assms(1,2)]) (auto simp: http_action_ok_def)
  next
    case (written h h' a1)
    with ok http_take_keeps [OF written(3)] show ?thesis
      unfolding written(5) by (intro http_inv_set [OF assms(1,2)]) (auto simp: http_action_ok_def)
  next
    case (reading h h' a1)
    with ok http_take_keeps [OF reading(3)] show ?thesis
      unfolding reading(5) by (intro http_inv_set [OF assms(1,2)]) (auto simp: http_action_ok_def)
  qed
qed

lemma http_inv_complete: "http_inv s \<Longrightarrow> http_complete H addr r s = (Inr (), s') \<Longrightarrow> http_inv s'"
  by (auto simp: http_complete_def split: option.splits dest!: find_http intro: http_inv_callback)

lemma http_inv_step: "http_step H s s' \<Longrightarrow> http_inv s \<Longrightarrow> http_inv s'"
proof (induction rule: http_step.induct)
  case (request made s m)
  then show ?case using http_inv_request [of s made H m "fst (http_request H made m s)"] by simp
qed (rule http_inv_complete)

lemma http_inv_life: "http_life H s s' \<Longrightarrow> http_inv s \<Longrightarrow> http_inv s'"
  by (induction rule: http_life.induct) (auto simp: http_inv_step, auto simp: http_inv_def http_addrs_def http_initialize_def)

lemma http_inv_make: "http_inv (http_make h)"
  by (simp add: http_make_def http_initialize_def http_inv_def http_addrs_def)

lemma http_inv_reach: "(http_life H)\<^sup>*\<^sup>* s s' \<Longrightarrow> http_inv s \<Longrightarrow> http_inv s'"
  by (induction rule: rtranclp_induct) (auto intro: http_inv_life)

section \<open>Cancelling\<close>

lemma http_cancel_one:
  assumes "http_inv s"
  shows "\<exists>s'. http_complete H addr (Inl nng_canceled) s = (Inr (), s') \<and> hc_active s' = http_erase addr (hc_active s) \<and>
    set (http_addrs s') = set (http_addrs s)"
proof (cases "find (\<lambda>a. ha_addr a = addr) (hc_active s)")
  case None
  then have "http_erase addr (hc_active s) = hc_active s"
    by (auto simp: find_None_iff http_erase_def intro!: filter_True)
  with None show ?thesis by (simp add: http_complete_def)
next
  case (Some a)
  note a = find_http [OF Some]
  have "hc_handler s = None \<or> (\<exists>h. hc_handler s = Some h \<and> (fst (http_take H (Inl nng_canceled) a h) \<or>
      mc_complete (ha_completion (fst (snd (http_take H (Inl nng_canceled) a h))))))"
    by (cases "hc_handler s") (simp_all add: http_take_def connection_ended_def)
  from http_callback_ends [OF this] a show ?thesis
    by (auto simp: http_complete_def Some http_addrs_def)
qed

lemma http_cancel_fold:
  assumes "http_inv s"
  shows "hc_active (fold (\<lambda>addr s. snd (http_complete H addr (Inl nng_canceled) s)) addrs s) =
      filter (\<lambda>a. ha_addr a \<notin> set addrs) (hc_active s) \<and>
    set (http_addrs (fold (\<lambda>addr s. snd (http_complete H addr (Inl nng_canceled) s)) addrs s)) = set (http_addrs s) \<and>
    (http_step H)\<^sup>*\<^sup>* s (fold (\<lambda>addr s. snd (http_complete H addr (Inl nng_canceled) s)) addrs s)"
  using assms
proof (induction addrs arbitrary: s)
  case (Cons addr addrs)
  obtain s1 where s1: "http_complete H addr (Inl nng_canceled) s = (Inr (), s1)" "hc_active s1 = http_erase addr (hc_active s)"
    "set (http_addrs s1) = set (http_addrs s)" using http_cancel_one [OF Cons.prems] by blast
  have "filter (\<lambda>a. ha_addr a \<notin> set addrs) (hc_active s1) = filter (\<lambda>a. ha_addr a \<notin> set (addr # addrs)) (hc_active s)"
    unfolding s1(2) http_erase_def by (auto intro!: filter_cong)
  moreover have "http_step H s s1" using s1(1) by (rule http_step.complete)
  moreover note Cons.IH [OF http_inv_complete [OF Cons.prems s1(1)]]
  ultimately show ?case using s1(1,3) by (auto intro: converse_rtranclp_into_rtranclp)
qed simp

lemma http_cancelAll_empties:
  assumes "http_inv s"
  shows "hc_active (http_cancelAll H s) = []" "set (map ha_addr (hc_idle (http_cancelAll H s))) = set (http_addrs s)"
    "(http_step H)\<^sup>*\<^sup>* s (http_cancelAll H s)"
  using http_cancel_fold [OF assms, of H "map ha_addr (hc_active s)"]
  by (auto simp: http_cancelAll_def http_addrs_def)

lemma http_stats_bound:
  "awaiting_send (fold http_count_stats as n) + awaiting_recv (fold http_count_stats as n) +
      length (filter (\<lambda>a. ha_state a \<notin> {H_SEND, H_RECV}) as) = awaiting_send n + awaiting_recv n + length as"
  by (induction as arbitrary: n) (auto simp: http_count_stats_def split: HTTP_STATE.split)

section \<open>Promises\<close>

text \<open>
  How the delegate agrees with the queries under way: the pending promises are theirs, and none is
  noted as sent before its action has written the request. (An action whose connection ends while
  it writes reads on without having reported the request as sent.)
\<close>

definition http_agrees :: "Http_Action list \<Rightarrow> Http_Delegate \<Rightarrow> bool" where
  "http_agrees as d \<longleftrightarrow> (\<exists>f. delegate_agrees f (hd_promises d) \<and> (\<forall>q. f q \<noteq> IDLE \<longleftrightarrow> q \<in> ha_queryID ` set as) \<and>
    (\<forall>a \<in> set as. ha_state a \<noteq> H_RECV \<longrightarrow> f (ha_queryID a) = SEND))"

definition http_follows :: "Http_Delegate HttpClient \<Rightarrow> bool" where
  "http_follows s \<longleftrightarrow> http_inv s \<and> (\<exists>d. hc_handler s = Some d \<and> http_agrees (hc_active s) d)"

lemma Http_handler_simps [simp]:
  "aq_prep Http_Delegate_handler = http_delegate_prep" "aq_sent Http_Delegate_handler = http_delegate_sent"
  "aq_recv Http_Delegate_handler = http_delegate_recv" "aq_error Http_Delegate_handler = http_delegate_error"
  "hh_open Http_Delegate_handler conn d = d\<lparr>hd_connected := True\<rparr>" "hh_close Http_Delegate_handler conn d = d"
  "hh_progress Http_Delegate_handler q c v d = d"
  by (simp_all add: Http_Delegate_handler_def)

lemma settle_settled: "delegate_settle q r (delegate_settle q r' d) = delegate_settle q r' d"
  by (simp add: delegate_settle_def split: option.split)

lemma http_take_promises:
  assumes "http_take Http_Delegate_handler r a d = (dis, a', d')" "ha_state a \<noteq> H_IDLE"
  shows "if dis then \<exists>x. hd_promises d' = delegate_settle (ha_queryID a) x (hd_promises d)
    else hd_promises d' = hd_promises d \<or> ha_state a = H_SEND \<and> hd_promises d' = delegate_sent (ha_queryID a) (hd_promises d)"
  using assms
  by (auto simp: http_take_def http_delegate_error_def http_delegate_sent_def Let_def
      split: sum.splits prod.splits HTTP_STATE.splits option.splits if_splits)

lemma http_finish_promises:
  "\<exists>a2 d2. http_finish Http_Delegate_handler a (Some d) = (a2, Some d2) \<and>
    (hd_promises d2 = delegate_recv (ha_queryID a) (ha_res a) (hd_promises d) \<or> \<not> mc_complete (ha_completion a) \<and> hd_promises d2 = hd_promises d)"
  by (auto simp: http_finish_def http_delegate_recv_def Let_def split: option.split)

text \<open>What the delegate has after a callback: a query that ends is settled, one that goes on is not.\<close>

lemma http_callback_promises:
  assumes "hc_handler s = Some d" "ha_state a \<noteq> H_IDLE" "http_callback Http_Delegate_handler r a s = (Inr (), s')"
  obtains (ends) d' p x where "hc_handler s' = Some d'" "hc_active s' = http_erase (ha_addr a) (hc_active s)"
      "p = hd_promises d \<or> ha_state a = H_SEND \<and> p = delegate_sent (ha_queryID a) (hd_promises d)"
      "hd_promises d' = delegate_settle (ha_queryID a) x p"
  | (goes_on) d' a' where "hc_handler s' = Some d'" "hc_active s' = http_set a' (hc_active s)" "ha_addr a' = ha_addr a"
      "ha_queryID a' = ha_queryID a" "ha_state a' \<noteq> H_RECV \<longrightarrow> ha_state a = H_CONNECT"
      "hd_promises d' = hd_promises d \<or> ha_state a = H_SEND \<and> ha_state a' = H_RECV \<and> hd_promises d' = delegate_sent (ha_queryID a) (hd_promises d)"
proof -
  obtain dis a1 d1 where t: "http_take Http_Delegate_handler r a d = (dis, a1, d1)" by (metis prod_cases3)
  note keeps = http_take_keeps [OF t] and pr = http_take_promises [OF t assms(2)]
  show thesis
  proof (cases "dis \<or> mc_complete (ha_completion a1)")
    case True
    obtain a2 d2 where f: "http_finish Http_Delegate_handler a1 (Some d1) = (a2, Some d2)"
      "hd_promises d2 = delegate_recv (ha_queryID a1) (ha_res a1) (hd_promises d1) \<or> \<not> mc_complete (ha_completion a1) \<and> hd_promises d2 = hd_promises d1"
      using http_finish_promises by blast
    have "ha_addr a2 = ha_addr a" using f(1) keeps(1) by (auto simp: http_finish_def Let_def)
    with assms(1,3) t True f(1) have s': "hc_handler s' = Some d2" "hc_active s' = http_erase (ha_addr a) (hc_active s)"
      by (auto simp: http_callback_def http_advance_def)
    show thesis
    proof (cases dis)
      case True
      with pr obtain x where "hd_promises d1 = delegate_settle (ha_queryID a) x (hd_promises d)" by auto
      with f(2) keeps(2) have "hd_promises d2 = delegate_settle (ha_queryID a) x (hd_promises d)" by (auto simp: delegate_recv_def settle_settled)
      with s' show thesis by (intro ends) auto
    next
      case False
      with True f(2) keeps(2) have "hd_promises d2 = delegate_settle (ha_queryID a) (\<lambda>_. Inr (ha_res a1)) (hd_promises d1)"
        by (simp add: delegate_recv_def)
      with s' False pr show thesis by (intro ends) auto
    qed
  next
    case False
    with assms(1,3) t have adv: "http_advance a1 (s\<lparr>hc_handler := Some d1\<rparr>) = (Inr (), s')" by (simp add: http_callback_def)
    define a' where "a' = (case ha_state a of H_CONNECT \<Rightarrow> a1\<lparr>ha_state := H_SEND\<rparr>
      | H_SEND \<Rightarrow> a1\<lparr>ha_state := H_RECV, ha_completion := no_completion, ha_res := Some \<lparr>m_header = [], m_body = []\<rparr>\<rparr> | _ \<Rightarrow> a1)"
    have "s' = s\<lparr>hc_handler := Some d1, hc_active := http_set a' (hc_active s)\<rparr>" "ha_state a' = (if ha_state a = H_CONNECT then H_SEND else H_RECV)"
      using adv keeps(3) assms(2) by (cases "ha_state a"; auto simp: a'_def http_advance_def Let_def split: if_splits)+
    moreover have "ha_addr a' = ha_addr a" "ha_queryID a' = ha_queryID a" using keeps by (auto simp: a'_def split: HTTP_STATE.split)
    ultimately show thesis using pr False by (intro goes_on [of d1 a']) auto
  qed
qed

lemma http_follows_callback:
  assumes "http_follows s" "a \<in> set (hc_active s)" "http_callback Http_Delegate_handler r a s = (Inr (), s')"
  shows "http_follows s'"
proof -
  from assms(1) obtain d f where inv: "http_inv s" and d: "hc_handler s = Some d" "delegate_agrees f (hd_promises d)"
    and act: "\<forall>q. f q \<noteq> IDLE \<longleftrightarrow> q \<in> ha_queryID ` set (hc_active s)"
    and snd: "\<forall>a \<in> set (hc_active s). ha_state a \<noteq> H_RECV \<longrightarrow> f (ha_queryID a) = SEND"
    by (auto simp: http_follows_def http_agrees_def)
  let ?q = "ha_queryID a"
  have st: "ha_state a \<noteq> H_IDLE" using inv assms(2) by (auto simp: http_inv_def list_all_iff http_action_ok_def)
  have q: "f ?q \<noteq> IDLE" using act assms(2) by auto
  have same: "b = a" if "b \<in> set (hc_active s)" "ha_queryID b = ?q \<or> ha_addr b = ha_addr a" for b
    using inv that assms(2) by (auto simp: http_inv_def http_addrs_def distinct_map inj_on_def)
  have inv': "http_inv s'" using http_inv_callback [OF inv assms(2,3)] .
  from d(1) st assms(3) show ?thesis
  proof (cases rule: http_callback_promises)
    case (ends d' p x)
    obtain g where g: "delegate_agrees g p" "g ?q \<noteq> IDLE" "\<forall>q. q \<noteq> ?q \<longrightarrow> g q = f q"
    proof (cases "p = hd_promises d")
      case True
      with d(2) q that [of f] show thesis by simp
    next
      case False
      with ends(3) have "ha_state a = H_SEND" "p = delegate_sent ?q (hd_promises d)" by auto
      with snd assms(2) agrees_sent [OF d(2), of ?q] that [of "f(?q := RECV)"] show thesis by auto
    qed
    from agrees_settle [OF g(1,2), of x] ends(4) have "delegate_agrees (g(?q := IDLE)) (hd_promises d')" by simp
    moreover have rest: "set (hc_active s') = set (hc_active s) - {a}" using ends(2) assms(2) same by auto
    then have "ha_queryID ` set (hc_active s') = ha_queryID ` set (hc_active s) - {?q}" using same by auto
    with act g(3) have "(g(?q := IDLE)) q \<noteq> IDLE \<longleftrightarrow> q \<in> ha_queryID ` set (hc_active s')" for q by (cases "q = ?q") simp_all
    moreover have "(g(?q := IDLE)) (ha_queryID b) = SEND" if "b \<in> set (hc_active s')" "ha_state b \<noteq> H_RECV" for b
    proof -
      from that rest same [of b] have "b \<in> set (hc_active s)" "ha_queryID b \<noteq> ?q" by auto
      with snd g(3) that(2) show ?thesis by simp
    qed
    ultimately show ?thesis using inv' ends(1) unfolding http_follows_def http_agrees_def by blast
  next
    case (goes_on d' a')
    have dist: "distinct (map ha_addr (hc_active s))" using inv by (simp add: http_inv_def http_addrs_def)
    have ids: "ha_queryID ` set (hc_active s') = ha_queryID ` set (hc_active s)"
      using queries_http_set [OF dist assms(2) goes_on(3,4)] goes_on(2) by (metis set_map)
    have "\<exists>g. delegate_agrees g (hd_promises d') \<and> (\<forall>q. g q \<noteq> IDLE \<longleftrightarrow> f q \<noteq> IDLE) \<and> (\<forall>q. q \<noteq> ?q \<longrightarrow> g q = f q) \<and>
        (ha_state a' \<noteq> H_RECV \<longrightarrow> g ?q = SEND)"
    proof (cases "hd_promises d' = hd_promises d")
      case True
      with d(2) snd assms(2) goes_on(5) show ?thesis by (intro exI [of _ f]) auto
    next
      case False
      with goes_on(6) have s: "ha_state a = H_SEND" "ha_state a' = H_RECV" "hd_promises d' = delegate_sent ?q (hd_promises d)" by auto
      with snd assms(2) agrees_sent [OF d(2), of ?q] q show ?thesis by (intro exI [of _ "f(?q := RECV)"]) auto
    qed
    then obtain g where g: "delegate_agrees g (hd_promises d')" "\<forall>q. g q \<noteq> IDLE \<longleftrightarrow> f q \<noteq> IDLE" "\<forall>q. q \<noteq> ?q \<longrightarrow> g q = f q"
      "ha_state a' \<noteq> H_RECV \<longrightarrow> g ?q = SEND" by blast
    have "g (ha_queryID b) = SEND" if b: "b \<in> set (hc_active s')" "ha_state b \<noteq> H_RECV" for b
    proof (cases "b = a'")
      case False
      with b goes_on(2,3) have "b \<in> set (hc_active s)" "ha_addr b \<noteq> ha_addr a" by (auto dest!: in_http_set)
      moreover from this have "ha_queryID b \<noteq> ?q" using same by auto
      ultimately show ?thesis using g(3) snd b(2) by auto
    qed (use g(4) goes_on(4) b in simp)
    with g act ids inv' goes_on(1) show ?thesis unfolding http_follows_def http_agrees_def by auto
  qed
qed

lemma http_followsI:
  assumes "http_inv s" "hc_handler s = Some d" "delegate_agrees f (hd_promises d)"
    and "\<And>q. f q \<noteq> IDLE \<longleftrightarrow> q \<in> ha_queryID ` set (hc_active s)"
    and "\<And>a. a \<in> set (hc_active s) \<Longrightarrow> ha_state a \<noteq> H_RECV \<Longrightarrow> f (ha_queryID a) = SEND"
  shows "http_follows s"
  using assms unfolding http_follows_def http_agrees_def by blast

lemma http_followsE:
  assumes "http_follows s"
  obtains d f where "http_inv s" "hc_handler s = Some d" "delegate_agrees f (hd_promises d)"
    "\<forall>q. f q \<noteq> IDLE \<longleftrightarrow> q \<in> ha_queryID ` set (hc_active s)"
    "\<forall>a \<in> set (hc_active s). ha_state a \<noteq> H_RECV \<longrightarrow> f (ha_queryID a) = SEND"
  using assms unfolding http_follows_def http_agrees_def by blast

lemma http_follows_request:
  assumes "http_follows s" "\<forall>addr. made = Inr addr \<longrightarrow> addr \<notin> set (http_addrs s)" "hc_nextQueryID s \<notin> ha_queryID ` set (hc_active s)"
    and "http_request Http_Delegate_handler made m s = (r, s')"
  shows "http_follows s'"
proof -
  from assms(1) obtain d f where inv: "http_inv s" and d: "hc_handler s = Some d" "delegate_agrees f (hd_promises d)"
    and act: "\<forall>q. f q \<noteq> IDLE \<longleftrightarrow> q \<in> ha_queryID ` set (hc_active s)"
    and snd: "\<forall>a \<in> set (hc_active s). ha_state a \<noteq> H_RECV \<longrightarrow> f (ha_queryID a) = SEND"
    by (rule http_followsE)
  have inv': "http_inv s'" using http_inv_request [OF inv assms(2-4)] .
  let ?q = "hc_nextQueryID s"
  have idle: "f ?q = IDLE" using act assms(3) by auto
  from assms(4) show ?thesis
  proof (cases rule: http_request_cases)
    case (declined h a idle x h')
    then show ?thesis by (auto simp: http_delegate_prep_def delegate_prep_def Let_def)
  next
    case (accepted h a idle m' h')
    then have "hd_promises h' = snd (delegate_prep ?q m (hd_promises d))" using d(1) by (auto simp: http_delegate_prep_def split: prod.splits)
    with agrees_prep [OF d(2) idle, of m] have "delegate_agrees (f(?q := SEND)) (hd_promises h')" by simp
    moreover have "(f(?q := SEND)) q \<noteq> IDLE \<longleftrightarrow> q \<in> ha_queryID ` set (hc_active s')" for q
      using act by (cases "q = ?q") (simp_all add: accepted(5))
    moreover have "\<forall>b \<in> set (hc_active s'). ha_state b \<noteq> H_RECV \<longrightarrow> (f(?q := SEND)) (ha_queryID b) = SEND"
      using snd by (simp add: accepted(5))
    moreover have "hc_handler s' = Some h'" by (simp add: accepted(5))
    ultimately show ?thesis by (intro http_followsI [OF inv', of h' "f(?q := SEND)"]) blast+
  qed (use assms(1) in simp)
qed

text \<open>What can happen to a box: the steps of its client, and a thread that fetches a future.\<close>

inductive http_box_step :: "Http_Delegate HttpClient \<Rightarrow> Http_Delegate HttpClient \<Rightarrow> bool" where
  step: "http_step Http_Delegate_handler s s' \<Longrightarrow> http_box_step s s'"
| future: "http_box_step s (snd (http_box_future qid s))"

lemma http_follows_step: "http_step Http_Delegate_handler s s' \<Longrightarrow> http_follows s \<Longrightarrow> http_follows s'"
proof (induction rule: http_step.induct)
  case (request made s m)
  then show ?case using http_follows_request [of s made m "fst (http_request Http_Delegate_handler made m s)"] by simp
next
  case (complete addr r s s')
  then show ?case by (auto simp: http_complete_def split: option.splits dest!: find_http intro: http_follows_callback)
qed

lemma agrees_newQueryID [simp]: "delegate_agrees f (d\<lparr>de_newQueryID := q\<rparr>) \<longleftrightarrow> delegate_agrees f d"
  by (simp add: delegate_agrees_def)

lemma http_follows_future:
  assumes "http_follows s"
  shows "http_follows (snd (http_box_future qid s))"
proof -
  from assms obtain d f where d: "http_inv s" "hc_handler s = Some d" "delegate_agrees f (hd_promises d)"
    "\<forall>q. f q \<noteq> IDLE \<longleftrightarrow> q \<in> ha_queryID ` set (hc_active s)"
    "\<forall>a \<in> set (hc_active s). ha_state a \<noteq> H_RECV \<longrightarrow> f (ha_queryID a) = SEND" by (rule http_followsE)
  obtain r p where p: "getFuture qid (hd_promises d) = (r, p)" by fastforce
  then have "delegate_agrees f p" using d(3) by (auto simp: getFuture_def split: option.splits if_splits)
  with d p show ?thesis
    by (intro http_followsI [of _ "d\<lparr>hd_promises := p\<rparr>" f])
      (simp_all add: http_box_future_def http_getFuture_def http_inv_def http_addrs_def)
qed

lemma http_box_reach: "http_box_step\<^sup>*\<^sup>* http_box_make s \<Longrightarrow> http_follows s"
proof (induction rule: rtranclp_induct)
  case base
  show ?case
    by (auto simp: http_follows_def http_agrees_def http_box_make_def http_make_def http_initialize_def http_inv_def http_addrs_def
        delegate_agrees_def http_delegate_new_def delegate_new_def intro!: exI [of _ "\<lambda>_. IDLE"])
next
  case (step s s')
  from step(2,3) show ?case by (induction rule: http_box_step.induct) (auto intro: http_follows_step http_follows_future)
qed

definition http_future :: "nat \<Rightarrow> Http_Delegate HttpClient \<Rightarrow> (nng_msg option) result option" where
  "http_future n s = (case hc_handler s of None \<Rightarrow> None | Some d \<Rightarrow> de_results (hd_promises d) n)"

lemma http_follows_open:
  assumes "http_follows s"
  obtains d where "hc_handler s = Some d"
    "\<forall>n < de_promises (hd_promises d). de_results (hd_promises d) n = None \<longrightarrow>
      (\<exists>a \<in> set (hc_active s). \<exists>p. de_pending (hd_promises d) (ha_queryID a) = Some p \<and> pe_promise p = n)"
    "\<forall>n < de_promises (hd_promises d). delegate_destroy (hd_promises d) n \<noteq> None"
proof -
  from assms obtain d f where d: "hc_handler s = Some d" "delegate_agrees f (hd_promises d)"
    "\<forall>q. f q \<noteq> IDLE \<longleftrightarrow> q \<in> ha_queryID ` set (hc_active s)" by (auto simp: http_follows_def http_agrees_def)
  show thesis
  proof (rule that [OF d(1)]; intro allI impI)
    fix n assume n: "n < de_promises (hd_promises d)"
    note open_ = agreesD(4) [OF d(2) n]
    show "\<exists>a \<in> set (hc_active s). \<exists>p. de_pending (hd_promises d) (ha_queryID a) = Some p \<and> pe_promise p = n"
      if none: "de_results (hd_promises d) n = None"
    proof -
      from open_ [OF none] obtain q p where q: "de_pending (hd_promises d) q = Some p" "pe_promise p = n" by blast
      with agreesD(2) [OF d(2) q(1)] d(3) have "q \<in> ha_queryID ` set (hc_active s)" by (metis ACTION_STATE.distinct(1,3))
      with q show ?thesis by auto
    qed
    show "delegate_destroy (hd_promises d) n \<noteq> None" using open_ by (auto simp: delegate_destroy_def ran_def)
  qed
qed

section \<open>The course of one request\<close>

lemma find_http_set: "find (\<lambda>b. ha_addr b = addr) as = Some a \<Longrightarrow> ha_addr a' = addr \<Longrightarrow> find (\<lambda>b. ha_addr b = addr) (http_set a' as) = Some a'"
  by (induction as) (auto simp: http_set_def split: if_splits)

lemma http_box_request_state:
  assumes "http_follows s" "hc_nextQueryID s \<notin> ha_queryID ` set (hc_active s)" "http_box_request made req s = (Inr n, s1)"
  obtains a idle d q where "http_allocate made (hc_idle s) = Inr (a, idle)" "q = hc_nextQueryID s"
    "hc_active s1 = a\<lparr>ha_queryID := q, ha_state := H_CONNECT, ha_req := Some req\<rparr> # hc_active s" "hc_idle s1 = idle"
    "hc_handler s1 = Some d" "de_pending (hd_promises d) q = Some \<lparr>pe_sent = False, pe_promise = n\<rparr>" "de_results (hd_promises d) n = None"
proof -
  obtain q s0 where r: "http_request Http_Delegate_handler made req s = (Inr q, s0)" "http_box_future q s0 = (Inr n, s1)"
    using assms(3) by (auto simp: http_box_request_def split: prod.splits sum.splits)
  from assms(1) obtain d f where d: "http_inv s" "hc_handler s = Some d" "delegate_agrees f (hd_promises d)"
    "\<forall>q. f q \<noteq> IDLE \<longleftrightarrow> q \<in> ha_queryID ` set (hc_active s)" by (rule http_followsE)
  let ?q = "hc_nextQueryID s"
  have idle: "f ?q = IDLE" using d(4) assms(2) by auto
  from r(1) show thesis
  proof (cases rule: http_request_cases)
    case (accepted h a idle m' h')
    then have "http_delegate_prep ?q req d = (Inr (Some m'), h')" using d(2) by simp
    then have h': "m' = req" "hd_promises h' = snd (delegate_prep ?q req (hd_promises d))"
      by (auto simp: http_delegate_prep_def split: prod.splits) (simp add: delegate_prep_def Let_def)
    note ag = agrees_prep [OF d(3) idle, of req, folded h'(2)]
    from r(2) accepted(4,5) ag have n: "n = de_promises (hd_promises d)"
      "s1 = s0\<lparr>hc_handler := Some (h'\<lparr>hd_promises := (hd_promises h')\<lparr>de_newQueryID := 0\<rparr>\<rparr>)\<rparr>"
      by (auto simp: http_box_future_def http_getFuture_def getFuture_def split: if_splits)
    have "de_results (hd_promises h') n = None" using agreesD(2) [OF conjunct1 [OF ag]] ag n(1) by fastforce
    with accepted h'(1) n ag show thesis by (intro that [of a idle ?q "h'\<lparr>hd_promises := (hd_promises h')\<lparr>de_newQueryID := 0\<rparr>\<rparr>"]) simp_all
  qed simp_all
qed

lemma http_connects:
  assumes "find (\<lambda>b. ha_addr b = addr) (hc_active s) = Some a" "ha_state a = H_CONNECT" "hc_handler s = Some h" "\<not> mc_complete (ha_completion a)"
  shows "http_complete H addr (Inr (c, x)) s = (Inr (), s\<lparr>hc_handler := Some (hh_open H c h),
    hc_active := http_set (a\<lparr>ha_conn := Some c, ha_state := H_SEND\<rparr>) (hc_active s)\<rparr>)"
  using assms by (simp add: http_complete_def http_callback_def http_take_def http_advance_def Let_def)

lemma http_writes:
  assumes "find (\<lambda>b. ha_addr b = addr) (hc_active s) = Some a" "ha_state a = H_SEND" "hc_handler s = Some h" "\<not> mc_complete (ha_completion a)" "ha_conn a \<noteq> None"
  shows "http_complete H addr (Inr x) s = (Inr (), s\<lparr>hc_handler := Some (aq_sent H (ha_queryID a) h),
    hc_active := http_set (a\<lparr>ha_req := None, ha_state := H_RECV, ha_completion := no_completion, ha_res := Some \<lparr>m_header = [], m_body = []\<rparr>\<rparr>) (hc_active s)\<rparr>)"
  using assms by (cases x) (simp add: http_complete_def http_callback_def http_take_def http_advance_def Let_def)

text \<open>Whether bytes are a complete response.\<close>

definition response_complete :: "string \<Rightarrow> bool" where
  "response_complete bytes = (case msgview_reply parse_reset (Some \<lparr>m_header = [], m_body = bytes\<rparr>) of
      Inl e \<Rightarrow> False | Inr v \<Rightarrow> mc_complete (completion v))"

text \<open>An action that has read some bytes.\<close>

definition reading :: "QueryID \<Rightarrow> string \<Rightarrow> Http_Action \<Rightarrow> bool" where
  "reading q bytes a \<longleftrightarrow> ha_queryID a = q \<and> ha_state a = H_RECV \<and> ha_conn a \<noteq> None \<and> ha_res a = Some \<lparr>m_header = [], m_body = bytes\<rparr> \<and>
    \<not> mc_complete (ha_completion a)"

lemma http_reads:
  assumes "find (\<lambda>b. ha_addr b = addr) (hc_active s) = Some a" "reading q bytes a" "hc_handler s = Some d" "\<not> response_complete (bytes @ p)"
  obtains a' where "http_complete Http_Delegate_handler addr (Inr (c, p)) s = (Inr (), s\<lparr>hc_active := http_set a' (hc_active s)\<rparr>)"
    "ha_addr a' = addr" "reading q (bytes @ p) a'"
proof -
  let ?a = "a\<lparr>ha_res := Some \<lparr>m_header = [], m_body = bytes @ p\<rparr>\<rparr>"
  obtain a' where t: "http_take Http_Delegate_handler (Inr (c, p)) a d = (False, a', d)" "ha_addr a' = ha_addr a" "reading q (bytes @ p) a'"
  proof (cases "http_parse ?a")
    case None
    with assms(2) that [of ?a] show thesis by (simp add: http_take_def reading_def)
  next
    case (Some v)
    with assms(4) have "\<not> mc_complete (completion v)" by (simp add: http_parse_def response_complete_def split: sum.splits)
    with Some assms(2) that [of "?a\<lparr>ha_completion := completion v\<rparr>"] show thesis by (simp add: http_take_def reading_def)
  qed
  have "s\<lparr>hc_handler := Some d\<rparr> = s" using assms(3) by simp
  with t assms(1,3) have "http_complete Http_Delegate_handler addr (Inr (c, p)) s = (Inr (), s\<lparr>hc_active := http_set a' (hc_active s)\<rparr>)"
    by (simp add: http_complete_def http_callback_def http_advance_def reading_def Let_def)
  with t find_http [OF assms(1)] that show thesis by simp
qed

lemma http_reads_last:
  assumes "find (\<lambda>b. ha_addr b = addr) (hc_active s) = Some a" "reading q bytes a" "hc_handler s = Some d" "response_complete (bytes @ p)"
    and "de_pending (hd_promises d) q = Some pe"
  obtains s' a' where "http_complete Http_Delegate_handler addr (Inr (c, p)) s = (Inr (), s')"
    "http_future (pe_promise pe) s' = Some (Inr (Some \<lparr>m_header = [], m_body = bytes @ p\<rparr>))"
    "hc_active s' = http_erase addr (hc_active s)" "hc_idle s' = hc_idle s @ [a']" "ha_addr a' = addr" "mc_complete (ha_completion a')"
    "hc_nextQueryID s' = hc_nextQueryID s"
proof -
  let ?a = "a\<lparr>ha_res := Some \<lparr>m_header = [], m_body = bytes @ p\<rparr>\<rparr>"
  obtain v where v: "http_parse ?a = Some v" "mc_complete (completion v)"
    using assms(4) by (auto simp: http_parse_def response_complete_def split: sum.splits)
  have t: "http_take Http_Delegate_handler (Inr (c, p)) a d = (False, ?a\<lparr>ha_completion := completion v\<rparr>, d)"
    using v(1) assms(2) by (simp add: http_take_def reading_def)
  have addr: "ha_addr a = addr" using find_http [OF assms(1)] by simp
  let ?a' = "a\<lparr>ha_completion := completion v, ha_conn := None, ha_req := None, ha_res := None, ha_state := H_IDLE\<rparr>"
  obtain c' where c': "ha_conn a = Some c'" using assms(2) by (auto simp: reading_def)
  let ?d' = "hh_close Http_Delegate_handler c' (aq_recv Http_Delegate_handler q (Some \<lparr>m_header = [], m_body = bytes @ p\<rparr>) d)"
  let ?s' = "s\<lparr>hc_handler := Some ?d', hc_active := http_erase addr (hc_active s), hc_idle := hc_idle s @ [?a']\<rparr>"
  have run: "http_complete Http_Delegate_handler addr (Inr (c, p)) s = (Inr (), ?s')"
    using t v(2) assms(1-3) addr c' by (simp add: http_complete_def http_callback_def http_finish_def http_advance_def reading_def Let_def)
  have fut: "http_future (pe_promise pe) ?s' = Some (Inr (Some \<lparr>m_header = [], m_body = bytes @ p\<rparr>))"
    using assms(5) by (simp add: http_future_def http_delegate_recv_def delegate_recv_def delegate_settle_def)
  have "ha_addr ?a' = addr" "mc_complete (ha_completion ?a')" using addr v(2) by simp_all
  then show thesis by (intro that [OF run fut, of ?a']) simp_all
qed

text \<open>The operations of one action that complete, one after another.\<close>

fun http_run :: "nat \<Rightarrow> (nng_error + nat \<times> string) list \<Rightarrow> Http_Delegate HttpClient \<Rightarrow> unit result \<times> Http_Delegate HttpClient" where
  "http_run addr [] s = (Inr (), s)"
| "http_run addr (r # rs) s = (case http_complete Http_Delegate_handler addr r s of
      (Inl e, s) \<Rightarrow> (Inl e, s)
    | (Inr _, s) \<Rightarrow> http_run addr rs s)"

lemma http_reads_all:
  assumes "find (\<lambda>b. ha_addr b = addr) (hc_active s) = Some a" "reading q bytes a" "hc_handler s = Some d"
    and "\<forall>k \<le> length ps. \<not> response_complete (bytes @ concat (take k ps))"
  shows "\<exists>s' a'. http_run addr (map (\<lambda>p. Inr (c, p)) ps) s = (Inr (), s') \<and>
    find (\<lambda>b. ha_addr b = addr) (hc_active s') = Some a' \<and> reading q (bytes @ concat ps) a' \<and> hc_handler s' = Some d \<and> hc_idle s' = hc_idle s"
  using assms
proof (induction ps arbitrary: s a bytes)
  case Nil
  then show ?case by auto
next
  case (Cons p ps)
  from Cons.prems(4) have "\<not> response_complete (bytes @ p)" by (auto dest: spec [of _ 1])
  from http_reads [OF Cons.prems(1-3) this, of c] obtain a' where a':
    "http_complete Http_Delegate_handler addr (Inr (c, p)) s = (Inr (), s\<lparr>hc_active := http_set a' (hc_active s)\<rparr>)"
    "ha_addr a' = addr" "reading q (bytes @ p) a'" .
  have "\<forall>k \<le> length ps. \<not> response_complete ((bytes @ p) @ concat (take k ps))"
  proof (intro allI impI)
    fix k assume "k \<le> length ps"
    then show "\<not> response_complete ((bytes @ p) @ concat (take k ps))" using Cons.prems(4) by (auto dest: spec [of _ "Suc k"])
  qed
  from Cons.IH [of "s\<lparr>hc_active := http_set a' (hc_active s)\<rparr>", OF _ a'(3) _ this] find_http_set [OF Cons.prems(1) a'(2)] Cons.prems(3) a'(1)
  show ?case by simp
qed

lemma http_run_append:
  "http_run addr (rs @ rs') s = (case http_run addr rs s of (Inl e, s) \<Rightarrow> (Inl e, s) | (Inr _, s) \<Rightarrow> http_run addr rs' s)"
  by (induction rs arbitrary: s) (auto split: prod.split sum.split)

text \<open>An action that is connecting, and whose record of its last response is not that of a complete one, goes on to read.\<close>

lemma http_starts_reading:
  assumes "hc_active s = a # as" "ha_state a = H_CONNECT" "ha_queryID a = q" "\<not> mc_complete (ha_completion a)" "hc_handler s = Some d"
    and "de_pending (hd_promises d) q = Some pe"
  shows "\<exists>s' a' d'. http_run (ha_addr a) [Inr (c, x), Inr y] s = (Inr (), s') \<and> find (\<lambda>b. ha_addr b = ha_addr a) (hc_active s') = Some a' \<and>
    reading q [] a' \<and> hc_handler s' = Some d' \<and> hd_promises d' = delegate_sent q (hd_promises d) \<and> hc_idle s' = hc_idle s"
proof -
  let ?a1 = "a\<lparr>ha_conn := Some c, ha_state := H_SEND\<rparr>" and ?d1 = "d\<lparr>hd_connected := True\<rparr>"
  let ?s1 = "s\<lparr>hc_handler := Some ?d1, hc_active := http_set ?a1 (hc_active s)\<rparr>"
  have f: "find (\<lambda>b. ha_addr b = ha_addr a) (hc_active s) = Some a" by (simp add: assms(1))
  have s1: "http_complete Http_Delegate_handler (ha_addr a) (Inr (c, x)) s = (Inr (), ?s1)"
    using http_connects [OF f assms(2,5,4), of Http_Delegate_handler c x] by simp
  have f1: "find (\<lambda>b. ha_addr b = ha_addr a) (hc_active ?s1) = Some ?a1" using find_http_set [OF f, of ?a1] by simp
  let ?a2 = "?a1\<lparr>ha_req := None, ha_state := H_RECV, ha_completion := no_completion, ha_res := Some \<lparr>m_header = [], m_body = []\<rparr>\<rparr>"
  let ?d2 = "http_delegate_sent q ?d1"
  let ?s2 = "?s1\<lparr>hc_handler := Some ?d2, hc_active := http_set ?a2 (hc_active ?s1)\<rparr>"
  have s2: "http_complete Http_Delegate_handler (ha_addr a) (Inr y) ?s1 = (Inr (), ?s2)"
    using http_writes [OF f1, of ?d1 Http_Delegate_handler y] assms(3,4) by simp
  have "find (\<lambda>b. ha_addr b = ha_addr a) (hc_active ?s2) = Some ?a2" using find_http_set [OF f1, of ?a2] by simp
  moreover have "reading q [] ?a2" using assms(3) by (simp add: reading_def no_completion_def)
  moreover have "hd_promises ?d2 = delegate_sent q (hd_promises d)" by (simp add: http_delegate_sent_def)
  moreover have "http_run (ha_addr a) [Inr (c, x), Inr y] s = (Inr (), ?s2)" using s1 s2 by simp
  ultimately show ?thesis by (intro exI [of _ ?s2] exI [of _ ?a2] exI [of _ ?d2]) simp
qed

section \<open>No promise is forgotten\<close>

lemma settle_promises [simp]: "de_promises (delegate_settle q r d) = de_promises d" "de_promises (delegate_sent q d) = de_promises d"
  by (simp_all add: delegate_settle_def delegate_sent_def split: option.split)

lemma http_complete_promises:
  assumes "http_follows s" "http_complete Http_Delegate_handler addr r s = (Inr (), s')" "hc_handler s = Some d"
  shows "\<exists>d'. hc_handler s' = Some d' \<and> de_promises (hd_promises d') = de_promises (hd_promises d)"
proof (cases "find (\<lambda>a. ha_addr a = addr) (hc_active s)")
  case None
  with assms show ?thesis by (simp add: http_complete_def)
next
  case (Some a)
  with assms(2) have cb: "http_callback Http_Delegate_handler r a s = (Inr (), s')" by (simp add: http_complete_def)
  have "http_action_ok a" using assms(1) find_http [OF Some] by (auto simp: http_follows_def http_inv_def list_all_iff)
  then have "ha_state a \<noteq> H_IDLE" by (auto simp: http_action_ok_def)
  from assms(3) this cb show ?thesis by (cases rule: http_callback_promises) auto
qed

lemma http_cancels_promises:
  assumes "http_follows s" "hc_handler s = Some d"
  shows "http_follows (fold (\<lambda>addr s. snd (http_complete Http_Delegate_handler addr (Inl nng_canceled) s)) addrs s) \<and>
    (\<exists>d'. hc_handler (fold (\<lambda>addr s. snd (http_complete Http_Delegate_handler addr (Inl nng_canceled) s)) addrs s) = Some d' \<and>
      de_promises (hd_promises d') = de_promises (hd_promises d))"
  using assms
proof (induction addrs arbitrary: s d)
  case (Cons addr addrs)
  have "http_inv s" using Cons.prems(1) by (rule http_followsE)
  from http_cancel_one [OF this, of Http_Delegate_handler addr] obtain s' where
    s': "http_complete Http_Delegate_handler addr (Inl nng_canceled) s = (Inr (), s')" by blast
  from http_complete_promises [OF Cons.prems(1) s' Cons.prems(2)] obtain d' where
    d': "hc_handler s' = Some d'" "de_promises (hd_promises d') = de_promises (hd_promises d)" by blast
  have "http_follows s'" using http_follows_step [OF http_step.complete [OF s'] Cons.prems(1)] .
  from Cons.IH [OF this d'(1)] s' d'(2) show ?case by simp
qed simp

lemma http_cancelAll_settles:
  assumes "http_follows s" "hc_handler s = Some d" "n < de_promises (hd_promises d)"
  shows "http_future n (http_cancelAll Http_Delegate_handler s) \<noteq> None"
proof -
  let ?s = "http_cancelAll Http_Delegate_handler s"
  from http_cancels_promises [OF assms(1,2), of "map ha_addr (hc_active s)", folded http_cancelAll_def] obtain d' where
    d': "http_follows ?s" "hc_handler ?s = Some d'" "de_promises (hd_promises d') = de_promises (hd_promises d)" by blast
  have "hc_active ?s = []" using http_cancelAll_empties(1) assms(1) by (auto elim: http_followsE)
  with http_follows_open [OF d'(1)] d'(2,3) assms(3) show ?thesis by (auto simp: http_future_def)
qed

section \<open>Properties\<close>

text \<open>
  Actions are neither lost nor shared: whatever happens to a client, no two actions have one address, those in the
  pool hold no connection and no message, an operation is under way on a connection of its own, and
  every active action is connecting or counted in the statistics. The destructor brings every action
  back to the pool, without undefined behaviour.
\<close>

theorem http_pool:
  assumes "(http_life H)\<^sup>*\<^sup>* (http_make handler) s"
  shows "distinct (map ha_addr (hc_active s) @ map ha_addr (hc_idle s)) \<and>
    (\<forall>a \<in> set (hc_idle s). ha_state a = H_IDLE \<and> ha_conn a = None \<and> ha_req a = None \<and> ha_res a = None) \<and>
    (\<forall>a \<in> set (hc_active s). ha_state a \<noteq> H_IDLE \<and> (ha_conn a = None \<longleftrightarrow> ha_state a = H_CONNECT)) \<and>
    awaiting_send (http_msgStats s) + awaiting_recv (http_msgStats s) + length (filter (\<lambda>a. ha_state a = H_CONNECT) (hc_active s)) =
      length (hc_active s) \<and>
    hc_active (http_cancelAll H s) = [] \<and>
    ha_addr ` set (hc_idle (http_cancelAll H s)) = ha_addr ` (set (hc_active s) \<union> set (hc_idle s))"
proof (intro conjI)
  have inv: "http_inv s" using http_inv_reach [OF assms http_inv_make] .
  show "distinct (map ha_addr (hc_active s) @ map ha_addr (hc_idle s))" using inv by (simp add: http_inv_def http_addrs_def)
  show "\<forall>a \<in> set (hc_idle s). ha_state a = H_IDLE \<and> ha_conn a = None \<and> ha_req a = None \<and> ha_res a = None"
    using inv by (simp add: http_inv_def http_action_rests_def list_all_iff)
  show act: "\<forall>a \<in> set (hc_active s). ha_state a \<noteq> H_IDLE \<and> (ha_conn a = None \<longleftrightarrow> ha_state a = H_CONNECT)"
  proof
    fix a assume "a \<in> set (hc_active s)"
    with inv have "http_action_ok a" by (simp add: http_inv_def list_all_iff)
    then show "ha_state a \<noteq> H_IDLE \<and> (ha_conn a = None \<longleftrightarrow> ha_state a = H_CONNECT)" by (cases "ha_state a") (auto simp: http_action_ok_def)
  qed
  have "ha_state a \<notin> {H_SEND, H_RECV} \<longleftrightarrow> ha_state a = H_CONNECT" if "a \<in> set (hc_active s)" for a
    using act that by (cases "ha_state a") auto
  then have "filter (\<lambda>a. ha_state a \<notin> {H_SEND, H_RECV}) (hc_active s) = filter (\<lambda>a. ha_state a = H_CONNECT) (hc_active s)"
    by (rule filter_cong [OF refl])
  with http_stats_bound [of "hc_active s" "\<lparr>awaiting_send = 0, awaiting_recv = 0\<rparr>"]
  show "awaiting_send (http_msgStats s) + awaiting_recv (http_msgStats s) + length (filter (\<lambda>a. ha_state a = H_CONNECT) (hc_active s)) =
      length (hc_active s)" by (simp add: http_msgStats_def)
  show "hc_active (http_cancelAll H s) = []" using http_cancelAll_empties(1) [OF inv] .
  show "ha_addr ` set (hc_idle (http_cancelAll H s)) = ha_addr ` (set (hc_active s) \<union> set (hc_idle s))"
    using http_cancelAll_empties(2) [OF inv, of H] by (simp add: http_addrs_def image_Un)
qed

text \<open>
  C23. Every future of a box is settled in the end: one without a result belongs to a query under way, once the
  operations are cancelled each has a result, and when the box is destroyed each is fulfilled or broken.
\<close>

theorem http_promises_settled:
  assumes "http_box_step\<^sup>*\<^sup>* http_box_make s" "hc_handler s = Some d" "n < de_promises (hd_promises d)"
  shows "(http_future n s = None \<longrightarrow> (\<exists>a \<in> set (hc_active s). \<exists>p. de_pending (hd_promises d) (ha_queryID a) = Some p \<and> pe_promise p = n)) \<and>
    http_future n (http_cancelAll Http_Delegate_handler s) \<noteq> None \<and>
    fst (http_box_destroy s) n \<noteq> None \<and> hc_active (snd (http_box_destroy s)) = []"
proof (intro conjI)
  note fol = http_box_reach [OF assms(1)]
  then have inv: "http_inv s" by (rule http_followsE)
  from http_follows_open [OF fol] assms(2) have o: "\<forall>n < de_promises (hd_promises d). de_results (hd_promises d) n = None \<longrightarrow>
      (\<exists>a \<in> set (hc_active s). \<exists>p. de_pending (hd_promises d) (ha_queryID a) = Some p \<and> pe_promise p = n)"
    "\<forall>n < de_promises (hd_promises d). delegate_destroy (hd_promises d) n \<noteq> None" by (metis option.inject)+
  from o(1) assms(2,3) show "http_future n s = None \<longrightarrow> (\<exists>a \<in> set (hc_active s). \<exists>p. de_pending (hd_promises d) (ha_queryID a) = Some p \<and> pe_promise p = n)"
    by (simp add: http_future_def)
  have "http_inv (s\<lparr>hc_handler := None\<rparr>)" using inv by (simp add: http_inv_def http_addrs_def)
  with o(2) assms(2,3) show "fst (http_box_destroy s) n \<noteq> None" "hc_active (snd (http_box_destroy s)) = []"
    by (simp_all add: http_box_destroy_def http_destroy_def http_cancelAll_empties(1))
  show "http_future n (http_cancelAll Http_Delegate_handler s) \<noteq> None"
    using http_cancelAll_settles [OF fol assms(2,3)] .
qed

text \<open>
  C22. A request whose action is new, or is reused after a response that was not recorded as complete, has its
  response delivered: the future has no result while the pieces read so far make no complete response, and with the piece that
  completes it, it has all the bytes read; the action is back in the pool.
\<close>

theorem http_response_delivered:
  assumes "http_box_step\<^sup>*\<^sup>* http_box_make s" "hc_nextQueryID s \<notin> ha_queryID ` set (hc_active s)"
    and "http_box_request made req s = (Inr n, s1)" "addr = ha_addr (hd (hc_active s1))"
    and "\<forall>a \<in> set (hc_idle s). \<not> mc_complete (ha_completion a)"
    and "\<forall>k \<le> length ps. \<not> response_complete (concat (take k ps))" "response_complete (concat ps @ p)"
  shows "\<exists>s2 s3. http_run addr (Inr (c, x) # Inr y # map (\<lambda>p. Inr (c, p)) ps) s1 = (Inr (), s2) \<and> http_future n s2 = None \<and>
    http_complete Http_Delegate_handler addr (Inr (c, p)) s2 = (Inr (), s3) \<and>
    http_future n s3 = Some (Inr (Some \<lparr>m_header = [], m_body = concat ps @ p\<rparr>)) \<and>
    addr \<notin> ha_addr ` set (hc_active s3) \<and> addr \<in> ha_addr ` set (hc_idle s3)"
proof -
  from http_box_request_state [OF http_box_reach [OF assms(1)] assms(2,3)] obtain a idle d q where
    a: "http_allocate made (hc_idle s) = Inr (a, idle)" "hc_active s1 = a\<lparr>ha_queryID := q, ha_state := H_CONNECT, ha_req := Some req\<rparr> # hc_active s"
    and d: "hc_handler s1 = Some d" "de_pending (hd_promises d) q = Some \<lparr>pe_sent = False, pe_promise = n\<rparr>" "de_results (hd_promises d) n = None" .
  let ?a = "a\<lparr>ha_queryID := q, ha_state := H_CONNECT, ha_req := Some req\<rparr>"
  have addr: "ha_addr a = addr" using assms(4) a(2) by simp
  have "\<not> mc_complete (ha_completion a)"
    using a(1) assms(5) by (auto simp: http_allocate_def no_completion_def split: list.splits sum.splits)
  with http_starts_reading [OF a(2) _ _ _ d(1,2), of c x y] addr obtain s' a' d' where
    s': "http_run addr [Inr (c, x), Inr y] s1 = (Inr (), s')" "find (\<lambda>b. ha_addr b = addr) (hc_active s') = Some a'"
    "reading q [] a'" "hc_handler s' = Some d'" "hd_promises d' = delegate_sent q (hd_promises d)" by auto
  from http_reads_all [OF s'(2-4), of ps c] assms(6) obtain s2 a2 where
    s2: "http_run addr (map (\<lambda>p. Inr (c, p)) ps) s' = (Inr (), s2)" "find (\<lambda>b. ha_addr b = addr) (hc_active s2) = Some a2"
    "reading q (concat ps) a2" "hc_handler s2 = Some d'" by auto
  have "de_pending (hd_promises d') q = Some \<lparr>pe_sent = True, pe_promise = n\<rparr>" using d(2) s'(5) by (simp add: delegate_sent_def)
  from http_reads_last [OF s2(2-4) assms(7) this, of c] obtain s3 a3 where
    s3: "http_complete Http_Delegate_handler addr (Inr (c, p)) s2 = (Inr (), s3)"
    "http_future n s3 = Some (Inr (Some \<lparr>m_header = [], m_body = concat ps @ p\<rparr>))" "hc_active s3 = http_erase addr (hc_active s2)"
    "hc_idle s3 = hc_idle s2 @ [a3]" "ha_addr a3 = addr" by (metis Pending.simps(2))
  have "http_run addr (Inr (c, x) # Inr y # map (\<lambda>p. Inr (c, p)) ps) s1 = (Inr (), s2)"
    using http_run_append [of addr "[Inr (c, x), Inr y]" "map (\<lambda>p. Inr (c, p)) ps" s1] s'(1) s2(1) by simp
  moreover have "http_future n s2 = None" using s2(4) s'(5) d(2,3) by (simp add: http_future_def delegate_sent_def)
  moreover have "addr \<notin> ha_addr ` set (hc_active s3)" "addr \<in> ha_addr ` set (hc_idle s3)" using s3(3-5) by auto
  ultimately show ?thesis using s3(1,2) by blast
qed

text \<open>
  C40. An action that is reused keeps the record of its last response. If that was complete, the next request over it is
  answered with no message as soon as it is connected, and the request is never written.
\<close>

theorem http_reused_action:
  assumes "http_box_step\<^sup>*\<^sup>* http_box_make s" "hc_nextQueryID s \<notin> ha_queryID ` set (hc_active s)"
    and "hc_idle s = a # idle" "mc_complete (ha_completion a)" "http_box_request made req s = (Inr n, s1)"
  shows "\<exists>s2 a'. http_complete Http_Delegate_handler (ha_addr a) (Inr (c, x)) s1 = (Inr (), s2) \<and> http_future n s2 = Some (Inr None) \<and>
    hc_active s2 = hc_active s \<and> hc_idle s2 = idle @ [a'] \<and> ha_addr a' = ha_addr a \<and> mc_complete (ha_completion a')"
proof -
  note fol = http_box_reach [OF assms(1)]
  then have inv: "http_inv s" by (rule http_followsE)
  from http_box_request_state [OF fol assms(2,5)] obtain b idle' d q where
    b: "http_allocate made (hc_idle s) = Inr (b, idle')"
    "hc_active s1 = b\<lparr>ha_queryID := q, ha_state := H_CONNECT, ha_req := Some req\<rparr> # hc_active s" "hc_idle s1 = idle'"
    and d: "hc_handler s1 = Some d" "de_pending (hd_promises d) q = Some \<lparr>pe_sent = False, pe_promise = n\<rparr>" .
  with assms(3) have a: "hc_active s1 = a\<lparr>ha_queryID := q, ha_state := H_CONNECT, ha_req := Some req\<rparr> # hc_active s" "hc_idle s1 = idle"
    by (simp_all add: http_allocate_def)
  let ?d = "http_delegate_recv q None (d\<lparr>hd_connected := True\<rparr>)"
  let ?a = "a\<lparr>ha_queryID := q, ha_conn := None, ha_req := None, ha_res := None, ha_state := H_IDLE\<rparr>"
  let ?s2 = "s1\<lparr>hc_handler := Some ?d, hc_active := http_erase (ha_addr a) (hc_active s1), hc_idle := idle @ [?a]\<rparr>"
  have res: "ha_res a = None" using inv assms(3) by (simp add: http_inv_def http_action_rests_def)
  have run: "http_complete Http_Delegate_handler (ha_addr a) (Inr (c, x)) s1 = (Inr (), ?s2)"
    using a d(1) assms(4) res
    by (simp add: http_complete_def http_callback_def http_take_def http_finish_def http_advance_def Let_def)
  have "ha_addr a \<notin> set (map ha_addr (hc_active s))" using inv assms(3) by (auto simp: http_inv_def http_addrs_def)
  then have "http_erase (ha_addr a) (hc_active s1) = hc_active s" by (simp add: a(1) http_erase_def filter_id_conv) (metis image_eqI)
  moreover have "http_future n ?s2 = Some (Inr None)"
    using d(2) by (simp add: http_future_def http_delegate_recv_def delegate_recv_def delegate_settle_def)
  ultimately show ?thesis using run assms(4) by (intro exI [of _ ?s2] exI [of _ ?a]) simp
qed

section \<open>Instances\<close>

text \<open>A response with a length in its header is complete as soon as its body has that length.\<close>

lemma response_with_length:
  assumes "protocol_valid p" "0 < s" "s \<le> 999" "\<not> ContainsNewline r" "length r \<le> MAX_REASON_LENGTH"
    and "\<not> protocol_valid (protocol_Parse (takeWhile (\<lambda>c. c \<noteq> SP) r))"
    and "n < 2 ^ 63" "length (msg_head (reply_line p s r) (preferred_newline p) [(''Content-Length'', dec_string n)]) \<le> 65535" "length body < 2 ^ 63"
  shows "response_complete (msg_head (reply_line p s r) (preferred_newline p) [(''Content-Length'', dec_string n)] @ body) \<longleftrightarrow> n \<le> length body"
proof -
  let ?line = "reply_line p s r" and ?nl = "preferred_newline p" and ?f = "(''Content-Length'', dec_string n)"
  note words = reply_words [OF assms(1,4-6)]
  have ok: "list_all field_ok [?f]" using no_newline_padded_digits [of n 0] by (simp add: field_ok_def)
  have len: "length (msg_head ?line ?nl [?f] @ body) < 2 ^ 64" using assms(8,9) by simp
  have "parsed_type REPLY ?line = REPLY" by simp
  then obtain v where v: "msgview_make parse_reset (Some \<lparr>m_header = [], m_body = msg_head ?line ?nl [?f] @ body\<rparr>) REPLY = Inr v"
    "mv_headers v = map field_view [?f]" "mv_bodySize v = length body"
    by (rule view_reply [OF preferred_newline_cases ok refl refl assms(8) len words(1-5) assms(5)])
  have "value_dec (field_view ?f) 0 = int n"
    by (rule value_dec_dec_string) (use assms(7) trim_padded_digits [of n 0] in \<open>simp_all add: field_view_def\<close>)
  with completion_length(3) [of v "[]" "field_view ?f" "[]" n] v(2,3) assms(7)
  have "mc_complete (completion v) \<longleftrightarrow> n \<le> length body" by (simp add: header_is_iff field_view_def)
  with v(1) show ?thesis by (simp add: response_complete_def msgview_reply_def)
qed

definition example_head :: string where
  "example_head = msg_head (reply_line Http OK ''OK'') (preferred_newline Http) [(''Content-Length'', dec_string 2)]"

lemma example_response: "length body < 100 \<Longrightarrow> response_complete (example_head @ body) \<longleftrightarrow> 2 \<le> length body"
  unfolding example_head_def
  by (rule response_with_length)
    (simp_all add: protocol_valid_def ContainsNewline_def protocol_Parse_def msg_head_def preferred_newline_def field_line_def
      status_toString_def)

lemma no_response: "\<not> response_complete []"
  by code_simp

definition example_http_request :: nng_msg where
  "example_http_request = \<lparr>m_header = [], m_body = ''GET / HTTP/1.1''\<rparr>"

definition example_requested :: "nat result \<times> Http_Delegate HttpClient" where
  "example_requested = http_box_request (Inr 5) example_http_request http_box_make"

lemma http_box_make_simps [simp]: "hc_handler http_box_make = Some http_delegate_new" "hc_nextQueryID http_box_make = 0"
  "hc_active http_box_make = []" "hc_idle http_box_make = []"
  by (simp_all add: http_box_make_def http_make_def http_initialize_def)

lemma example_requested: "example_requested = (Inr 0, http_box_make\<lparr>
    hc_handler := Some \<lparr>hd_promises = snd (getFuture 0 (snd (delegate_prep 0 example_http_request delegate_new))), hd_connected = False\<rparr>,
    hc_nextQueryID := 1, hc_active := [\<lparr>ha_addr = 5, ha_queryID = 0, ha_state = H_CONNECT, ha_req = Some example_http_request, ha_res = None,
      ha_conn = None, ha_completion = no_completion\<rparr>]\<rparr>)"
  by (simp add: example_requested_def http_box_request_def http_request_def http_allocate_def http_box_future_def http_getFuture_def
      http_delegate_prep_def delegate_prep_def getFuture_def http_delegate_new_def delegate_new_def Let_def)

lemma http_run_reach: "http_run addr rs s = (Inr (), s') \<Longrightarrow> http_box_step\<^sup>*\<^sup>* s s'"
proof (induction rs arbitrary: s)
  case (Cons r rs)
  then obtain s1 where "http_complete Http_Delegate_handler addr r s = (Inr (), s1)" "http_run addr rs s1 = (Inr (), s')"
    by (auto split: prod.splits sum.splits)
  with Cons.IH show ?case by (blast intro: converse_rtranclp_into_rtranclp http_box_step.step http_step.complete)
qed simp

lemma http_box_request_reach:
  assumes "http_box_request made req s = (Inr n, s')" "\<forall>addr. made = Inr addr \<longrightarrow> addr \<notin> set (http_addrs s)"
    and "hc_nextQueryID s \<notin> ha_queryID ` set (hc_active s)"
  shows "http_box_step\<^sup>*\<^sup>* s s'"
proof -
  obtain q s0 where r: "http_request Http_Delegate_handler made req s = (Inr q, s0)" "http_box_future q s0 = (Inr n, s')"
    using assms(1) by (auto simp: http_box_request_def split: prod.splits sum.splits)
  have "http_box_step s s0" using http_box_step.step [OF http_step.request [OF assms(2,3), of Http_Delegate_handler req]] r(1) by simp
  moreover have "http_box_step s0 s'" using http_box_step.future [of s0 q] r(2) by simp
  ultimately show ?thesis by (meson converse_rtranclp_into_rtranclp r_into_rtranclp)
qed

lemma example_reach: "http_box_step\<^sup>*\<^sup>* http_box_make (snd example_requested)"
  by (rule http_box_request_reach [of "Inr 5" example_http_request _ 0])
    (simp_all add: example_requested [unfolded example_requested_def] example_requested http_addrs_def)

text \<open>After a first response the action is in the pool, with the record of it.\<close>

lemma example_answered:
  obtains s a where "http_box_step\<^sup>*\<^sup>* http_box_make s" "hc_active s = []" "hc_idle s = [a]" "ha_addr a = 5" "mc_complete (ha_completion a)"
    "hc_nextQueryID s = 1" "\<exists>d. hc_handler s = Some d"
proof -
  define s0 where "s0 = snd example_requested"
  define d where "d = the (hc_handler s0)"
  let ?a = "\<lparr>ha_addr = 5, ha_queryID = 0, ha_state = H_RECV, ha_req = None, ha_res = Some \<lparr>m_header = [], m_body = []\<rparr>, ha_conn = Some 1, ha_completion = no_completion\<rparr>"
  let ?d = "http_delegate_sent 0 (d\<lparr>hd_connected := True\<rparr>)"
  let ?s = "s0\<lparr>hc_handler := Some ?d, hc_active := [?a]\<rparr>"
  have s0: "hc_handler s0 = Some d" "hc_idle s0 = []" "hc_nextQueryID s0 = 1" "de_pending (hd_promises ?d) 0 = Some \<lparr>pe_sent = True, pe_promise = 0\<rparr>"
    "hc_active s0 = [\<lparr>ha_addr = 5, ha_queryID = 0, ha_state = H_CONNECT, ha_req = Some example_http_request, ha_res = None, ha_conn = None, ha_completion = no_completion\<rparr>]"
    by (simp_all add: d_def s0_def example_requested http_delegate_sent_def delegate_sent_def getFuture_def delegate_prep_def delegate_new_def Let_def)
  have run: "http_run 5 [Inr (1, []), Inr (1, [])] s0 = (Inr (), ?s)"
    using s0(1) by (simp add: s0(5) http_complete_def http_callback_def http_take_def http_advance_def http_set_def no_completion_def Let_def)
  have rd: "reading 0 [] ?a" "find (\<lambda>b. ha_addr b = 5) (hc_active ?s) = Some ?a" "response_complete ([] @ example_head @ ''ok'')" "hc_handler ?s = Some ?d"
    using example_response [of "''ok''"] by (simp_all add: reading_def no_completion_def)
  from http_reads_last [OF rd(2,1,4,3) s0(4), of 1] obtain s' a' where
    s': "http_complete Http_Delegate_handler 5 (Inr (1, example_head @ ''ok'')) ?s = (Inr (), s')"
    "http_future (pe_promise \<lparr>pe_sent = True, pe_promise = 0\<rparr>) s' = Some (Inr (Some \<lparr>m_header = [], m_body = [] @ example_head @ ''ok''\<rparr>))"
    "hc_active s' = http_erase 5 (hc_active ?s)" "hc_idle s' = hc_idle ?s @ [a']" "ha_addr a' = 5" "mc_complete (ha_completion a')"
    "hc_nextQueryID s' = hc_nextQueryID ?s" .
  have "http_box_step\<^sup>*\<^sup>* http_box_make ?s" using rtranclp_trans [OF example_reach [folded s0_def] http_run_reach [OF run]] .
  then have reach: "http_box_step\<^sup>*\<^sup>* http_box_make s'" by (rule rtranclp.rtrancl_into_rtrancl) (rule http_box_step.step, rule http_step.complete, rule s'(1))
  moreover have "hc_active s' = []" "hc_idle s' = [a']" "hc_nextQueryID s' = 1" using s'(3,4,7) s0(2,3) by (simp_all add: http_erase_def)
  moreover have "\<exists>d. hc_handler s' = Some d" using s'(2) by (auto simp: http_future_def split: option.splits)
  ultimately show thesis by (intro that [of s' a']) (simp_all add: s'(5,6))
qed

lemma http_box_request_ok:
  assumes "http_follows s" "hc_nextQueryID s \<notin> ha_queryID ` set (hc_active s)"
  shows "\<exists>n s'. http_box_request (Inr addr) req s = (Inr n, s')"
proof -
  from assms(1) obtain d f where d: "http_inv s" "hc_handler s = Some d" "delegate_agrees f (hd_promises d)"
    "\<forall>q. f q \<noteq> IDLE \<longleftrightarrow> q \<in> ha_queryID ` set (hc_active s)" by (rule http_followsE)
  let ?q = "hc_nextQueryID s"
  have "f ?q = IDLE" using d(4) assms(2) by auto
  obtain P where P: "delegate_prep ?q req (hd_promises d) = (Inr (Some req), P)" "de_newQueryID P = ?q" by (auto simp: delegate_prep_def Let_def)
  from agrees_prep [OF d(3) \<open>f ?q = IDLE\<close>, of req] P(1) have p: "de_pending P ?q \<noteq> None" by simp
  obtain a idle where a: "http_allocate (Inr addr) (hc_idle s) = Inr (a, idle)" by (cases "hc_idle s") (auto simp: http_allocate_def)
  from d(2) a P(1) have "http_request Http_Delegate_handler (Inr addr) req s = (Inr ?q, s\<lparr>hc_nextQueryID := ?q + 1,
      hc_handler := Some (d\<lparr>hd_promises := P\<rparr>), hc_idle := idle,
      hc_active := a\<lparr>ha_queryID := ?q, ha_state := H_CONNECT, ha_req := Some req\<rparr> # hc_active s\<rparr>)"
    by (simp add: http_request_def http_delegate_prep_def Let_def)
  with p P(2) show ?thesis by (auto simp: http_box_request_def http_box_future_def http_getFuture_def getFuture_def)
qed

theorem http_pool_witness:
  "\<exists>s. (http_life Http_Delegate_handler)\<^sup>*\<^sup>* (http_make None) s \<and> length (hc_active s) = 1 \<and>
    distinct (map ha_addr (hc_active s) @ map ha_addr (hc_idle s)) \<and> hc_active (http_cancelAll Http_Delegate_handler s) = []"
proof -
  let ?s = "snd (http_request Http_Delegate_handler (Inr 5) example_http_request http_box_make)"
  have "(http_life Http_Delegate_handler)\<^sup>*\<^sup>* (http_make None) http_box_make"
    unfolding http_box_make_def by (rule r_into_rtranclp) (rule http_life.install)
  then have reach: "(http_life Http_Delegate_handler)\<^sup>*\<^sup>* (http_make None) ?s"
    by (rule rtranclp.rtrancl_into_rtrancl) (rule http_life.step, rule http_step.request, simp_all add: http_addrs_def)
  moreover have "length (hc_active ?s) = 1"
    by (simp add: http_request_def http_allocate_def http_delegate_prep_def delegate_prep_def http_delegate_new_def delegate_new_def Let_def)
  ultimately show ?thesis using http_pool [OF reach] by blast
qed

theorem http_promises_settled_witness:
  "http_future 0 (snd example_requested) = None \<and> http_future 0 (http_cancelAll Http_Delegate_handler (snd example_requested)) \<noteq> None \<and>
    fst (http_box_destroy (snd example_requested)) 0 \<noteq> None"
proof -
  obtain d where d: "hc_handler (snd example_requested) = Some d" "0 < de_promises (hd_promises d)" "de_results (hd_promises d) 0 = None"
    by (simp add: example_requested getFuture_def delegate_prep_def delegate_new_def Let_def)
  from http_promises_settled [OF example_reach d(1,2)] d show ?thesis by (simp add: http_future_def)
qed

theorem http_response_delivered_witness:
  "\<exists>s2 s3. http_run 5 [Inr (1, []), Inr (1, []), Inr (1, example_head @ ''o'')] (snd example_requested) = (Inr (), s2) \<and> http_future 0 s2 = None \<and>
    http_complete Http_Delegate_handler 5 (Inr (1, ''k'')) s2 = (Inr (), s3) \<and>
    http_future 0 s3 = Some (Inr (Some \<lparr>m_header = [], m_body = example_head @ ''ok''\<rparr>))"
proof -
  let ?ps = "[example_head @ ''o'']"
  have part: "\<not> response_complete (example_head @ ''o'')" "response_complete (example_head @ ''ok'')"
    using example_response [of "''o''"] example_response [of "''ok''"] by simp_all
  have parts: "\<forall>k \<le> length ?ps. \<not> response_complete (concat (take k ?ps))"
  proof (intro allI impI)
    fix k assume "k \<le> length ?ps"
    then consider "k = 0" | "k = 1" by fastforce
    then show "\<not> response_complete (concat (take k ?ps))" using part(1) no_response by cases simp_all
  qed
  have whole: "response_complete (concat ?ps @ ''k'')" using part(2) by simp
  have r: "http_box_request (Inr 5) example_http_request http_box_make = (Inr 0, snd example_requested)"
    using example_requested by (simp add: example_requested_def)
  have addr: "5 = ha_addr (hd (hc_active (snd example_requested)))" by (simp add: example_requested)
  have "hc_nextQueryID http_box_make \<notin> ha_queryID ` set (hc_active http_box_make)" "\<forall>a \<in> set (hc_idle http_box_make). \<not> mc_complete (ha_completion a)" by simp_all
  from http_response_delivered [OF rtranclp.rtrancl_refl this(1) r addr this(2) parts whole, of 1 "[]" "(1, [])"] show ?thesis
    unfolding list.map concat.simps append_Nil2 append_assoc append_Cons append_Nil by blast
qed

theorem http_reused_action_witness:
  "\<exists>s s1 s2 n. http_box_request (Inr 6) example_http_request s = (Inr n, s1) \<and>
    http_complete Http_Delegate_handler 5 (Inr (1, [])) s1 = (Inr (), s2) \<and> http_future n s2 = Some (Inr None)"
proof -
  obtain s a where s: "http_box_step\<^sup>*\<^sup>* http_box_make s" "hc_active s = []" "hc_idle s = [a]" "ha_addr a = 5" "mc_complete (ha_completion a)"
    "hc_nextQueryID s = 1" "\<exists>d. hc_handler s = Some d" by (rule example_answered)
  have "hc_nextQueryID s \<notin> ha_queryID ` set (hc_active s)" using s(2) by simp
  then obtain n s1 where r: "http_box_request (Inr 6) example_http_request s = (Inr n, s1)"
    using http_box_request_ok [OF http_box_reach [OF s(1)]] by blast
  with http_reused_action [OF s(1) _ s(3,5) r, of 1 "[]"] s(2,4) show ?thesis by auto
qed

end
