(* ===== verification/Life_Lock.thy ===== *)
theory Life_Lock
  imports Msg_Util
begin

text \<open>
  Lifetimes: \<open>thirdparty/include/life_lock.hpp\<close>, with the standard implementation and without the waiting of
  C++20, as the project is built. An object that other threads call back has a \<open>life_lock\<close>; the threads hold
  weak pointers, and lock them for the time of a call. Destruction waits until no strong pointer is left.
\<close>

section \<open>The lock\<close>

datatype status_t = life_empty | life_expired | life_retired | life_working

text \<open>
  A control block of shared pointers has a number and a count of strong references. The reference \<open>_ref\<close> is one
  to the newest block, or null. When the last reference to a block is gone its deleter is run, by the thread
  that released it: until then the block is in \<open>ll_deleting\<close>.
\<close>

record life_lock =
  ll_ref :: bool
  ll_status :: status_t
  ll_block :: nat
  ll_count :: "nat \<Rightarrow> nat"
  ll_deleting :: "nat set"

definition life_lock_empty :: life_lock where
  "life_lock_empty = \<lparr>ll_ref = False, ll_status = life_empty, ll_block = 0, ll_count = (\<lambda>_. 0), ll_deleting = {}\<rparr>"

definition make_ref :: "'a life_lock_scheme \<Rightarrow> 'a life_lock_scheme" where
  "make_ref s = s\<lparr>ll_ref := True, ll_block := ll_block s + 1, ll_count := (ll_count s)(ll_block s + 1 := 1)\<rparr>"

definition life_lock_make :: life_lock where
  "life_lock_make = (make_ref life_lock_empty)\<lparr>ll_status := life_working\<rparr>"

definition use_count :: "'a life_lock_scheme \<Rightarrow> nat" where
  "use_count s = (if ll_ref s then ll_count s (ll_block s) else 0)"

definition life_status :: "'a life_lock_scheme \<Rightarrow> status_t" where
  "life_status s = (case ll_status s of
      life_retired \<Rightarrow> life_retired
    | life_expired \<Rightarrow> life_expired
    | _ \<Rightarrow> if use_count s \<noteq> 0 then life_working else life_empty)"

definition life_init :: "'a life_lock_scheme \<Rightarrow> 'a life_lock_scheme" where
  "life_init s = (if life_status s = life_empty then make_ref s else s)"

definition is_working :: "'a life_lock_scheme \<Rightarrow> bool" where
  "is_working s \<longleftrightarrow> life_status s = life_working"

section \<open>References\<close>

text \<open>A weak pointer names a block, or none. Locking it fails when no strong reference is left.\<close>

definition life_weak :: "'a life_lock_scheme \<Rightarrow> nat option" where
  "life_weak s = (if ll_ref s then Some (ll_block s) else None)"

definition weak_lock :: "nat option \<Rightarrow> 'a life_lock_scheme \<Rightarrow> bool \<times> 'a life_lock_scheme" where
  "weak_lock w s = (case w of
      None \<Rightarrow> (False, s)
    | Some b \<Rightarrow> if ll_count s b = 0 then (False, s) else (True, s\<lparr>ll_count := (ll_count s)(b := ll_count s b + 1)\<rparr>))"

text \<open>
  \<open>lock\<close> makes a strong pointer to the object that shares the reference: the object, with the block that it keeps alive, if any.
\<close>

definition life_shared :: "'t \<Rightarrow> 'a life_lock_scheme \<Rightarrow> ('t \<times> nat option) \<times> 'a life_lock_scheme" where
  "life_shared p s = ((p, life_weak s), snd (weak_lock (life_weak s) s))"

definition shared_release :: "nat \<Rightarrow> 'a life_lock_scheme \<Rightarrow> 'a life_lock_scheme" where
  "shared_release b s = s\<lparr>ll_count := (ll_count s)(b := ll_count s b - 1),
     ll_deleting := (if ll_count s b = 1 then insert b (ll_deleting s) else ll_deleting s)\<rparr>"

definition life_deleter :: "nat \<Rightarrow> 'a life_lock_scheme \<Rightarrow> 'a life_lock_scheme" where
  "life_deleter b s = s\<lparr>ll_status := life_expired, ll_deleting := ll_deleting s - {b}\<rparr>"

text \<open>\<open>_retire\<close> moves the reference out; the caller releases it.\<close>

definition life_retire :: "'a life_lock_scheme \<Rightarrow> nat option \<times> 'a life_lock_scheme" where
  "life_retire s = (if ll_ref s then (Some (ll_block s), s\<lparr>ll_ref := False, ll_status := life_retired\<rparr>) else (None, s))"

definition life_finalize :: "'a life_lock_scheme \<Rightarrow> 'a life_lock_scheme" where
  "life_finalize s = s\<lparr>ll_status := life_empty\<rparr>"

section \<open>Waiting\<close>

text \<open>
  \<open>_await_expiration\<close> over the values that it loads one after another: first it spins, then it sleeps for
  doubling periods. The result is the number of rounds and the periods slept; \<open>None\<close> is that it still waits when the values are used up.
\<close>

abbreviation SPIN_COUNT :: nat where "SPIN_COUNT \<equiv> 40"

abbreviation SLEEP_MAX_USEC :: nat where "SLEEP_MAX_USEC \<equiv> 100000"

fun await_sleep :: "nat \<Rightarrow> nat \<Rightarrow> status_t list \<Rightarrow> (nat \<times> nat list) option" where
  "await_sleep n usec [] = None"
| "await_sleep n usec (w # ws) =
    (if w = life_expired then Some (n, [])
     else let usec' = usec * 2; usec' = (if usec' > SLEEP_MAX_USEC then SLEEP_MAX_USEC else usec')
          in map_option (apsnd ((#) usec)) (await_sleep (n + 1) usec' ws))"

fun await_spin :: "nat \<Rightarrow> status_t list \<Rightarrow> (nat \<times> nat list) option" where
  "await_spin n [] = None"
| "await_spin n (w # ws) =
    (if n < SPIN_COUNT
     then (if w = life_expired then Some (n + 1, []) else await_spin (n + 1) ws)
     else await_sleep (n + 1) 1 (w # ws))"

definition await_expiration :: "status_t list \<Rightarrow> ((nat \<times> nat list) option) result" where
  "await_expiration obs = (case obs of
      [] \<Rightarrow> Inr None
    | life_working # _ \<Rightarrow> Inl (StdExn ''Invalid state for awaiting expiration'')
    | life_retired # obs \<Rightarrow> Inr (await_spin 1 obs)
    | _ # _ \<Rightarrow> Inr (Some (0, [])))"

section \<open>A protected object\<close>

text \<open>
  \<open>life_locked\<close>: an object with its lock, and the place of its owner in \<open>destroy\<close>: before the release of
  the reference that was retired, before the first look at the status, waiting, before the last assignment, and before the destructor of the object.
  \<open>lk_then\<close> is whether the destructor of the object follows. \<open>lk_holders\<close> counts the strong pointers that
  other threads have.
\<close>

datatype owner_at = at_rest | at_release nat | at_await | at_wait | at_finalize | at_object

record life_locked = life_lock +
  lk_alive :: bool
  lk_at :: owner_at
  lk_then :: bool
  lk_holders :: "nat \<Rightarrow> nat"

definition life_locked_make :: life_locked where
  "life_locked_make = life_lock.extend life_lock_make \<lparr>lk_alive = True, lk_at = at_rest, lk_then = False, lk_holders = (\<lambda>_. 0)\<rparr>"

definition life_locked_none :: life_locked where
  "life_locked_none = life_lock.extend life_lock_empty \<lparr>lk_alive = False, lk_at = at_rest, lk_then = False, lk_holders = (\<lambda>_. 0)\<rparr>"

definition has_value :: "life_locked \<Rightarrow> bool" where
  "has_value s = is_working s"

text \<open>
  The object as its users get at it: null unless the lock works. \<open>p\<close> is the address of the object; \<open>lock\<close> passes on what \<open>raw_ptr\<close> gives.
\<close>

definition raw_ptr :: "'t \<Rightarrow> life_locked \<Rightarrow> 't option" where
  "raw_ptr p s = (if is_working s then Some p else None)"

definition life_locked_lock :: "'t \<Rightarrow> life_locked \<Rightarrow> ('t option \<times> nat option) \<times> life_locked" where
  "life_locked_lock p s = life_shared (raw_ptr p s) s"

text \<open>\<open>life_lock::destroy\<close>, one access to shared state at a time; with \<open>obj\<close>, the destructor of the object follows.\<close>

definition life_ends :: "life_locked \<Rightarrow> life_locked" where
  "life_ends s = s\<lparr>lk_at := if lk_then s then at_object else at_rest\<rparr>"

definition life_destroy :: "bool \<Rightarrow> life_locked \<Rightarrow> life_locked" where
  "life_destroy obj s = (let s = s\<lparr>lk_then := obj\<rparr> in case life_status s of
      life_working \<Rightarrow> (case life_retire s of
          (None, s) \<Rightarrow> s\<lparr>lk_at := at_await\<rparr>
        | (Some b, s) \<Rightarrow> s\<lparr>lk_at := at_release b\<rparr>)
    | life_retired \<Rightarrow> s\<lparr>lk_at := at_await\<rparr>
    | life_expired \<Rightarrow> s\<lparr>lk_at := at_finalize\<rparr>
    | life_empty \<Rightarrow> life_ends s)"

definition life_continue :: "life_locked \<Rightarrow> life_locked result" where
  "life_continue s = (case lk_at s of
      at_rest \<Rightarrow> Inr s
    | at_release b \<Rightarrow> Inr ((shared_release b s)\<lparr>lk_at := at_await\<rparr>)
    | at_await \<Rightarrow> (case ll_status s of
          life_working \<Rightarrow> Inl (StdExn ''Invalid state for awaiting expiration'')
        | life_retired \<Rightarrow> Inr (s\<lparr>lk_at := at_wait\<rparr>)
        | _ \<Rightarrow> Inr (s\<lparr>lk_at := at_finalize\<rparr>))
    | at_wait \<Rightarrow> Inr (if ll_status s = life_expired then s\<lparr>lk_at := at_finalize\<rparr> else s)
    | at_finalize \<Rightarrow> Inr (life_ends (life_finalize s))
    | at_object \<Rightarrow> Inr (s\<lparr>lk_alive := False, lk_at := at_rest\<rparr>))"

definition life_locked_destroy :: "life_locked \<Rightarrow> life_locked" where
  "life_locked_destroy s = (if has_value s then life_destroy True s else s)"

definition life_locked_retire :: "life_locked \<Rightarrow> life_locked" where
  "life_locked_retire s =
    (if has_value s then (case life_retire s of (None, s) \<Rightarrow> s | (Some b, s) \<Rightarrow> shared_release b s) else s)"

section \<open>Runs\<close>

text \<open>
  What can happen, in any order: other threads lock weak pointers, release strong ones and run deleters, while
  the owner of the object retires, destroys, or initializes its lock, one step after another.
\<close>

inductive life_step :: "life_locked \<Rightarrow> life_locked \<Rightarrow> bool" where
  lock: "weak_lock (Some b) s = (True, s') \<Longrightarrow> life_step s (s'\<lparr>lk_holders := (lk_holders s)(b := lk_holders s b + 1)\<rparr>)"
| release: "lk_holders s b > 0 \<Longrightarrow> life_step s ((shared_release b s)\<lparr>lk_holders := (lk_holders s)(b := lk_holders s b - 1)\<rparr>)"
| deleter: "b \<in> ll_deleting s \<Longrightarrow> life_step s (life_deleter b s)"
| init: "lk_at s = at_rest \<Longrightarrow> lk_alive s \<Longrightarrow> life_step s (life_init s)"
| retire: "lk_at s = at_rest \<Longrightarrow> life_step s (life_locked_retire s)"
| destroy: "lk_at s = at_rest \<Longrightarrow> life_step s (life_locked_destroy s)"
| destroy_lock: "lk_at s = at_rest \<Longrightarrow> life_step s (life_destroy False s)"
| continue: "life_continue s = Inr s' \<Longrightarrow> life_step s s'"

definition counts_ok :: "life_locked \<Rightarrow> bool" where
  "counts_ok s \<longleftrightarrow> (\<forall>b. ll_count s b = lk_holders s b + (if ll_ref s \<and> b = ll_block s then 1 else 0) + (if lk_at s = at_release b then 1 else 0)) \<and>
    (\<forall>b. b \<noteq> ll_block s \<longrightarrow> ll_count s b = 0) \<and> ll_deleting s \<subseteq> {ll_block s} \<and> (ll_deleting s \<noteq> {} \<longrightarrow> ll_count s (ll_block s) = 0)"

fun at_ok :: "owner_at \<Rightarrow> nat \<Rightarrow> status_t \<Rightarrow> bool" where
  "at_ok at_rest blk w = True"
| "at_ok (at_release b) blk w = (b = blk \<and> w = life_retired)"
| "at_ok at_await blk w = (w \<in> {life_retired, life_expired})"
| "at_ok at_wait blk w = (w \<in> {life_retired, life_expired})"
| "at_ok at_finalize blk w = (w = life_expired)"
| "at_ok at_object blk w = (w = life_empty)"

definition status_ok :: "life_locked \<Rightarrow> bool" where
  "status_ok s \<longleftrightarrow>
    (if ll_ref s then ll_status s \<in> {life_working, life_empty} \<and> ll_deleting s = {} \<and> lk_at s = at_rest \<and> lk_alive s
     else if ll_count s (ll_block s) > 0 \<or> ll_deleting s \<noteq> {} then ll_status s = life_retired
     else ll_status s \<in> {life_expired, life_empty}) \<and>
    at_ok (lk_at s) (ll_block s) (ll_status s) \<and> (\<not> lk_alive s \<longrightarrow> ll_status s = life_empty)"

definition life_inv :: "life_locked \<Rightarrow> bool" where
  "life_inv s \<longleftrightarrow> counts_ok s \<and> status_ok s"

lemma life_inv_make: "life_inv life_locked_make" "life_inv life_locked_none"
  by (simp_all add: life_inv_def counts_ok_def status_ok_def life_locked_make_def life_locked_none_def life_lock_make_def
      life_lock_empty_def make_ref_def life_lock.defs)

lemma life_invI:
  assumes "\<And>b. ll_count s b = lk_holders s b + (if ll_ref s \<and> b = ll_block s then 1 else 0) + (if lk_at s = at_release b then 1 else 0)"
    "\<And>b. b \<noteq> ll_block s \<Longrightarrow> ll_count s b = 0" "ll_deleting s \<subseteq> {ll_block s}" "ll_deleting s \<noteq> {} \<Longrightarrow> ll_count s (ll_block s) = 0" "status_ok s"
  shows "life_inv s"
  using assms unfolding life_inv_def counts_ok_def by blast

lemma life_invD:
  assumes "life_inv s"
  shows "ll_count s b = lk_holders s b + (if ll_ref s \<and> b = ll_block s then 1 else 0) + (if lk_at s = at_release b then 1 else 0)"
    "b \<noteq> ll_block s \<Longrightarrow> ll_count s b = 0" "ll_deleting s \<subseteq> {ll_block s}" "ll_deleting s \<noteq> {} \<Longrightarrow> ll_count s (ll_block s) = 0" "status_ok s"
  using assms unfolding life_inv_def counts_ok_def by blast+

lemma life_inv_lock:
  assumes "life_inv s" "weak_lock (Some b) s = (True, s')"
  shows "life_inv (s'\<lparr>lk_holders := (lk_holders s)(b := lk_holders s b + 1)\<rparr>)"
proof -
  have b: "ll_count s b \<noteq> 0" "s' = s\<lparr>ll_count := (ll_count s)(b := ll_count s b + 1)\<rparr>"
    using assms(2) by (auto simp: weak_lock_def split: if_splits)
  note inv = life_invD [OF assms(1)]
  have blk: "b = ll_block s" using b(1) inv(2) [of b] by auto
  have del: "ll_deleting s = {}" using inv(4) b(1) blk by auto
  let ?s = "s'\<lparr>lk_holders := (lk_holders s)(b := lk_holders s b + 1)\<rparr>"
  show ?thesis
  proof (rule life_invI)
    show "status_ok ?s" using inv(5) b(1) blk unfolding b(2) by (auto simp: status_ok_def split: if_splits)
    fix c
    show "ll_count ?s c = lk_holders ?s c + (if ll_ref ?s \<and> c = ll_block ?s then 1 else 0) + (if lk_at ?s = at_release c then 1 else 0)"
      using inv(1) [of c] by (cases "c = b") (auto simp: b(2))
    show "c \<noteq> ll_block ?s \<Longrightarrow> ll_count ?s c = 0" using inv(2) [of c] blk by (simp add: b(2))
  qed (simp_all add: b(2) del)
qed

lemma life_inv_release:
  assumes "life_inv s" "lk_holders s b > 0"
  shows "life_inv ((shared_release b s)\<lparr>lk_holders := (lk_holders s)(b := lk_holders s b - 1)\<rparr>)"
proof -
  note inv = life_invD [OF assms(1)]
  have b: "ll_count s b \<noteq> 0" using assms(2) inv(1) [of b] by simp
  have blk: "b = ll_block s" using b inv(2) [of b] by auto
  have del: "ll_deleting s = {}" using inv(4) b(1) blk by auto
  let ?s = "(shared_release b s)\<lparr>lk_holders := (lk_holders s)(b := lk_holders s b - 1)\<rparr>"
  show ?thesis
  proof (rule life_invI)
    have "ll_ref s \<Longrightarrow> ll_count s b > 1" using inv(1) [of b] blk assms(2) by simp
    then show "status_ok ?s" using inv(5) b blk del by (auto simp: status_ok_def shared_release_def split: if_splits)
    fix c
    show "ll_count ?s c = lk_holders ?s c + (if ll_ref ?s \<and> c = ll_block ?s then 1 else 0) + (if lk_at ?s = at_release c then 1 else 0)"
      using inv(1) [of c] assms(2) by (cases "c = b") (auto simp: shared_release_def)
    show "c \<noteq> ll_block ?s \<Longrightarrow> ll_count ?s c = 0" using inv(2) [of c] blk by (simp add: shared_release_def)
  qed (use blk del in \<open>simp_all add: shared_release_def split: if_splits\<close>)
qed

lemma life_inv_deleter:
  assumes "life_inv s" "b \<in> ll_deleting s"
  shows "life_inv (life_deleter b s)"
proof -
  note inv = life_invD [OF assms(1)]
  have b: "b = ll_block s" "ll_deleting s = {b}" "ll_count s b = 0" using inv(3,4) assms(2) by auto
  show ?thesis
  proof (rule life_invI)
    show "status_ok (life_deleter b s)"
      using inv(5) b inv(1) [of b] by (cases "lk_at s") (auto simp: status_ok_def life_deleter_def split: if_splits)
    fix c
    show "ll_count (life_deleter b s) c = lk_holders (life_deleter b s) c +
        (if ll_ref (life_deleter b s) \<and> c = ll_block (life_deleter b s) then 1 else 0) + (if lk_at (life_deleter b s) = at_release c then 1 else 0)"
      using inv(1) [of c] by (simp add: life_deleter_def)
    show "c \<noteq> ll_block (life_deleter b s) \<Longrightarrow> ll_count (life_deleter b s) c = 0" using inv(2) [of c] by (simp add: life_deleter_def)
  qed (use b in \<open>simp_all add: life_deleter_def\<close>)
qed

lemma status_okI:
  assumes "if ll_ref s then ll_status s \<in> {life_working, life_empty} \<and> ll_deleting s = {} \<and> lk_at s = at_rest \<and> lk_alive s
     else if ll_count s (ll_block s) > 0 \<or> ll_deleting s \<noteq> {} then ll_status s = life_retired
     else ll_status s \<in> {life_expired, life_empty}"
    "at_ok (lk_at s) (ll_block s) (ll_status s)" "\<not> lk_alive s \<Longrightarrow> ll_status s = life_empty"
  shows "status_ok s"
  using assms unfolding status_ok_def by blast

lemma life_inv_status:
  assumes "life_inv s"
  shows "life_status s = (if ll_ref s then life_working else ll_status s)"
proof -
  note inv = life_invD [OF assms]
  have "ll_ref s \<Longrightarrow> ll_count s (ll_block s) \<noteq> 0" using inv(1) [of "ll_block s"] by simp
  with inv(5) show ?thesis by (auto simp: life_status_def use_count_def status_ok_def split: status_t.splits if_splits)
qed

lemma life_inv_init:
  assumes "life_inv s" "lk_at s = at_rest" "lk_alive s"
  shows "life_inv (life_init s)"
proof (cases "life_status s = life_empty")
  case True
  note inv = life_invD [OF assms(1)]
  have r: "\<not> ll_ref s" "ll_status s = life_empty" using True life_inv_status [OF assms(1)] by (auto split: if_splits)
  then have c: "ll_count s (ll_block s) = 0" "ll_deleting s = {}" using inv(5) by (auto simp: status_ok_def split: if_splits)
  have z: "ll_count s c = 0" for c using inv(2) [of c] c(1) by (cases "c = ll_block s") auto
  have h: "lk_holders s c = 0" for c using inv(1) [of c] z [of c] by simp
  have s': "life_init s = s\<lparr>ll_ref := True, ll_block := ll_block s + 1, ll_count := (ll_count s)(ll_block s + 1 := 1)\<rparr>"
    using True by (simp add: life_init_def make_ref_def)
  show ?thesis unfolding s' by (rule life_invI) (auto simp: z h c r assms status_ok_def)
qed (use assms in \<open>simp add: life_init_def\<close>)

lemma retire_release:
  assumes "life_inv s" "lk_at s = at_rest" "ll_ref s"
  shows "life_inv (shared_release (ll_block s) (s\<lparr>ll_ref := False, ll_status := life_retired\<rparr>))"
    "life_inv (s\<lparr>lk_then := t, ll_ref := False, ll_status := life_retired, lk_at := at_release (ll_block s)\<rparr>)"
proof -
  note inv = life_invD [OF assms(1)]
  have a: "ll_deleting s = {}" "lk_alive s" using inv(5) assms(3) by (auto simp: status_ok_def)
  have c: "ll_count s c = (if c = ll_block s then lk_holders s c + 1 else 0)" "c \<noteq> ll_block s \<Longrightarrow> lk_holders s c = 0" for c
    using inv(1) [of c] inv(2) [of c] assms(2,3) by auto
  show "life_inv (shared_release (ll_block s) (s\<lparr>ll_ref := False, ll_status := life_retired\<rparr>))"
    by (rule life_invI) (auto simp: shared_release_def c a assms(2) status_ok_def)
  show "life_inv (s\<lparr>lk_then := t, ll_ref := False, ll_status := life_retired, lk_at := at_release (ll_block s)\<rparr>)"
    by (rule life_invI) (auto simp: c a status_ok_def)
qed

text \<open>Steps of the owner that leave the references alone.\<close>

lemma life_inv_at:
  assumes "life_inv s" "\<not> ll_ref s" "\<forall>b. lk_at s \<noteq> at_release b" "\<forall>b. at \<noteq> at_release b"
    and "at_ok at (ll_block s) w" "w = ll_status s \<or> ll_status s = life_expired \<and> w = life_empty" "alive = lk_alive s \<or> w = life_empty"
  shows "life_inv (s\<lparr>ll_status := w, lk_alive := alive, lk_at := at, lk_then := t\<rparr>)"
proof -
  note inv = life_invD [OF assms(1)]
  have "status_ok (s\<lparr>ll_status := w, lk_alive := alive, lk_at := at, lk_then := t\<rparr>)"
    using inv(5) assms(2,5-7) by (auto simp: status_ok_def split: if_splits)
  moreover have "ll_count s b = lk_holders s b" for b using inv(1) [of b] assms(2,3) by auto
  ultimately show ?thesis using inv(2-4) assms(2,4) by (intro life_invI) auto
qed

lemma life_inv_destroy:
  assumes "life_inv s" "lk_at s = at_rest"
  shows "life_inv (life_destroy obj s)"
proof -
  have st: "life_status (s\<lparr>lk_then := obj\<rparr>) = (if ll_ref s then life_working else ll_status s)"
  proof -
    have "life_status (s\<lparr>lk_then := obj\<rparr>) = life_status s" by (simp add: life_status_def use_count_def)
    then show ?thesis using life_inv_status [OF assms(1)] by simp
  qed
  show ?thesis
  proof (cases "ll_ref s")
    case True
    then show ?thesis using retire_release(2) [OF assms True] st by (simp add: life_destroy_def life_retire_def)
  next
    case False
    have "ll_status s \<noteq> life_working" using life_invD(5) [OF assms(1)] False by (auto simp: status_ok_def split: if_splits)
    define at where "at = (case ll_status s of life_retired \<Rightarrow> at_await | life_expired \<Rightarrow> at_finalize | _ \<Rightarrow> if obj then at_object else at_rest)"
    have at: "life_destroy obj s = s\<lparr>lk_at := at, lk_then := obj\<rparr>" "\<forall>b. at \<noteq> at_release b" "at_ok at (ll_block s) (ll_status s)"
      using st False \<open>ll_status s \<noteq> life_working\<close> by (cases "ll_status s"; simp add: life_destroy_def life_ends_def at_def)+
    show ?thesis using life_inv_at [OF assms(1) False _ at(2,3), of "lk_alive s" obj] assms(2) at(1) by simp
  qed
qed

lemma life_inv_continue:
  assumes "life_inv s" "life_continue s = Inr s'"
  shows "life_inv s'"
proof -
  note inv = life_invD [OF assms(1)]
  show ?thesis
  proof (cases "lk_at s = at_rest \<or> (\<exists>b. lk_at s = at_release b)")
    case True
    then show ?thesis
    proof (elim disjE exE)
      fix b assume b: "lk_at s = at_release b"
      then have blk: "b = ll_block s" "\<not> ll_ref s" "ll_deleting s = {}" "lk_alive s" "ll_status s = life_retired" "ll_count s b \<noteq> 0"
        using inv(5) inv(1) [of b] inv(4) by (auto simp: status_ok_def split: if_splits)
      have c: "ll_count s c = (if c = b then lk_holders s c + 1 else 0)" "c \<noteq> b \<Longrightarrow> lk_holders s c = 0" for c
        using inv(1) [of c] inv(2) [of c] b blk(1,2) by auto
      have s': "s' = (shared_release b s)\<lparr>lk_at := at_await\<rparr>" using assms(2) b by (simp add: life_continue_def)
      show ?thesis unfolding s' by (rule life_invI) (auto simp: shared_release_def c blk status_ok_def)
    qed (use assms in \<open>simp add: life_continue_def\<close>)
  next
    case False
    then have r: "\<not> ll_ref s" "\<forall>b. lk_at s \<noteq> at_release b" using inv(5) by (auto simp: status_ok_def)
    have "\<exists>w alive at. s' = s\<lparr>ll_status := w, lk_alive := alive, lk_at := at, lk_then := lk_then s\<rparr> \<and> (\<forall>b. at \<noteq> at_release b) \<and> at_ok at (ll_block s) w \<and>
        (w = ll_status s \<or> ll_status s = life_expired \<and> w = life_empty) \<and> (alive = lk_alive s \<or> w = life_empty)"
    proof (cases "lk_at s")
      case at_await
      with inv(5) consider "ll_status s = life_retired" | "ll_status s = life_expired" by (auto simp: status_ok_def)
      then show ?thesis
      proof cases
        case 1
        with at_await assms(2) show ?thesis
          by (intro exI [of _ "ll_status s"] exI [of _ "lk_alive s"] exI [of _ at_wait]) (auto simp: life_continue_def)
      next
        case 2
        with at_await assms(2) show ?thesis
          by (intro exI [of _ "ll_status s"] exI [of _ "lk_alive s"] exI [of _ at_finalize]) (auto simp: life_continue_def)
      qed
    next
      case at_wait
      with assms(2) inv(5) show ?thesis
        by (intro exI [of _ "ll_status s"] exI [of _ "lk_alive s"] exI [of _ "if ll_status s = life_expired then at_finalize else at_wait"])
          (auto simp: life_continue_def status_ok_def)
    next
      case at_finalize
      with assms(2) inv(5) show ?thesis
        by (intro exI [of _ life_empty] exI [of _ "lk_alive s"] exI [of _ "if lk_then s then at_object else at_rest"])
          (auto simp: life_continue_def life_ends_def life_finalize_def status_ok_def)
    next
      case at_object
      with assms(2) inv(5) show ?thesis
        by (intro exI [of _ life_empty] exI [of _ False] exI [of _ at_rest]) (auto simp: life_continue_def status_ok_def)
    qed (use False in simp_all)
    then obtain w alive at where e: "s' = s\<lparr>ll_status := w, lk_alive := alive, lk_at := at, lk_then := lk_then s\<rparr>" "\<forall>b. at \<noteq> at_release b" "at_ok at (ll_block s) w"
        "w = ll_status s \<or> ll_status s = life_expired \<and> w = life_empty" "alive = lk_alive s \<or> w = life_empty" by blast
    show ?thesis unfolding e(1) using e(2-5) by (intro life_inv_at [OF assms(1) r])
  qed
qed

lemma life_inv_retire:
  assumes "life_inv s" "lk_at s = at_rest"
  shows "life_inv (life_locked_retire s)"
  using retire_release(1) [OF assms] life_inv_status [OF assms(1)] assms(1)
  by (auto simp: life_locked_retire_def has_value_def is_working_def life_retire_def)

lemma life_inv_step: "life_step s s' \<Longrightarrow> life_inv s \<Longrightarrow> life_inv s'"
  by (induction rule: life_step.induct)
    (auto intro: life_inv_lock [simplified] life_inv_release [simplified] life_inv_deleter life_inv_init life_inv_retire life_inv_destroy life_inv_continue simp: life_locked_destroy_def)

lemma life_inv_reach: "life_step\<^sup>*\<^sup>* s s' \<Longrightarrow> life_inv s \<Longrightarrow> life_inv s'"
  by (induction rule: rtranclp_induct) (auto intro: life_inv_step)

section \<open>Properties\<close>

lemma life_quiet:
  assumes "life_inv s" "\<not> ll_ref s" "ll_status s \<in> {life_expired, life_empty}" "\<forall>b. lk_at s \<noteq> at_release b"
  shows "lk_holders s b = 0" "b \<notin> ll_deleting s" "\<not> fst (weak_lock w s)"
proof -
  note inv = life_invD [OF assms(1)]
  have d: "ll_count s (ll_block s) = 0" "ll_deleting s = {}" using inv(5) assms(2,3) by (auto simp: status_ok_def split: if_splits)
  have c: "ll_count s b = 0" for b using inv(2) [of b] d(1) by (cases "b = ll_block s") auto
  show "lk_holders s b = 0" "b \<notin> ll_deleting s" using inv(1) [of b] c [of b] d(2) by auto
  show "\<not> fst (weak_lock w s)" using c by (simp add: weak_lock_def split: option.split)
qed

text \<open>
  C7. An object is not destroyed while it is in use: over any interleaving of its owner with threads that lock weak pointers,
  when the destructor of the object is about to run, or has run, or \<open>destroy\<close> has returned, no thread
  holds a strong pointer or is about to touch the lock, and no weak pointer can be locked any more. Nor
  does waiting for the expiration ever find the lock in a state that it rejects.
\<close>

theorem life_lock_protects:
  assumes "life_step\<^sup>*\<^sup>* life_locked_make s"
  shows "(lk_at s = at_object \<or> \<not> lk_alive s \<or> lk_at s = at_rest \<and> life_status s = life_empty \<longrightarrow>
      (\<forall>b. lk_holders s b = 0 \<and> b \<notin> ll_deleting s \<and> \<not> fst (weak_lock (Some b) s))) \<and>
    (\<exists>s'. life_continue s = Inr s')"
proof
  have inv: "life_inv s" using life_inv_reach [OF assms] life_inv_make by blast
  note ok = life_invD(5) [OF inv]
  show "lk_at s = at_object \<or> \<not> lk_alive s \<or> lk_at s = at_rest \<and> life_status s = life_empty \<longrightarrow>
      (\<forall>b. lk_holders s b = 0 \<and> b \<notin> ll_deleting s \<and> \<not> fst (weak_lock (Some b) s))"
  proof
    assume "lk_at s = at_object \<or> \<not> lk_alive s \<or> lk_at s = at_rest \<and> life_status s = life_empty"
    then have "\<not> ll_ref s" "ll_status s = life_empty" "\<forall>b. lk_at s \<noteq> at_release b"
      using ok life_inv_status [OF inv] by (auto simp: status_ok_def split: if_splits)
    then show "\<forall>b. lk_holders s b = 0 \<and> b \<notin> ll_deleting s \<and> \<not> fst (weak_lock (Some b) s)" using life_quiet [OF inv] by auto
  qed
  show "\<exists>s'. life_continue s = Inr s'"
    using ok by (cases "lk_at s") (auto simp: life_continue_def status_ok_def)
qed

text \<open>What other threads do to let go: release strong pointers and run deleters.\<close>

inductive life_drain :: "life_locked \<Rightarrow> life_locked \<Rightarrow> bool" where
  release: "lk_holders s b > 0 \<Longrightarrow> life_drain s ((shared_release b s)\<lparr>lk_holders := (lk_holders s)(b := lk_holders s b - 1)\<rparr>)"
| deleter: "b \<in> ll_deleting s \<Longrightarrow> life_drain s (life_deleter b s)"

definition life_pending :: "life_locked \<Rightarrow> nat" where
  "life_pending s = 2 * lk_holders s (ll_block s) + card (ll_deleting s)"

lemma life_drain_pending:
  assumes "life_inv s" "life_drain s s'"
  shows "life_pending s' < life_pending s \<and> lk_at s' = lk_at s"
  using assms(2)
proof cases
  case (release b)
  have "b = ll_block s" using release(2) life_invD(1,2) [OF assms(1), of b] by (auto split: if_splits)
  moreover have "card (insert b (ll_deleting s)) \<le> card (ll_deleting s) + 1"
    using life_invD(3) [OF assms(1)] by (simp add: card_insert_if finite_subset)
  ultimately show ?thesis using release by (auto simp: life_pending_def shared_release_def)
next
  case (deleter b)
  have "finite (ll_deleting s)" using life_invD(3) [OF assms(1)] finite_subset by blast
  with deleter have "card (ll_deleting s - {b}) < card (ll_deleting s)" by (intro psubset_card_mono) auto
  with deleter show ?thesis by (simp add: life_pending_def life_deleter_def)
qed

lemma life_drains:
  assumes "life_inv s" "\<not> ll_ref s" "\<forall>b. lk_at s \<noteq> at_release b" "ll_status s = life_retired"
  shows "\<exists>s'. life_drain s s'"
proof -
  note inv = life_invD [OF assms(1)]
  have "ll_count s (ll_block s) > 0 \<or> ll_deleting s \<noteq> {}" using inv(5) assms(2,4) by (auto simp: status_ok_def split: if_splits)
  moreover have "ll_count s (ll_block s) = lk_holders s (ll_block s)" using inv(1) [of "ll_block s"] assms(2,3) by simp
  ultimately consider "lk_holders s (ll_block s) > 0" | b where "b \<in> ll_deleting s" by auto
  then show ?thesis by cases (blast intro: life_drain.intros)+
qed

text \<open>
  C10. Destruction ends once the object is let go: while it waits and the lock has not expired, some thread
  has a strong pointer to release or a deleter to run; each such step leaves fewer; and when the lock
  has expired, the owner goes on to the end without waiting, and the object is destroyed if that was asked for.
\<close>

theorem life_destroy_completes:
  assumes "life_step\<^sup>*\<^sup>* life_locked_make s" "lk_at s = at_await \<or> lk_at s = at_wait"
  shows "(ll_status s \<noteq> life_expired \<longrightarrow> (\<exists>s'. life_drain s s')) \<and>
    (\<forall>s'. life_drain s s' \<longrightarrow> life_pending s' < life_pending s \<and> lk_at s' = lk_at s) \<and>
    (ll_status s = life_expired \<longrightarrow> (\<exists>s1 s2 s3. life_continue s = Inr s1 \<and> life_continue s1 = Inr s2 \<and> life_continue s2 = Inr s3 \<and>
      lk_at s3 = at_rest \<and> life_status s3 = life_empty \<and> lk_alive s3 = (lk_alive s \<and> \<not> lk_then s)))"
proof (intro conjI)
  have inv: "life_inv s" using life_inv_reach [OF assms(1)] life_inv_make by blast
  have r: "\<not> ll_ref s" "\<forall>b. lk_at s \<noteq> at_release b" "ll_status s \<in> {life_retired, life_expired}"
    using life_invD(5) [OF inv] assms(2) by (auto simp: status_ok_def split: if_splits)
  show "ll_status s \<noteq> life_expired \<longrightarrow> (\<exists>s'. life_drain s s')" using life_drains [OF inv r(1,2)] r(3) by blast
  show "\<forall>s'. life_drain s s' \<longrightarrow> life_pending s' < life_pending s \<and> lk_at s' = lk_at s" using life_drain_pending [OF inv] by blast
  let ?s1 = "s\<lparr>lk_at := at_finalize\<rparr>"
  let ?s2 = "life_ends (life_finalize ?s1)"
  show "ll_status s = life_expired \<longrightarrow> (\<exists>s1 s2 s3. life_continue s = Inr s1 \<and> life_continue s1 = Inr s2 \<and> life_continue s2 = Inr s3 \<and>
      lk_at s3 = at_rest \<and> life_status s3 = life_empty \<and> lk_alive s3 = (lk_alive s \<and> \<not> lk_then s))"
    using assms(2) r(1)
    by (intro impI exI [of _ ?s1] exI [of _ ?s2] exI [of _ "if lk_then s then ?s2\<lparr>lk_alive := False, lk_at := at_rest\<rparr> else ?s2"])
      (auto simp: life_continue_def life_ends_def life_finalize_def life_status_def use_count_def)
qed

lemma await_sleep_expires:
  "await_sleep n (min (2 ^ i) SLEEP_MAX_USEC) (replicate k life_retired @ life_expired # ws) =
    Some (n + k, map (\<lambda>j. min (2 ^ j) SLEEP_MAX_USEC) [i..<i + k])"
proof (induction k arbitrary: n i)
  case (Suc k)
  have "(if min (2 ^ i) SLEEP_MAX_USEC * 2 > SLEEP_MAX_USEC then SLEEP_MAX_USEC else min (2 ^ i) SLEEP_MAX_USEC * 2) = min (2 ^ Suc i) SLEEP_MAX_USEC"
    by (simp add: min_def)
  moreover have "[i..<i + Suc k] = i # [Suc i..<Suc i + k]" by (simp add: upt_rec)
  ultimately show ?case using Suc.IH [of "n + 1" "Suc i"] by (simp add: Let_def del: upt_Suc)
qed simp

lemma await_spin_expires:
  "await_spin n (replicate k life_retired @ life_expired # ws) =
    (if n + k < SPIN_COUNT then Some (n + k + 1, [])
     else if n \<le> SPIN_COUNT then Some (n + k + 1, map (\<lambda>j. min (2 ^ j) SLEEP_MAX_USEC) [0..<n + k - SPIN_COUNT])
     else Some (n + k + 1, map (\<lambda>j. min (2 ^ j) SLEEP_MAX_USEC) [0..<k]))"
proof (induction k arbitrary: n)
  case 0
  show ?case using await_sleep_expires [of "n + 1" 0 0 ws] by simp
next
  case (Suc k)
  show ?case
  proof (cases "n < SPIN_COUNT")
    case True
    then show ?thesis using Suc.IH [of "n + 1"] by auto
  next
    case False
    then show ?thesis using await_sleep_expires [of "n + 1" 0 "Suc k" ws] by auto
  qed
qed

text \<open>
  C35. Waiting for the expiration ends with the first look that finds the lock expired: after \<open>k\<close> looks in vain
  it has counted \<open>k + 2\<close> rounds, has slept only after the first \<open>39\<close>, and for one, two, four and so on
  microseconds, never longer than a tenth of a second at a time.
\<close>

theorem await_expiration_ends:
  "await_expiration (life_retired # replicate k life_retired @ life_expired # ws) =
    Inr (Some (k + 2, map (\<lambda>j. min (2 ^ j) 100000) [0..<k - 39]))"
  using await_spin_expires [of 1 k ws] by (auto simp: await_expiration_def)

text \<open>
  What is left of an object that was retired: its lock has no reference, and the owner is nowhere on the way to the destructor of the object.
\<close>

definition life_abandoned :: "life_locked \<Rightarrow> bool" where
  "life_abandoned s \<longleftrightarrow> life_inv s \<and> \<not> ll_ref s \<and> lk_alive s \<and> lk_at s \<noteq> at_object \<and> (lk_at s = at_rest \<or> \<not> lk_then s)"

lemma abandoned_has_value:
  assumes "life_abandoned s"
  shows "\<not> has_value s" "life_locked_destroy s = s" "life_locked_retire s = s" "fst (life_locked_lock p s) = (None, None)"
proof -
  have inv: "life_inv s" and ref: "\<not> ll_ref s" using assms by (simp_all add: life_abandoned_def)
  show v: "\<not> has_value s"
    using life_inv_status [OF inv] life_invD(5) [OF inv] ref by (auto simp: has_value_def is_working_def status_ok_def split: if_splits)
  then show "life_locked_destroy s = s" "life_locked_retire s = s" by (simp_all add: life_locked_destroy_def life_locked_retire_def)
  show "fst (life_locked_lock p s) = (None, None)"
    using v ref by (simp add: life_locked_lock_def raw_ptr_def has_value_def life_shared_def life_weak_def)
qed

lemma abandoned_step:
  assumes "life_step s s'" "ll_block s' = ll_block s" "life_abandoned s"
  shows "life_abandoned s'"
proof -
  have inv: "life_inv s'" using life_inv_step [OF assms(1)] assms(3) by (simp add: life_abandoned_def)
  have a: "\<not> ll_ref s" "lk_alive s" "lk_at s \<noteq> at_object" "lk_at s = at_rest \<or> \<not> lk_then s" using assms(3) by (simp_all add: life_abandoned_def)
  from assms(1) have "\<not> ll_ref s' \<and> lk_alive s' \<and> lk_at s' \<noteq> at_object \<and> (lk_at s' = at_rest \<or> \<not> lk_then s')"
  proof cases
    case (lock b s1)
    with a show ?thesis by (auto simp: weak_lock_def split: if_splits)
  next
    case init
    with a assms(2) show ?thesis by (auto simp: life_init_def make_ref_def split: if_splits)
  next
    case destroy_lock
    with a show ?thesis by (auto simp: life_destroy_def life_retire_def life_ends_def Let_def split: status_t.splits)
  next
    case continue
    with a show ?thesis by (auto simp: life_continue_def life_ends_def life_finalize_def shared_release_def split: owner_at.splits status_t.splits if_splits)
  qed (use a abandoned_has_value [OF assms(3)] in \<open>auto simp: shared_release_def life_deleter_def\<close>)
  with inv show ?thesis by (simp add: life_abandoned_def)
qed

text \<open>
  C36. An object that was retired is never destroyed: after \<open>life_locked::retire\<close>, whatever the owner and the holders of references do, the lock not
  being initialized anew, \<open>lock\<close> gives null, \<open>destroy\<close> takes the object for absent and returns at once, also while a thread still
  holds a reference, and the destructor of the object does not run, not even with the destructor of the lock.
\<close>

theorem life_retired_never_destroyed:
  assumes "life_step\<^sup>*\<^sup>* life_locked_make s" "lk_at s = at_rest" "has_value s"
    and "(\<lambda>s s'. life_step s s' \<and> ll_block s' = ll_block s)\<^sup>*\<^sup>* (life_locked_retire s) t"
  shows "lk_alive t \<and> lk_at t \<noteq> at_object \<and> fst (life_locked_lock p t) = (None, None) \<and> life_locked_destroy t = t"
proof -
  have inv: "life_inv s" using life_inv_reach [OF assms(1)] life_inv_make by blast
  have ref: "ll_ref s" using assms(3) life_inv_status [OF inv] life_invD(5) [OF inv]
    by (auto simp: has_value_def is_working_def status_ok_def split: if_splits)
  have "life_locked_retire s = shared_release (ll_block s) (s\<lparr>ll_ref := False, ll_status := life_retired\<rparr>)" "lk_alive s"
    using assms(3) ref life_invD(5) [OF inv] by (auto simp: life_locked_retire_def life_retire_def status_ok_def)
  with retire_release(1) [OF inv assms(2) ref] assms(2) have "life_abandoned (life_locked_retire s)"
    by (simp add: life_abandoned_def shared_release_def)
  with assms(4) have "life_abandoned t" by (induction rule: rtranclp_induct) (blast intro: abandoned_step)+
  then show ?thesis using abandoned_has_value(2) [of t] abandoned_has_value(4) [of t p] by (simp add: life_abandoned_def)
qed

section \<open>Instances\<close>

text \<open>A thread locks a weak pointer, the owner destroys the object and waits.\<close>

definition example_waiting :: life_locked where
  "example_waiting = life_locked_make\<lparr>ll_ref := False, ll_status := life_retired, ll_count := (\<lambda>_. 0)(1 := 1), lk_holders := (\<lambda>_. 0)(1 := 1),
     lk_then := True, lk_at := at_await\<rparr>"

lemmas life_locked_defs = life_locked_make_def life_lock_make_def life_lock_empty_def make_ref_def life_lock.defs

lemma example_waiting_reach: "life_step\<^sup>*\<^sup>* life_locked_make example_waiting"
proof -
  let ?s1 = "life_locked_make\<lparr>ll_count := (\<lambda>_. 0)(1 := 2), lk_holders := (\<lambda>_. 0)(1 := 1)\<rparr>"
  let ?s2 = "?s1\<lparr>lk_then := True, ll_ref := False, ll_status := life_retired, lk_at := at_release 1\<rparr>"
  have "life_step life_locked_make ?s1"
    using life_step.lock [of 1 life_locked_make] by (simp add: weak_lock_def life_locked_defs fun_upd_def numeral_2_eq_2 cong: if_cong)
  moreover have "life_step ?s1 ?s2"
    using life_step.destroy [of ?s1]
    by (simp add: life_locked_destroy_def has_value_def is_working_def life_status_def use_count_def life_destroy_def life_retire_def life_locked_defs)
  moreover have "life_step ?s2 example_waiting"
    by (rule life_step.continue) (simp add: life_continue_def shared_release_def example_waiting_def life_locked_defs)
  ultimately show ?thesis by (meson converse_rtranclp_into_rtranclp r_into_rtranclp)
qed

theorem life_lock_protects_witness:
  "life_step\<^sup>*\<^sup>* life_locked_make example_waiting \<and> lk_holders example_waiting 1 = 1 \<and> lk_alive example_waiting \<and> (\<exists>s'. life_continue example_waiting = Inr s')"
  using life_lock_protects [OF example_waiting_reach] example_waiting_reach
  by (simp add: example_waiting_def life_locked_defs)

theorem life_destroy_completes_witness:
  "lk_at example_waiting = at_await \<and> ll_status example_waiting = life_retired \<and> (\<exists>s'. life_drain example_waiting s' \<and> life_pending s' < 2)"
proof -
  have w: "lk_at example_waiting = at_await" "ll_status example_waiting = life_retired" "life_pending example_waiting = 2"
    by (simp_all add: example_waiting_def life_locked_defs life_pending_def)
  show ?thesis using life_destroy_completes [OF example_waiting_reach] w by auto
qed

text \<open>A thread locks a weak pointer, and the owner retires the object and destroys it.\<close>

definition example_held :: life_locked where
  "example_held = life_locked_make\<lparr>ll_count := (\<lambda>_. 0)(1 := 2), lk_holders := (\<lambda>_. 0)(1 := 1)\<rparr>"

theorem life_retired_never_destroyed_witness:
  "life_step\<^sup>*\<^sup>* life_locked_make example_held \<and> lk_holders (life_locked_retire example_held) 1 = 1 \<and>
    life_locked_destroy (life_locked_retire example_held) = life_locked_retire example_held \<and> lk_alive (life_locked_retire example_held)"
proof -
  have "life_step life_locked_make example_held"
    using life_step.lock [of 1 life_locked_make]
    by (simp add: example_held_def weak_lock_def life_locked_defs fun_upd_def numeral_2_eq_2 cong: if_cong)
  then have r: "life_step\<^sup>*\<^sup>* life_locked_make example_held" by (rule r_into_rtranclp)
  have h: "lk_at example_held = at_rest" "has_value example_held"
    by (simp_all add: example_held_def has_value_def is_working_def life_status_def use_count_def life_locked_defs)
  then have "lk_holders (life_locked_retire example_held) 1 = 1"
    by (auto simp: life_locked_retire_def life_retire_def shared_release_def example_held_def split: prod.split option.split)
  with life_retired_never_destroyed [OF r h rtranclp.rtrancl_refl, of "()"] r show ?thesis by blast
qed

end
