(* ===== verification/Deposit.thy ===== *)
theory Deposit
  imports Msg_Util
begin

text \<open>
  Deposits: \<open>include/telling/deposit.h\<close>. Objects are deposited for a time under a number and claimed with it; a
  thread of the depository destroys those that have expired.
\<close>

section \<open>State\<close>

type_synonym ClaimNumber = u32

text \<open>Times and durations are counts of the clock, 64-bit signed.\<close>

record Expiration =
  ex_number :: ClaimNumber
  ex_expire :: int

text \<open>\<open>operator<\<close>: earlier times have the greater priority.\<close>

definition expiration_less :: "Expiration \<Rightarrow> Expiration \<Rightarrow> bool" where
  "expiration_less e o' \<longleftrightarrow> ex_expire e > ex_expire o'"

text \<open>
  The queue as a list with the greatest priority in front. Which of several entries with one time comes first is
  not specified by the library; here it is the one that was there before.
\<close>

fun queue_emplace :: "Expiration \<Rightarrow> Expiration list \<Rightarrow> Expiration list" where
  "queue_emplace e [] = [e]"
| "queue_emplace e (x # xs) = (if expiration_less x e then e # x # xs else x # queue_emplace e xs)"

text \<open>
  The thread: not started, before the test of \<open>terminate\<close>, in the body of the loop, waiting with an optional limit,
  woken, and ended. It holds the mutex before the test and in the body.
\<close>

datatype expire_thread = et_start | et_test | et_body | et_wait "int option" | et_woken | et_done

text \<open>An object is an \<open>any\<close>, which may be empty.\<close>

record 'a Depository =
  lockers :: "ClaimNumber \<rightharpoonup> 'a option"
  expireQueue :: "Expiration list"
  expireThread :: expire_thread
  dp_terminate :: bool
  claimNumberGen :: ClaimNumber

definition depository_make :: "'a Depository" where
  "depository_make = \<lparr>lockers = Map.empty, expireQueue = [], expireThread = et_start, dp_terminate = False, claimNumberGen = 0\<rparr>"

definition notify_one :: "'a Depository \<Rightarrow> 'a Depository" where
  "notify_one s = (case expireThread s of et_wait _ \<Rightarrow> s\<lparr>expireThread := et_woken\<rparr> | _ \<Rightarrow> s)"

section \<open>The thread\<close>

text \<open>The thread takes the mutex, tests, and makes one round. \<open>now\<close> is the time that the clock has in that round.\<close>

definition expire_acquire :: "'a Depository \<Rightarrow> 'a Depository" where
  "expire_acquire s = (if expireThread s \<in> {et_start, et_woken} then s\<lparr>expireThread := et_test\<rparr> else s)"

definition expire_test :: "'a Depository \<Rightarrow> 'a Depository" where
  "expire_test s = (if expireThread s = et_test then s\<lparr>expireThread := if dp_terminate s then et_done else et_body\<rparr> else s)"

definition expire_body :: "int \<Rightarrow> 'a Depository \<Rightarrow> 'a Depository" where
  "expire_body now s =
    (if expireThread s = et_body then
      (case expireQueue s of
        [] \<Rightarrow> s\<lparr>expireThread := et_wait None\<rparr>
      | e # rest \<Rightarrow>
          if ex_expire e < now
          then s\<lparr>lockers := (lockers s)(ex_number e := None), expireQueue := rest, expireThread := et_test\<rparr>
          else s\<lparr>expireThread := et_wait (Some (ex_expire e))\<rparr>)
     else s)"

text \<open>A wait ends when it is notified, when its limit is reached, or for no reason.\<close>

definition expire_wake :: "'a Depository \<Rightarrow> 'a Depository" where
  "expire_wake s = notify_one s"

definition depository_destroy :: "'a Depository \<Rightarrow> 'a Depository" where
  "depository_destroy s = notify_one (s\<lparr>dp_terminate := True\<rparr>)"

section \<open>Deposits and claims\<close>

text \<open>The search for a number: it goes on while the number is not zero and not in use.\<close>

function claim_search :: "(ClaimNumber \<Rightarrow> bool) \<Rightarrow> ClaimNumber \<Rightarrow> ClaimNumber" where
  "claim_search used gen = (let claimNumber = gen + 1 in
     if claimNumber \<noteq> 0 \<and> \<not> used claimNumber then claim_search used claimNumber else claimNumber)"
  by auto

lemma unat_plus_one: "g + 1 \<noteq> 0 \<Longrightarrow> unat (g + 1) = unat (g :: u32) + 1"
  by (metis Suc_eq_plus1 unatSuc add.commute)

lemma unat_u32: "unat (g :: u32) < 2 ^ 32"
  using unsigned_less [of g, where 'a = nat] by simp

termination claim_search
proof (relation "measure (\<lambda>(used, gen). 2 ^ 32 - unat gen)")
  fix used :: "ClaimNumber \<Rightarrow> bool" and gen claimNumber :: ClaimNumber
  assume "claimNumber = gen + 1" "claimNumber \<noteq> 0 \<and> \<not> used claimNumber"
  with unat_u32 [of gen] show "((used, claimNumber), (used, gen)) \<in> measure (\<lambda>(used, gen). 2 ^ 32 - unat gen)"
    by (simp add: unat_plus_one)
qed simp

declare claim_search.simps [simp del]

text \<open>
  The end of the function is reached without a return, unless the duration is refused: the number that the caller
  has is undefined. A time beyond the range of the clock is undefined as well. \<open>emplace\<close> keeps an object that is there.
\<close>

definition clock_max :: int where
  "clock_max = 2 ^ 63 - 1"

definition deposit :: "int \<Rightarrow> 'a option \<Rightarrow> int \<Rightarrow> 'a Depository \<Rightarrow> ClaimNumber result \<times> 'a Depository" where
  "deposit now object duration s =
    (if duration \<le> 0 then (Inr 0, s)
     else
       let claimNumber = claim_search (\<lambda>n. lockers s n \<noteq> None) (claimNumberGen s); s = s\<lparr>claimNumberGen := claimNumber\<rparr> in
       if now + duration > clock_max then (Inl (Undefined ''overflow of a time''), s)
       else
         let expiration = \<lparr>ex_number = claimNumber, ex_expire = now + duration\<rparr>;
             wakeExpiration = (case expireQueue s of [] \<Rightarrow> True | e # _ \<Rightarrow> expiration_less expiration e);
             s = s\<lparr>expireQueue := queue_emplace expiration (expireQueue s),
                    lockers := (if lockers s claimNumber = None then (lockers s)(claimNumber \<mapsto> object) else lockers s)\<rparr>
         in (Inl (Undefined ''no return''), if wakeExpiration then notify_one s else s))"

text \<open>\<open>moved\<close> is what an \<open>any\<close> holds after it was moved from.\<close>

definition claim :: "('a option \<Rightarrow> 'a option) \<Rightarrow> ClaimNumber \<Rightarrow> 'a Depository \<Rightarrow> 'a option \<times> 'a Depository" where
  "claim moved number s = (case lockers s number of
      None \<Rightarrow> (None, s)
    | Some object \<Rightarrow> (object, s\<lparr>lockers := (lockers s)(number \<mapsto> moved object)\<rparr>))"

section \<open>The search for a number\<close>

lemma claim_search_spec:
  "\<exists>k. claim_search used gen = gen + of_nat k \<and> 0 < k \<and> k \<le> 2 ^ 32 - unat gen \<and>
    (claim_search used gen = 0 \<or> used (claim_search used gen)) \<and>
    (\<forall>j. 0 < j \<and> j < k \<longrightarrow> gen + of_nat j \<noteq> 0 \<and> \<not> used (gen + of_nat j))"
proof (induction used gen rule: claim_search.induct)
  case (1 used gen)
  have lt: "unat gen < 2 ^ 32" by (rule unat_u32)
  show ?case
  proof (cases "gen + 1 \<noteq> 0 \<and> \<not> used (gen + 1)")
    case True
    from "1.IH" [OF refl True] obtain k where k: "claim_search used (gen + 1) = gen + 1 + of_nat k" "0 < k" "k \<le> 2 ^ 32 - unat (gen + 1)"
      "claim_search used (gen + 1) = 0 \<or> used (claim_search used (gen + 1))"
      "\<forall>j. 0 < j \<and> j < k \<longrightarrow> gen + 1 + of_nat j \<noteq> 0 \<and> \<not> used (gen + 1 + of_nat j)" by blast
    have eq: "claim_search used gen = claim_search used (gen + 1)" using True by (simp add: claim_search.simps [of used gen])
    have "gen + of_nat j \<noteq> 0 \<and> \<not> used (gen + of_nat j)" if "0 < j" "j < Suc k" for j
    proof (cases "j = 1")
      case False
      with that obtain i where "j = Suc i" "0 < i" "i < k" by (cases j) auto
      with k(5) show ?thesis by (simp add: add.assoc)
    qed (use True in simp)
    with k(1-4) True lt show ?thesis unfolding eq
      by (intro exI [of _ "Suc k"]) (auto simp: unat_plus_one add.assoc)
  next
    case False
    then have "claim_search used gen = gen + 1" by (auto simp: claim_search.simps [of used gen])
    with False lt show ?thesis by (intro exI [of _ 1]) auto
  qed
qed

lemma claim_search_zero: "\<forall>n. used n \<longrightarrow> n = 0 \<Longrightarrow> claim_search used gen = 0"
  using claim_search_spec [of used gen] by auto

section \<open>Invariants\<close>

definition expires_sorted :: "Expiration list \<Rightarrow> bool" where
  "expires_sorted q = sorted (map ex_expire q)"

lemma queue_emplace_set [simp]: "set (queue_emplace e q) = insert e (set q)"
  by (induction q) auto

lemma queue_emplace_sorted: "expires_sorted q \<Longrightarrow> expires_sorted (queue_emplace e q)"
  by (induction q) (auto simp: expires_sorted_def expiration_less_def)

lemma queue_emplace_split: "\<exists>xs ys. q = xs @ ys \<and> queue_emplace e q = xs @ e # ys"
proof (induction q)
  case (Cons x q)
  then obtain xs ys where "q = xs @ ys" "queue_emplace e q = xs @ e # ys" by blast
  then have "x # q = (x # xs) @ ys" "\<not> expiration_less x e \<Longrightarrow> queue_emplace e (x # q) = (x # xs) @ e # ys" by simp_all
  moreover have "expiration_less x e \<Longrightarrow> queue_emplace e (x # q) = [] @ e # x # q" by simp
  ultimately show ?case by (cases "expiration_less x e") blast+
qed simp

lemma notify_one_simps [simp]: "lockers (notify_one s) = lockers s" "expireQueue (notify_one s) = expireQueue s" "claimNumberGen (notify_one s) = claimNumberGen s"
  "dp_terminate (notify_one s) = dp_terminate s"
  by (simp_all add: notify_one_def split: expire_thread.split)

section \<open>Rounds of the thread\<close>

definition expire_round :: "int \<Rightarrow> 'a Depository \<Rightarrow> 'a Depository" where
  "expire_round now s = expire_body now (expire_test s)"

text \<open>Where the thread waits for the rest of a queue.\<close>

definition waits_for :: "Expiration list \<Rightarrow> int option" where
  "waits_for q = (case q of [] \<Rightarrow> None | e # _ \<Rightarrow> Some (ex_expire e))"

lemma expire_rounds:
  assumes "expireThread s = et_test" "\<not> dp_terminate s"
  shows "(expire_round now ^^ (length (takeWhile (\<lambda>e. ex_expire e < now) (expireQueue s)) + 1)) s =
    s\<lparr>lockers := lockers s |` (- ex_number ` set (takeWhile (\<lambda>e. ex_expire e < now) (expireQueue s))),
      expireQueue := dropWhile (\<lambda>e. ex_expire e < now) (expireQueue s),
      expireThread := et_wait (waits_for (dropWhile (\<lambda>e. ex_expire e < now) (expireQueue s)))\<rparr>"
  using assms
proof (induction "expireQueue s" arbitrary: s)
  case Nil
  then show ?case by (simp add: expire_round_def expire_test_def expire_body_def waits_for_def)
next
  case (Cons e q)
  show ?case
  proof (cases "ex_expire e < now")
    case True
    let ?s = "s\<lparr>lockers := (lockers s)(ex_number e := None), expireQueue := q, expireThread := et_test\<rparr>"
    have r: "expire_round now s = ?s"
      using Cons(3,4) True by (simp add: expire_round_def expire_test_def expire_body_def flip: Cons(2))
    have "(lockers s)(ex_number e := None) |` (- A) = lockers s |` (- insert (ex_number e) A)" for A
      by (auto simp: restrict_map_def)
    with Cons(1) [of ?s] Cons(2-4) True show ?thesis
      by (simp add: funpow_Suc_right r del: funpow.simps flip: Cons(2))
  next
    case False
    then have "takeWhile (\<lambda>e. ex_expire e < now) (expireQueue s) = []" "dropWhile (\<lambda>e. ex_expire e < now) (expireQueue s) = expireQueue s"
      by (simp_all flip: Cons(2))
    moreover have "expire_round now s = s\<lparr>expireThread := et_wait (waits_for (expireQueue s))\<rparr>"
      using Cons(3,4) False by (simp add: expire_round_def expire_test_def expire_body_def waits_for_def flip: Cons(2))
    moreover have "lockers s |` UNIV = lockers s" by (simp add: restrict_map_def)
    ultimately show ?thesis by simp
  qed
qed

lemma sorted_splits:
  assumes "expires_sorted q"
  shows "takeWhile (\<lambda>e. ex_expire e < now) q = filter (\<lambda>e. ex_expire e < now) q \<and> dropWhile (\<lambda>e. ex_expire e < now) q = filter (\<lambda>e. now \<le> ex_expire e) q"
  using assms
proof (induction q)
  case (Cons e q)
  have "filter (\<lambda>e. ex_expire e < now) q = []" "filter (\<lambda>e. now \<le> ex_expire e) q = q" if "now \<le> ex_expire e"
    using Cons.prems that by (auto simp: expires_sorted_def filter_empty_conv filter_id_conv)
  with Cons show ?case by (cases "ex_expire e < now") (simp_all add: expires_sorted_def)
qed simp

section \<open>Properties\<close>

text \<open>
  The search for a claim number ends, after at most \<open>2 ^ 32\<close> increments, at the first number after the last one
  that is zero or in use; all numbers before it are neither. (It is meant to find one that is neither.)
\<close>

theorem claim_search_ends:
  "\<exists>k. claim_search used gen = gen + of_nat k \<and> 0 < k \<and> k \<le> 2 ^ 32 - unat gen \<and>
    (claim_search used gen = 0 \<or> used (claim_search used gen)) \<and>
    (\<forall>j. 0 < j \<and> j < k \<longrightarrow> gen + of_nat j \<noteq> 0 \<and> \<not> used (gen + of_nat j))"
  by (rule claim_search_spec)

text \<open>
  No deposit gets a number of its own: while no number but zero is in use, as in a new depository, a deposit that is accepted goes under the number zero, which
  means failure to a caller, and is dropped if an object is there already; and the function ends without returning a number, which is undefined.
\<close>

theorem deposit_number_zero:
  assumes "\<forall>n. lockers s n \<noteq> None \<longrightarrow> n = 0" "0 < duration" "now + duration \<le> clock_max"
  shows "\<exists>s'. deposit now object duration s = (Inl (Undefined ''no return''), s') \<and> \<lparr>ex_number = 0, ex_expire = now + duration\<rparr> \<in> set (expireQueue s') \<and>
    lockers s' = (if lockers s 0 = None then [0 \<mapsto> object] else lockers s)"
proof -
  have n: "claim_search (\<lambda>n. lockers s n \<noteq> None) gen = 0" for gen using assms(1) by (rule claim_search_zero)
  have "lockers s 0 = None \<Longrightarrow> lockers s = Map.empty" using assms(1) by (metis)
  with assms(2,3) show ?thesis unfolding deposit_def Let_def n by auto
qed

text \<open>
  C34. The thread sweeps what has expired: whatever the depository holds, with its queue in order, the thread that is awake at some time makes one round for
  each entry of the queue before that time, in which it removes the entry and what is stored under its number, and touches nothing else;
  then it waits for the first of the remaining entries, or without a limit if there is none. A deposit keeps the queue in order, and adds its entry
  to it.
\<close>

theorem expire_thread_sweeps:
  assumes "expireThread s = et_test" "\<not> dp_terminate s" "expires_sorted (expireQueue s)"
    and "gone = {e \<in> set (expireQueue s). ex_expire e < now}" "rest = filter (\<lambda>e. now \<le> ex_expire e) (expireQueue s)"
  shows "(expire_round now ^^ (length (filter (\<lambda>e. ex_expire e < now) (expireQueue s)) + 1)) s =
      s\<lparr>lockers := lockers s |` (- ex_number ` gone), expireQueue := rest, expireThread := et_wait (waits_for rest)\<rparr> \<and>
    expires_sorted rest \<and> expires_sorted (queue_emplace e (expireQueue s)) \<and>
    (\<exists>xs ys. expireQueue s = xs @ ys \<and> queue_emplace e (expireQueue s) = xs @ e # ys)"
proof -
  let ?q = "expireQueue s" and ?P = "\<lambda>e. ex_expire e < now"
  have t: "takeWhile ?P ?q = filter ?P ?q" "dropWhile ?P ?q = rest"
    using sorted_splits [OF assms(3), of now] by (simp_all add: assms(5))
  have g: "set (takeWhile ?P ?q) = gone" unfolding t assms(4) by auto
  have "expires_sorted rest" using assms(3) by (simp add: assms(5) expires_sorted_def sorted_filter)
  with expire_rounds [OF assms(1,2), of now, unfolded g] queue_emplace_sorted [OF assms(3)] queue_emplace_split show ?thesis
    by (simp add: t del: funpow.simps)
qed

text \<open>
  Destruction ends the thread, if it is not just between its test and its wait: it is then woken or running, and ends with its next
  test. In that gap the notification is lost, and with an empty queue the thread waits without a limit.
\<close>

theorem depository_shutdown:
  "(expireThread s \<noteq> et_body \<longrightarrow> expireThread (expire_test (expire_acquire (depository_destroy s))) = et_done) \<and>
    (expireThread s = et_body \<and> expireQueue s = [] \<longrightarrow> expireThread (expire_body now (depository_destroy s)) = et_wait None)"
  by (cases "expireThread s") (simp_all add: depository_destroy_def notify_one_def expire_acquire_def expire_test_def expire_body_def)

text \<open>
  A deposit that expires before all others does not wake the thread, which goes on waiting for the entry
  that was first before.
\<close>

theorem deposit_wakes_late:
  assumes "expireThread s = et_wait (Some (ex_expire e))" "expireQueue s = e # q" "0 < duration" "now + duration < ex_expire e" "ex_expire e \<le> clock_max"
  shows "expireThread (snd (deposit now object duration s)) = et_wait (Some (ex_expire e)) \<and>
    ex_expire (hd (expireQueue (snd (deposit now object duration s)))) = now + duration"
  using assms by (simp add: deposit_def Let_def expiration_less_def)

section \<open>Instances\<close>

definition example_deposited :: "nat Depository" where
  "example_deposited = snd (deposit 100 (Some 7) 10 depository_make)"

lemma example_deposited:
  "example_deposited = \<lparr>lockers = [0 \<mapsto> Some 7], expireQueue = [\<lparr>ex_number = 0, ex_expire = 110\<rparr>], expireThread = et_start, dp_terminate = False, claimNumberGen = 0\<rparr>"
proof -
  have "claim_search (\<lambda>n. lockers (depository_make :: nat Depository) n \<noteq> None) 0 = 0"
    by (rule claim_search_zero) (simp add: depository_make_def)
  then show ?thesis
    by (simp add: example_deposited_def deposit_def Let_def depository_make_def clock_max_def notify_one_def)
qed

theorem claim_search_ends_witness:
  "\<exists>k. claim_search (\<lambda>n. n = 3) 0 = of_nat k \<and> (\<forall>j. 0 < j \<and> j < k \<longrightarrow> of_nat j \<noteq> (3 :: ClaimNumber))"
  using claim_search_ends [of "\<lambda>n. n = 3" 0] by auto

theorem deposit_number_zero_witness:
  "\<exists>s'. deposit 105 (Some 8) 10 example_deposited = (Inl (Undefined ''no return''), s') \<and> lockers s' = lockers example_deposited"
proof -
  have "\<forall>n. lockers example_deposited n \<noteq> None \<longrightarrow> n = 0" "0 < (10 :: int)" "105 + 10 \<le> clock_max" by (simp_all add: example_deposited clock_max_def)
  from deposit_number_zero [OF this, of "Some 8"] obtain s' where "deposit 105 (Some 8) 10 example_deposited = (Inl (Undefined ''no return''), s')"
    "lockers s' = (if lockers example_deposited 0 = None then [0 \<mapsto> Some 8] else lockers example_deposited)" by blast
  then show ?thesis by (intro exI [of _ s']) (simp add: example_deposited)
qed

text \<open>A depository with three objects, at a time when two of them have expired.\<close>

definition example_lockers :: "nat Depository" where
  "example_lockers = \<lparr>lockers = [1 \<mapsto> Some 10, 2 \<mapsto> Some 20, 3 \<mapsto> Some 30],
    expireQueue = [\<lparr>ex_number = 2, ex_expire = 100\<rparr>, \<lparr>ex_number = 1, ex_expire = 110\<rparr>, \<lparr>ex_number = 3, ex_expire = 250\<rparr>],
    expireThread = et_test, dp_terminate = False, claimNumberGen = 3\<rparr>"

theorem expire_thread_sweeps_witness:
  "lockers ((expire_round 200 ^^ 3) example_lockers) = [3 \<mapsto> Some 30] \<and> expireThread ((expire_round 200 ^^ 3) example_lockers) = et_wait (Some 250)"
proof -
  have s: "expireThread example_lockers = et_test" "\<not> dp_terminate example_lockers" "expires_sorted (expireQueue example_lockers)"
    by (simp_all add: example_lockers_def expires_sorted_def)
  let ?q = "[\<lparr>ex_number = 2, ex_expire = 100\<rparr>, \<lparr>ex_number = 1, ex_expire = 110\<rparr>, \<lparr>ex_number = 3, ex_expire = 250\<rparr> :: Expiration]"
  have q: "expireQueue example_lockers = ?q" by (simp add: example_lockers_def)
  have n: "length (filter (\<lambda>e. ex_expire e < 200) ?q) + 1 = 3" "filter (\<lambda>e. 200 \<le> ex_expire e) ?q = [\<lparr>ex_number = 3, ex_expire = 250\<rparr>]" by simp_all
  have "{e \<in> set ?q. ex_expire e < 200} = {\<lparr>ex_number = 2, ex_expire = 100\<rparr>, \<lparr>ex_number = 1, ex_expire = 110\<rparr>}" by auto
  then have "ex_number ` {e \<in> set ?q. ex_expire e < 200} = {1, 2}" by (simp add: insert_commute)
  moreover have "[1 \<mapsto> Some 10, 2 \<mapsto> Some 20, 3 \<mapsto> Some (30 :: nat)] |` (- {1, 2 :: ClaimNumber}) = [3 \<mapsto> Some 30]"
    by (auto simp: restrict_map_def fun_eq_iff)
  ultimately show ?thesis
    using conjunct1 [OF expire_thread_sweeps [OF s refl refl, of 200]] unfolding q n by (simp add: example_lockers_def waits_for_def del: funpow.simps)
qed

theorem depository_shutdown_witness:
  "expireThread (expire_test (expire_acquire (depository_destroy example_deposited))) = et_done"
  using depository_shutdown [of example_deposited] by (simp add: example_deposited)

theorem deposit_wakes_late_witness:
  "expireThread (snd (deposit 100 (Some 8) 5 (example_deposited\<lparr>expireThread := et_wait (Some 110)\<rparr>))) = et_wait (Some 110)"
  using deposit_wakes_late [of "example_deposited\<lparr>expireThread := et_wait (Some 110)\<rparr>" "\<lparr>ex_number = 0, ex_expire = 110\<rparr>" "[]" 5 100 "Some 8"]
  by (simp add: example_deposited clock_max_def)

end
