(* ===== verification/Afar.thy ===== *)
theory Afar
  imports Msg_Util
begin

text \<open>
  Calls by name: \<open>include/telling/afar.h\<close>. A table maps paths to functors; calls lock the functor for reading, and its removal
  locks it for writing, each going over from the lock of the table to the lock of the functor.
\<close>

section \<open>State\<close>

text \<open>
  A functor is an \<open>any\<close> that holds a function with the types of its result and its argument, or nothing. Types and
  values are those of the program, hence parameters.
\<close>

record ('ty, 'v) Functor =
  fu_types :: "'ty \<times> 'ty"
  fu_fun :: "'v \<Rightarrow> 'v result"

text \<open>
  Where a thread is in \<open>call\<close> or in \<open>remove\<close>: before the lock of the table, with it, before the lock of the functor,
  and in the rest of \<open>remove\<close>. A thread at rest runs code of its own, or that of the innermost functor it has called.
\<close>

datatype af_place =
    af_rest
  | af_call string | af_look string | af_enter nat
  | af_remove string | af_seek string | af_claim nat | af_reset nat | af_delete nat

text \<open>
  The table has the path under which an entry was made. Its key is a view of a string that exists only in \<open>add\<close>, so it is
  not known which entry a search finds: its outcome is an argument below. The functors that exist are a heap. A thread has its place and the functors that it
  has called and not returned from, the innermost first.
\<close>

record ('ty, 'v) NamedFunctors =
  af_functors :: "(string \<times> nat) list"
  af_heap :: "nat \<rightharpoonup> ('ty, 'v) Functor option"
  af_threads :: "(af_place \<times> nat list) list"

definition named_functors :: "nat \<Rightarrow> ('ty, 'v) NamedFunctors" where
  "named_functors n = \<lparr>af_functors = [], af_heap = Map.empty, af_threads = replicate n (af_rest, [])\<rparr>"

section \<open>Locks\<close>

text \<open>Who holds which lock follows from the places of the threads. A functor is locked by those that are in a call of it.\<close>

fun reads_table :: "af_place \<Rightarrow> bool" where
  "reads_table (af_look _) = True"
| "reads_table (af_enter _) = True"
| "reads_table _ = False"

fun writes_table :: "af_place \<Rightarrow> bool" where
  "writes_table (af_seek _) = True"
| "writes_table (af_claim _) = True"
| "writes_table _ = False"

definition writes_functor :: "nat \<Rightarrow> af_place \<Rightarrow> bool" where
  "writes_functor a p \<longleftrightarrow> p = af_reset a"

definition table_readable :: "('ty, 'v) NamedFunctors \<Rightarrow> bool" where
  "table_readable s = list_all (\<lambda>(p, _). \<not> writes_table p) (af_threads s)"

definition table_writable :: "('ty, 'v) NamedFunctors \<Rightarrow> bool" where
  "table_writable s = list_all (\<lambda>(p, _). \<not> writes_table p \<and> \<not> reads_table p) (af_threads s)"

definition functor_readable :: "nat \<Rightarrow> ('ty, 'v) NamedFunctors \<Rightarrow> bool" where
  "functor_readable a s = list_all (\<lambda>(p, _). \<not> writes_functor a p) (af_threads s)"

definition functor_writable :: "nat \<Rightarrow> ('ty, 'v) NamedFunctors \<Rightarrow> bool" where
  "functor_writable a s = list_all (\<lambda>(p, calls). \<not> writes_functor a p \<and> a \<notin> set calls) (af_threads s)"

definition place_at :: "nat \<Rightarrow> af_place \<times> nat list \<Rightarrow> ('ty, 'v) NamedFunctors \<Rightarrow> ('ty, 'v) NamedFunctors" where
  "place_at i pc s = s\<lparr>af_threads := (af_threads s)[i := pc]\<rparr>"

section \<open>Operations\<close>

text \<open>\<open>add\<close>: \<open>hit\<close> is the outcome of the search for the path, \<open>a\<close> the address of the new functor.\<close>

definition af_add :: "bool \<Rightarrow> nat \<Rightarrow> string \<Rightarrow> ('ty, 'v) Functor \<Rightarrow> ('ty, 'v) NamedFunctors \<Rightarrow> unit result \<times> ('ty, 'v) NamedFunctors" where
  "af_add hit a path f s =
    (if hit then (Inl (StdExn ''afar: path is taken''), s)
     else (Inr (), s\<lparr>af_functors := (path, a) # af_functors s, af_heap := (af_heap s)(a \<mapsto> Some f)\<rparr>))"

text \<open>
  One step of a thread in \<open>find\<close> and \<open>remove\<close>, with the outcome of the search if there is one; \<open>None\<close> is that the thread has to
  wait for a lock. The result of a step is an exception, for a path that is not found by a call. A thread that calls a functor it is in already takes
  a shared lock that it holds, which C++ leaves undefined; here it gets the lock.
\<close>

definition af_continue :: "nat \<Rightarrow> nat option \<Rightarrow> ('ty, 'v) NamedFunctors \<Rightarrow> (unit result \<times> ('ty, 'v) NamedFunctors) option" where
  "af_continue i hit s = (case af_threads s ! i of (p, calls) \<Rightarrow> (case p of
      af_rest \<Rightarrow> None
    | af_call path \<Rightarrow> if table_readable s then Some (Inr (), place_at i (af_look path, calls) s) else None
    | af_look path \<Rightarrow> (case hit of
          None \<Rightarrow> Some (Inl (StdExn ''afar: no functor with this path''), place_at i (af_rest, calls) s)
        | Some a \<Rightarrow> Some (Inr (), place_at i (af_enter a, calls) s))
    | af_enter a \<Rightarrow> if functor_readable a s then Some (Inr (), place_at i (af_rest, a # calls) s) else None
    | af_remove path \<Rightarrow> if table_writable s then Some (Inr (), place_at i (af_seek path, calls) s) else None
    | af_seek path \<Rightarrow> (case hit of
          None \<Rightarrow> Some (Inr (), place_at i (af_rest, calls) s)
        | Some a \<Rightarrow> Some (Inr (), place_at i (af_claim a, calls) (s\<lparr>af_functors := filter (\<lambda>e. snd e \<noteq> a) (af_functors s)\<rparr>)))
    | af_claim a \<Rightarrow> if functor_writable a s then Some (Inr (), place_at i (af_reset a, calls) s) else None
    | af_reset a \<Rightarrow> Some (Inr (), place_at i (af_delete a, calls) (s\<lparr>af_heap := (af_heap s)(a \<mapsto> None)\<rparr>))
    | af_delete a \<Rightarrow> Some (Inr (), place_at i (af_rest, calls) (s\<lparr>af_heap := (af_heap s)(a := None)\<rparr>))))"

text \<open>
  What \<open>call\<close> does once it has the lock: the function is used if it has the types of the call. Access to a functor that was deleted
  is undefined. The lock is released when the function returns or throws.
\<close>

definition af_invoke :: "'ty \<times> 'ty \<Rightarrow> 'v \<Rightarrow> nat \<Rightarrow> ('ty, 'v) NamedFunctors \<Rightarrow> 'v result" where
  "af_invoke types argument a s = (case af_heap s a of
      None \<Rightarrow> Inl (Undefined ''deleted functor'')
    | Some None \<Rightarrow> Inl (StdExn ''afar: functor called with wrong types'')
    | Some (Some f) \<Rightarrow> if fu_types f = types then fu_fun f argument else Inl (StdExn ''afar: functor called with wrong types''))"

definition af_return :: "nat \<Rightarrow> ('ty, 'v) NamedFunctors \<Rightarrow> ('ty, 'v) NamedFunctors" where
  "af_return i s = (case af_threads s ! i of (p, calls) \<Rightarrow> place_at i (p, tl calls) s)"

text \<open>A thread at rest can begin a call, the test \<open>CalleeExists\<close> (a call that returns at once), or the destructor of a \<open>Callee\<close>.\<close>

definition af_begin :: "nat \<Rightarrow> af_place \<Rightarrow> ('ty, 'v) NamedFunctors \<Rightarrow> ('ty, 'v) NamedFunctors" where
  "af_begin i p s = (case af_threads s ! i of (_, calls) \<Rightarrow> place_at i (p, calls) s)"

text \<open>The member \<open>path\<close> of a \<open>Callee\<close> is never set: the constructor has a parameter of that name.\<close>

definition callee_path :: "string \<Rightarrow> string" where
  "callee_path path = []"

definition callee_destroy :: "nat \<Rightarrow> string \<Rightarrow> ('ty, 'v) NamedFunctors \<Rightarrow> ('ty, 'v) NamedFunctors" where
  "callee_destroy i path = af_begin i (af_remove (callee_path path))"

definition callee_exists :: "nat option \<Rightarrow> bool" where
  "callee_exists hit = (hit \<noteq> None)"

section \<open>Runs\<close>

definition af_addresses :: "('ty, 'v) NamedFunctors \<Rightarrow> nat set" where
  "af_addresses s = snd ` set (af_functors s)"

abbreviation at_place :: "('ty, 'v) NamedFunctors \<Rightarrow> nat \<Rightarrow> af_place" where
  "at_place s i \<equiv> fst (af_threads s ! i)"

abbreviation in_calls :: "('ty, 'v) NamedFunctors \<Rightarrow> nat \<Rightarrow> nat list" where
  "in_calls s i \<equiv> snd (af_threads s ! i)"

text \<open>
  What a number of threads can do, in any order. A search finds some entry or none; a new functor has an address that is not in use. \<open>ok\<close> is what
  is known of the functors that are added.
\<close>

inductive afar_step :: "(('ty, 'v) Functor \<Rightarrow> bool) \<Rightarrow> ('ty, 'v) NamedFunctors \<Rightarrow> ('ty, 'v) NamedFunctors \<Rightarrow> bool" for ok where
  add: "i < length (af_threads s) \<Longrightarrow> at_place s i = af_rest \<Longrightarrow> table_writable s \<Longrightarrow> af_heap s a = None \<Longrightarrow> ok f \<Longrightarrow>
    afar_step ok s (snd (af_add hit a path f s))"
| call: "i < length (af_threads s) \<Longrightarrow> at_place s i = af_rest \<Longrightarrow> afar_step ok s (af_begin i (af_call path) s)"
| destroy: "i < length (af_threads s) \<Longrightarrow> at_place s i = af_rest \<Longrightarrow> afar_step ok s (callee_destroy i path s)"
| remove: "i < length (af_threads s) \<Longrightarrow> at_place s i = af_rest \<Longrightarrow> afar_step ok s (af_begin i (af_remove path) s)"
| continue: "i < length (af_threads s) \<Longrightarrow> \<forall>a. hit = Some a \<longrightarrow> a \<in> af_addresses s \<Longrightarrow> af_continue i hit s = Some (r, s') \<Longrightarrow> afar_step ok s s'"
| return: "i < length (af_threads s) \<Longrightarrow> at_place s i = af_rest \<Longrightarrow> in_calls s i \<noteq> [] \<Longrightarrow> afar_step ok s (af_return i s)"

section \<open>Invariants\<close>

definition removing :: "nat \<Rightarrow> af_place \<Rightarrow> bool" where
  "removing a p \<longleftrightarrow> p = af_claim a \<or> p = af_reset a \<or> p = af_delete a"

text \<open>The invariant on the addresses in the table, the heap, and the places and calls of \<open>n\<close> threads.\<close>

definition functors_ok :: "(('ty, 'v) Functor \<Rightarrow> bool) \<Rightarrow> nat set \<Rightarrow> (nat \<rightharpoonup> ('ty, 'v) Functor option) \<Rightarrow> nat \<Rightarrow> (nat \<Rightarrow> af_place) \<Rightarrow> (nat \<Rightarrow> nat list) \<Rightarrow> bool" where
  "functors_ok ok tbl heap n P C \<longleftrightarrow>
    (\<forall>a f. heap a = Some (Some f) \<longrightarrow> ok f) \<and>
    (\<forall>a \<in> tbl. \<exists>f. heap a = Some (Some f)) \<and>
    (\<forall>i < n. \<forall>a \<in> set (C i). \<exists>f. heap a = Some (Some f)) \<and>
    (\<forall>i < n. \<forall>a. P i = af_enter a \<longrightarrow> a \<in> tbl) \<and>
    (\<forall>i < n. \<forall>a. P i = af_claim a \<or> P i = af_reset a \<longrightarrow> (\<exists>f. heap a = Some (Some f)) \<and> a \<notin> tbl) \<and>
    (\<forall>i < n. \<forall>a. P i = af_delete a \<longrightarrow> heap a = Some None)"

definition locks_ok :: "nat \<Rightarrow> (nat \<Rightarrow> af_place) \<Rightarrow> (nat \<Rightarrow> nat list) \<Rightarrow> bool" where
  "locks_ok n P C \<longleftrightarrow>
    (\<forall>i < n. \<forall>j < n. \<forall>a. P i = af_reset a \<longrightarrow> a \<notin> set (C j)) \<and>
    (\<forall>i < n. \<forall>j < n. \<forall>a. i \<noteq> j \<longrightarrow> removing a (P i) \<longrightarrow> \<not> removing a (P j)) \<and>
    (\<forall>i < n. \<forall>j < n. i \<noteq> j \<longrightarrow> writes_table (P i) \<longrightarrow> \<not> reads_table (P j) \<and> \<not> writes_table (P j))"

definition afar_inv :: "(('ty, 'v) Functor \<Rightarrow> bool) \<Rightarrow> ('ty, 'v) NamedFunctors \<Rightarrow> bool" where
  "afar_inv ok s \<longleftrightarrow> functors_ok ok (af_addresses s) (af_heap s) (length (af_threads s)) (at_place s) (in_calls s) \<and>
    locks_ok (length (af_threads s)) (at_place s) (in_calls s)"

lemma afar_inv_make: "afar_inv ok (named_functors n)"
  by (simp add: afar_inv_def functors_ok_def locks_ok_def named_functors_def af_addresses_def removing_def)

lemma functors_ok_cong:
  "(\<And>i. i < n \<Longrightarrow> P i = P' i \<and> C i = C' i) \<Longrightarrow> functors_ok ok tbl heap n P C = functors_ok ok tbl heap n P' C'"
  by (simp add: functors_ok_def)

lemma locks_ok_cong: "(\<And>i. i < n \<Longrightarrow> P i = P' i \<and> C i = C' i) \<Longrightarrow> locks_ok n P C = locks_ok n P' C'"
  by (simp add: locks_ok_def)

lemma place_at_simps [simp]: "af_addresses (place_at i pc s) = af_addresses s" "af_heap (place_at i pc s) = af_heap s"
  "length (af_threads (place_at i pc s)) = length (af_threads s)"
  by (simp_all add: place_at_def af_addresses_def)

lemma afar_inv_place:
  assumes "i < length (af_threads s)"
  shows "afar_inv ok (place_at i (p, c) s) \<longleftrightarrow>
    functors_ok ok (af_addresses s) (af_heap s) (length (af_threads s)) ((at_place s)(i := p)) ((in_calls s)(i := c)) \<and>
    locks_ok (length (af_threads s)) ((at_place s)(i := p)) ((in_calls s)(i := c))"
proof -
  have eq: "at_place (place_at i (p, c) s) j = ((at_place s)(i := p)) j \<and> in_calls (place_at i (p, c) s) j = ((in_calls s)(i := c)) j"
    if "j < length (af_threads s)" for j
    using assms that by (simp add: place_at_def nth_list_update)
  have f: "functors_ok ok (af_addresses s) (af_heap s) (length (af_threads s)) (at_place (place_at i (p, c) s)) (in_calls (place_at i (p, c) s)) =
      functors_ok ok (af_addresses s) (af_heap s) (length (af_threads s)) ((at_place s)(i := p)) ((in_calls s)(i := c))"
    by (rule functors_ok_cong) (rule eq)
  have l: "locks_ok (length (af_threads s)) (at_place (place_at i (p, c) s)) (in_calls (place_at i (p, c) s)) =
      locks_ok (length (af_threads s)) ((at_place s)(i := p)) ((in_calls s)(i := c))"
    by (rule locks_ok_cong) (rule eq)
  show ?thesis unfolding afar_inv_def place_at_simps f l by (rule refl)
qed

lemma functors_ok_at:
  assumes "functors_ok ok tbl heap n P C" "set c \<subseteq> {a. \<exists>f. heap a = Some (Some f)}" "\<And>a. p = af_enter a \<Longrightarrow> a \<in> tbl"
    and "\<And>a. p = af_claim a \<or> p = af_reset a \<Longrightarrow> (\<exists>f. heap a = Some (Some f)) \<and> a \<notin> tbl" "\<And>a. p = af_delete a \<Longrightarrow> heap a = Some None"
  shows "functors_ok ok tbl heap n (P(i := p)) (C(i := c))"
  using assms unfolding functors_ok_def by (simp add: subset_iff)

lemma locks_ok_at:
  assumes "locks_ok n P C" "i < n"
    and "\<And>j a. j < n \<Longrightarrow> p = af_reset a \<Longrightarrow> a \<notin> set ((C(i := c)) j)" "\<And>j a. j < n \<Longrightarrow> j \<noteq> i \<Longrightarrow> P j = af_reset a \<Longrightarrow> a \<notin> set c"
    and "\<And>j a. j < n \<Longrightarrow> j \<noteq> i \<Longrightarrow> removing a p \<Longrightarrow> \<not> removing a (P j)"
    and "\<And>j. j < n \<Longrightarrow> j \<noteq> i \<Longrightarrow> writes_table p \<Longrightarrow> \<not> reads_table (P j) \<and> \<not> writes_table (P j)"
    and "\<And>j. j < n \<Longrightarrow> j \<noteq> i \<Longrightarrow> reads_table p \<Longrightarrow> \<not> writes_table (P j)"
  shows "locks_ok n (P(i := p)) (C(i := c))"
proof -
  have L: "j < n \<Longrightarrow> k < n \<Longrightarrow> P j = af_reset a \<Longrightarrow> a \<notin> set (C k)" "j < n \<Longrightarrow> k < n \<Longrightarrow> j \<noteq> k \<Longrightarrow> removing a (P j) \<Longrightarrow> \<not> removing a (P k)"
    "j < n \<Longrightarrow> k < n \<Longrightarrow> j \<noteq> k \<Longrightarrow> writes_table (P j) \<Longrightarrow> \<not> reads_table (P k) \<and> \<not> writes_table (P k)" for j k a
    using assms(1) unfolding locks_ok_def by blast+
  have "a \<notin> set ((C(i := c)) k)" if "j < n" "k < n" "(P(i := p)) j = af_reset a" for j k a
    using that L(1) [of j k a] assms(3) [of k a] assms(4) [of j a] by (cases "j = i") (simp_all split: if_splits)
  moreover have "\<not> removing a ((P(i := p)) k)" if "j < n" "k < n" "j \<noteq> k" "removing a ((P(i := p)) j)" for j k a
    using that L(2) [of j k a] assms(5) [of k a] assms(5) [of j a] by (cases "j = i"; cases "k = i") auto
  moreover have "\<not> reads_table ((P(i := p)) k) \<and> \<not> writes_table ((P(i := p)) k)" if "j < n" "k < n" "j \<noteq> k" "writes_table ((P(i := p)) j)" for j k
    using that L(3) [of j k] assms(6) [of k] assms(6) [of j] assms(7) [of j] by (cases "j = i"; cases "k = i") auto
  ultimately show ?thesis unfolding locks_ok_def by blast
qed

lemma functors_okD:
  assumes "functors_ok ok tbl heap n P C"
  shows "heap a = Some (Some f) \<Longrightarrow> ok f" "a \<in> tbl \<Longrightarrow> \<exists>f. heap a = Some (Some f)" "i < n \<Longrightarrow> a \<in> set (C i) \<Longrightarrow> \<exists>f. heap a = Some (Some f)"
    "i < n \<Longrightarrow> P i = af_enter a \<Longrightarrow> a \<in> tbl" "i < n \<Longrightarrow> P i = af_claim a \<or> P i = af_reset a \<Longrightarrow> (\<exists>f. heap a = Some (Some f)) \<and> a \<notin> tbl"
    "i < n \<Longrightarrow> P i = af_delete a \<Longrightarrow> heap a = Some None"
  using assms unfolding functors_ok_def by (simp_all, elim disjE, simp_all)

lemma locks_okD:
  assumes "locks_ok n P C"
  shows "i < n \<Longrightarrow> j < n \<Longrightarrow> P i = af_reset a \<Longrightarrow> a \<notin> set (C j)" "i < n \<Longrightarrow> j < n \<Longrightarrow> i \<noteq> j \<Longrightarrow> removing a (P i) \<Longrightarrow> \<not> removing a (P j)"
    "i < n \<Longrightarrow> j < n \<Longrightarrow> i \<noteq> j \<Longrightarrow> writes_table (P i) \<Longrightarrow> \<not> reads_table (P j) \<and> \<not> writes_table (P j)"
  using assms unfolding locks_ok_def by simp_all

lemma afar_invD:
  assumes "afar_inv ok s"
  shows "af_heap s a = Some (Some f) \<Longrightarrow> ok f" "a \<in> af_addresses s \<Longrightarrow> \<exists>f. af_heap s a = Some (Some f)"
    "i < length (af_threads s) \<Longrightarrow> a \<in> set (in_calls s i) \<Longrightarrow> \<exists>f. af_heap s a = Some (Some f)"
    "i < length (af_threads s) \<Longrightarrow> at_place s i = af_enter a \<Longrightarrow> a \<in> af_addresses s"
    "i < length (af_threads s) \<Longrightarrow> at_place s i = af_claim a \<or> at_place s i = af_reset a \<Longrightarrow> (\<exists>f. af_heap s a = Some (Some f)) \<and> a \<notin> af_addresses s"
    "i < length (af_threads s) \<Longrightarrow> at_place s i = af_delete a \<Longrightarrow> af_heap s a = Some None"
    "i < length (af_threads s) \<Longrightarrow> j < length (af_threads s) \<Longrightarrow> at_place s i = af_reset a \<Longrightarrow> a \<notin> set (in_calls s j)"
    "i < length (af_threads s) \<Longrightarrow> j < length (af_threads s) \<Longrightarrow> i \<noteq> j \<Longrightarrow> removing a (at_place s i) \<Longrightarrow> \<not> removing a (at_place s j)"
    "i < length (af_threads s) \<Longrightarrow> j < length (af_threads s) \<Longrightarrow> i \<noteq> j \<Longrightarrow> writes_table (at_place s i) \<Longrightarrow>
      \<not> reads_table (at_place s j) \<and> \<not> writes_table (at_place s j)"
proof -
  have F: "functors_ok ok (af_addresses s) (af_heap s) (length (af_threads s)) (at_place s) (in_calls s)"
    and L: "locks_ok (length (af_threads s)) (at_place s) (in_calls s)" using assms by (simp_all add: afar_inv_def)
  note D = functors_okD [OF F] locks_okD [OF L]
  show "af_heap s a = Some (Some f) \<Longrightarrow> ok f" by (rule D(1))
  show "a \<in> af_addresses s \<Longrightarrow> \<exists>f. af_heap s a = Some (Some f)" by (rule D(2))
  show "i < length (af_threads s) \<Longrightarrow> a \<in> set (in_calls s i) \<Longrightarrow> \<exists>f. af_heap s a = Some (Some f)" by (rule D(3))
  show "i < length (af_threads s) \<Longrightarrow> at_place s i = af_enter a \<Longrightarrow> a \<in> af_addresses s" by (rule D(4))
  show "i < length (af_threads s) \<Longrightarrow> at_place s i = af_claim a \<or> at_place s i = af_reset a \<Longrightarrow> (\<exists>f. af_heap s a = Some (Some f)) \<and> a \<notin> af_addresses s" by (rule D(5))
  show "i < length (af_threads s) \<Longrightarrow> at_place s i = af_delete a \<Longrightarrow> af_heap s a = Some None" by (rule D(6))
  show "i < length (af_threads s) \<Longrightarrow> j < length (af_threads s) \<Longrightarrow> at_place s i = af_reset a \<Longrightarrow> a \<notin> set (in_calls s j)" by (rule D(7))
  show "i < length (af_threads s) \<Longrightarrow> j < length (af_threads s) \<Longrightarrow> i \<noteq> j \<Longrightarrow> removing a (at_place s i) \<Longrightarrow> \<not> removing a (at_place s j)" by (rule D(8))
  show "i < length (af_threads s) \<Longrightarrow> j < length (af_threads s) \<Longrightarrow> i \<noteq> j \<Longrightarrow> writes_table (at_place s i) \<Longrightarrow>
      \<not> reads_table (at_place s j) \<and> \<not> writes_table (at_place s j)" by (rule D(9))
qed

lemma table_readable_iff: "table_readable s \<longleftrightarrow> (\<forall>j < length (af_threads s). \<not> writes_table (at_place s j))"
  by (auto simp: table_readable_def list_all_length split: prod.splits) (metis fst_conv surj_pair)+

lemma table_writable_iff: "table_writable s \<longleftrightarrow> (\<forall>j < length (af_threads s). \<not> writes_table (at_place s j) \<and> \<not> reads_table (at_place s j))"
  by (auto simp: table_writable_def list_all_length split: prod.splits) (metis fst_conv surj_pair)+

lemma functor_writable_iff: "functor_writable a s \<longleftrightarrow> (\<forall>j < length (af_threads s). at_place s j \<noteq> af_reset a \<and> a \<notin> set (in_calls s j))"
  by (auto simp: functor_writable_def writes_functor_def list_all_length split: prod.splits) (metis fst_conv snd_conv surj_pair)+

text \<open>A step that changes only the place of a thread, and perhaps its calls.\<close>

lemma afar_inv_moves:
  assumes inv: "afar_inv ok s" and i: "i < length (af_threads s)"
    and c: "\<And>a. a \<in> set c \<Longrightarrow> a \<in> set (in_calls s i) \<or> a \<in> af_addresses s"
    and enter: "\<And>a. p = af_enter a \<Longrightarrow> a \<in> af_addresses s"
    and reset: "\<And>a. p = af_reset a \<Longrightarrow> at_place s i = af_claim a \<and> functor_writable a s \<and> c = in_calls s i"
    and others: "\<And>a. p \<noteq> af_claim a \<and> p \<noteq> af_delete a"
    and wr: "writes_table p \<Longrightarrow> table_writable s" and rd: "reads_table p \<Longrightarrow> reads_table (at_place s i) \<or> table_readable s"
  shows "afar_inv ok (place_at i (p, c) s)"
proof -
  let ?n = "length (af_threads s)"
  note I = afar_invD [OF inv]
  have alive: "\<exists>f. af_heap s a = Some (Some f)" if "a \<in> set c" for a using c [OF that] I(2,3) i by blast
  have "functors_ok ok (af_addresses s) (af_heap s) ?n ((at_place s)(i := p)) ((in_calls s)(i := c))"
  proof (rule functors_ok_at)
    show "functors_ok ok (af_addresses s) (af_heap s) ?n (at_place s) (in_calls s)" using inv by (simp add: afar_inv_def)
    show "(\<exists>f. af_heap s a = Some (Some f)) \<and> a \<notin> af_addresses s" if "p = af_claim a \<or> p = af_reset a" for a
      using that reset [of a] others [of a] I(5) [OF i, of a] by auto
  qed (use alive enter others in auto)
  moreover have "locks_ok ?n ((at_place s)(i := p)) ((in_calls s)(i := c))"
  proof (rule locks_ok_at [OF _ i])
    show "locks_ok ?n (at_place s) (in_calls s)" using inv by (simp add: afar_inv_def)
    fix j a assume j: "j < ?n"
    show "a \<notin> set (((in_calls s)(i := c)) j)" if "p = af_reset a" using reset [OF that] j i by (simp add: functor_writable_iff)
    assume ji: "j \<noteq> i"
    show "a \<notin> set c" if r: "at_place s j = af_reset a" using c [of a] I(5) [OF j, of a] I(7) [OF j i r] r by blast
    show "\<not> removing a (at_place s j)" if "removing a p"
      using that reset [of a] others [of a] I(8) [OF i j, of a] ji by (auto simp: removing_def)
  next
    fix j assume j: "j < ?n" "j \<noteq> i"
    show "\<not> reads_table (at_place s j) \<and> \<not> writes_table (at_place s j)" if "writes_table p" using wr [OF that] j by (simp add: table_writable_iff)
    show "\<not> writes_table (at_place s j)" if "reads_table p" using rd [OF that] j I(9) [of j i] i by (auto simp: table_readable_iff)
  qed
  ultimately show ?thesis by (simp add: afar_inv_place [OF i])
qed

lemma afar_inv_seek:
  assumes inv: "afar_inv ok s" and i: "i < length (af_threads s)" and p: "at_place s i = af_seek path" and a: "a \<in> af_addresses s"
  shows "afar_inv ok (place_at i (af_claim a, in_calls s i) (s\<lparr>af_functors := filter (\<lambda>e. snd e \<noteq> a) (af_functors s)\<rparr>))"
proof -
  let ?n = "length (af_threads s)" and ?s = "s\<lparr>af_functors := filter (\<lambda>e. snd e \<noteq> a) (af_functors s)\<rparr>"
  note I = afar_invD [OF inv]
  have tbl: "af_addresses ?s = af_addresses s - {a}" by (auto simp: af_addresses_def)
  obtain f where f: "af_heap s a = Some (Some f)" using I(2) [OF a] by blast
  have noenter: "at_place s j \<noteq> af_enter b" if "j < ?n" for j b
    using I(9) [OF i that] p by (cases "j = i") auto
  have "functors_ok ok (af_addresses s - {a}) (af_heap s) ?n (at_place s) (in_calls s)"
    using I(1-3,5,6) noenter unfolding functors_ok_def by blast
  then have "functors_ok ok (af_addresses s - {a}) (af_heap s) ?n ((at_place s)(i := af_claim a)) ((in_calls s)(i := in_calls s i))"
    by (rule functors_ok_at) (use I(3) [OF i] f in auto)
  moreover have "locks_ok ?n ((at_place s)(i := af_claim a)) ((in_calls s)(i := in_calls s i))"
  proof (rule locks_ok_at [OF _ i])
    show "locks_ok ?n (at_place s) (in_calls s)" using inv by (simp add: afar_inv_def)
    fix j b assume j: "j < ?n" "j \<noteq> i"
    show "b \<notin> set (in_calls s i)" if "at_place s j = af_reset b" using I(7) [OF j(1) i that] .
    show "\<not> removing b (at_place s j)" if "removing b (af_claim a)"
      using that I(5) [OF j(1), of a] I(6) [OF j(1), of a] a f by (auto simp: removing_def)
  next
    fix j assume j: "j < ?n" "j \<noteq> i"
    show "\<not> reads_table (at_place s j) \<and> \<not> writes_table (at_place s j)" using I(9) [OF i j(1)] j(2) p by simp
  qed simp_all
  ultimately show ?thesis using afar_inv_place [of i ?s ok "af_claim a" "in_calls s i"] i tbl by simp
qed

lemma afar_inv_free:
  assumes inv: "afar_inv ok s" and i: "i < length (af_threads s)"
    and p: "at_place s i = af_reset a \<and> p = af_delete a \<and> x = Some None \<or> at_place s i = af_delete a \<and> p = af_rest \<and> x = None"
  shows "afar_inv ok (place_at i (p, in_calls s i) (s\<lparr>af_heap := (af_heap s)(a := x)\<rparr>))"
proof -
  let ?n = "length (af_threads s)" and ?h = "(af_heap s)(a := x)"
  note I = afar_invD [OF inv]
  have x: "x \<noteq> Some (Some f)" for f using p by auto
  have calls: "a \<notin> set (in_calls s j)" if "j < ?n" for j
    using p I(7) [OF i that, of a] I(3) [OF that, of a] I(6) [OF i, of a] by auto
  have tbl: "a \<notin> af_addresses s" using p I(5) [OF i, of a] I(6) [OF i, of a] I(2) [of a] by auto
  have rm: "\<not> removing a (at_place s j)" if "j < ?n" "j \<noteq> i" for j using I(8) [OF i that(1)] that(2) p by (auto simp: removing_def)
  have "functors_ok ok (af_addresses s) ?h ?n ((at_place s)(i := p)) ((in_calls s)(i := in_calls s i))"
  proof -
    have "\<exists>f. ?h b = Some (Some f)" if "b \<in> af_addresses s" for b using I(2) [OF that] that tbl by auto
    moreover have "\<exists>f. ?h b = Some (Some f)" if "j < ?n" "b \<in> set (in_calls s j)" for j b using I(3) [OF that] calls [OF that(1)] that by auto
    moreover have "b \<in> af_addresses s" if "j < ?n" "((at_place s)(i := p)) j = af_enter b" for j b using I(4) [of j b] that p by (auto split: if_splits)
    moreover have "(\<exists>f. ?h b = Some (Some f)) \<and> b \<notin> af_addresses s" if "j < ?n" "((at_place s)(i := p)) j = af_claim b \<or> ((at_place s)(i := p)) j = af_reset b" for j b
      using I(5) [of j b] rm [of j] that p by (auto simp: removing_def split: if_splits)
    moreover have "?h b = Some None" if "j < ?n" "((at_place s)(i := p)) j = af_delete b" for j b
      using I(6) [of j b] rm [of j] that p by (auto simp: removing_def split: if_splits)
    moreover have "ok f" if "?h b = Some (Some f)" for b f using that I(1) [of b f] x by (auto split: if_splits)
    ultimately show ?thesis unfolding functors_ok_def by simp
  qed
  moreover have "locks_ok ?n ((at_place s)(i := p)) ((in_calls s)(i := in_calls s i))"
  proof (rule locks_ok_at [OF _ i])
    show "locks_ok ?n (at_place s) (in_calls s)" using inv by (simp add: afar_inv_def)
    fix j b assume j: "j < ?n" "j \<noteq> i"
    show "b \<notin> set (in_calls s i)" if "at_place s j = af_reset b" using I(7) [OF j(1) i that] .
    show "\<not> removing b (at_place s j)" if "removing b p" using that p rm [OF j] by (auto simp: removing_def)
  qed (use p in auto)
  ultimately show ?thesis
    using afar_inv_place [of i "s\<lparr>af_heap := ?h\<rparr>" ok p "in_calls s i"] i by (simp add: af_addresses_def)
qed

lemma functors_okI:
  assumes "\<And>a f. heap a = Some (Some f) \<Longrightarrow> ok f" "\<And>a. a \<in> tbl \<Longrightarrow> \<exists>f. heap a = Some (Some f)"
    "\<And>i a. i < n \<Longrightarrow> a \<in> set (C i) \<Longrightarrow> \<exists>f. heap a = Some (Some f)" "\<And>i a. i < n \<Longrightarrow> P i = af_enter a \<Longrightarrow> a \<in> tbl"
    "\<And>i a. i < n \<Longrightarrow> P i = af_claim a \<or> P i = af_reset a \<Longrightarrow> (\<exists>f. heap a = Some (Some f)) \<and> a \<notin> tbl"
    "\<And>i a. i < n \<Longrightarrow> P i = af_delete a \<Longrightarrow> heap a = Some None"
  shows "functors_ok ok tbl heap n P C"
  unfolding functors_ok_def by (intro conjI; intro allI ballI impI; rule assms; assumption)

lemma afar_inv_continue:
  assumes inv: "afar_inv ok s" and i: "i < length (af_threads s)" and hit: "\<forall>a. hit = Some a \<longrightarrow> a \<in> af_addresses s"
    and c: "af_continue i hit s = Some (r, s')"
  shows "afar_inv ok s'"
proof -
  obtain p calls where pc: "af_threads s ! i = (p, calls)" by fastforce
  then have at: "at_place s i = p" "in_calls s i = calls" by simp_all
  note move = afar_inv_moves [OF inv i] and I = afar_invD [OF inv]
  show ?thesis
  proof (cases p)
    case (af_look path)
    with c pc show ?thesis using move [of calls af_rest] at hit move [of calls "af_enter (the hit)"]
      by (cases hit) (auto simp: af_continue_def)
  next
    case (af_enter a)
    with c pc have "s' = place_at i (af_rest, a # calls) s" by (auto simp: af_continue_def split: if_splits)
    then show ?thesis using I(4) [OF i, of a] at af_enter by (auto intro: move)
  next
    case (af_seek path)
    show ?thesis
    proof (cases hit)
      case None
      with c pc af_seek have "s' = place_at i (af_rest, calls) s" by (simp add: af_continue_def)
      then show ?thesis using at by (auto intro: move)
    next
      case (Some a)
      with c pc af_seek have "s' = place_at i (af_claim a, calls) (s\<lparr>af_functors := filter (\<lambda>e. snd e \<noteq> a) (af_functors s)\<rparr>)"
        by (simp add: af_continue_def)
      with afar_inv_seek [OF inv i, of path a] at af_seek Some hit show ?thesis by simp
    qed
  next
    case (af_claim a)
    with c pc have "s' = place_at i (af_reset a, calls) s" "functor_writable a s" by (auto simp: af_continue_def split: if_splits)
    then show ?thesis using at af_claim by (auto intro: move)
  next
    case (af_reset a)
    with c pc afar_inv_free [OF inv i, of a "af_delete a" "Some None"] show ?thesis by (auto simp: af_continue_def)
  next
    case (af_delete a)
    with c pc afar_inv_free [OF inv i, of a af_rest None] show ?thesis by (auto simp: af_continue_def)
  next
    case (af_call path)
    with c pc have "s' = place_at i (af_look path, calls) s" "table_readable s" by (auto simp: af_continue_def split: if_splits)
    then show ?thesis using at by (auto intro: move)
  next
    case (af_remove path)
    with c pc have "s' = place_at i (af_seek path, calls) s" "table_writable s" by (auto simp: af_continue_def split: if_splits)
    then show ?thesis using at by (auto intro: move)
  qed (use c pc in \<open>simp add: af_continue_def\<close>)
qed

lemma afar_inv_add:
  assumes inv: "afar_inv ok s" and w: "table_writable s" and a: "af_heap s a = None" and f: "ok f"
  shows "afar_inv ok (snd (af_add hit a path f s))"
proof (cases hit)
  case False
  let ?n = "length (af_threads s)" and ?h = "(af_heap s)(a \<mapsto> Some f)"
  note I = afar_invD [OF inv]
  have keep: "\<exists>g. ?h b = Some (Some g)" if "\<exists>g. af_heap s b = Some (Some g)" for b using that by auto
  have "functors_ok ok (insert a (af_addresses s)) ?h ?n (at_place s) (in_calls s)"
  proof (rule functors_okI)
    show "ok g" if "?h b = Some (Some g)" for b g using that I(1) [of b g] f by (auto split: if_splits)
    show "\<exists>g. ?h b = Some (Some g)" if "b \<in> insert a (af_addresses s)" for b using that I(2) [of b] keep [of b] by auto
    fix j b assume j: "j < ?n"
    show "\<exists>g. ?h b = Some (Some g)" if "b \<in> set (in_calls s j)" using keep [OF I(3) [OF j that]] .
    show "b \<in> insert a (af_addresses s)" if "at_place s j = af_enter b" using I(4) [OF j that] by simp
    show "(\<exists>g. ?h b = Some (Some g)) \<and> b \<notin> insert a (af_addresses s)" if "at_place s j = af_claim b \<or> at_place s j = af_reset b"
      using I(5) [OF j that] keep [of b] a by auto
    show "?h b = Some None" if "at_place s j = af_delete b" using I(6) [OF j that] a by auto
  qed
  moreover have "locks_ok ?n (at_place s) (in_calls s)" using inv by (simp add: afar_inv_def)
  ultimately show ?thesis using False by (simp add: afar_inv_def af_add_def af_addresses_def)
qed (use inv in \<open>simp add: af_add_def\<close>)

lemma afar_inv_begin:
  assumes "afar_inv ok s" "i < length (af_threads s)" "p = af_call path \<or> p = af_remove path"
  shows "afar_inv ok (af_begin i p s)"
proof -
  have "af_begin i p s = place_at i (p, in_calls s i) s" by (simp add: af_begin_def split: prod.split)
  then show ?thesis using assms(3) by (auto intro: afar_inv_moves [OF assms(1,2)])
qed

lemma afar_inv_return:
  assumes "afar_inv ok s" "i < length (af_threads s)" "at_place s i = af_rest" "in_calls s i \<noteq> []"
  shows "afar_inv ok (af_return i s)"
proof -
  have "af_return i s = place_at i (af_rest, tl (in_calls s i)) s" using assms(3) by (auto simp: af_return_def split: prod.split)
  moreover have "set (tl (in_calls s i)) \<subseteq> set (in_calls s i)" using assms(4) by (simp add: list.set_sel(2) subsetI)
  ultimately show ?thesis by (auto intro: afar_inv_moves [OF assms(1,2)])
qed

lemma afar_inv_step:
  assumes "afar_step ok s s'" "afar_inv ok s"
  shows "afar_inv ok s'"
  using assms(1)
proof cases
  case (add i a f hit path)
  then show ?thesis using afar_inv_add [OF assms(2)] by simp
next
  case (call i path)
  then show ?thesis using afar_inv_begin [OF assms(2)] by simp
next
  case (destroy i path)
  then show ?thesis using afar_inv_begin [OF assms(2)] by (simp add: callee_destroy_def)
next
  case (remove i path)
  then show ?thesis using afar_inv_begin [OF assms(2)] by simp
next
  case (continue i hit r)
  then show ?thesis using afar_inv_continue [OF assms(2)] by blast
next
  case (return i)
  then show ?thesis using afar_inv_return [OF assms(2)] by simp
qed

lemma afar_inv_reach: "(afar_step ok)\<^sup>*\<^sup>* (named_functors n) s \<Longrightarrow> afar_inv ok s"
  by (induction rule: rtranclp_induct) (auto intro: afar_inv_make afar_inv_step)

section \<open>Properties\<close>

text \<open>
  C16. A functor is not destroyed while it is called: over any interleaving of calls, nested ones among them, with additions and removals by any number of
  threads, and whatever entries the searches find, every functor that is called, or that the table still has, exists and
  holds its function; and no thread that removes one uses it after it is gone.
\<close>

theorem afar_calls_safe:
  assumes "(afar_step ok)\<^sup>*\<^sup>* (named_functors n) s" "i < length (af_threads s)"
  shows "(\<forall>a \<in> set (in_calls s i) \<union> af_addresses s. \<exists>f. af_heap s a = Some (Some f)) \<and>
    (\<forall>a. at_place s i = af_enter a \<or> at_place s i = af_claim a \<or> at_place s i = af_reset a \<longrightarrow> (\<exists>f. af_heap s a = Some (Some f))) \<and>
    (\<forall>a. at_place s i = af_reset a \<or> at_place s i = af_delete a \<longrightarrow> a \<notin> af_addresses s \<and> (\<forall>j < length (af_threads s). a \<notin> set (in_calls s j)))"
proof -
  note I = afar_invD [OF afar_inv_reach [OF assms(1)]]
  have "a \<notin> af_addresses s \<and> (\<forall>j < length (af_threads s). a \<notin> set (in_calls s j))" if "at_place s i = af_reset a \<or> at_place s i = af_delete a" for a
    using that
  proof
    assume r: "at_place s i = af_reset a"
    then show ?thesis using I(5) [OF assms(2), of a] I(7) [OF assms(2) _ r] by simp
  next
    assume d: "at_place s i = af_delete a"
    show ?thesis using I(6) [OF assms(2) d] I(2) [of a] I(3) [of _ a] by fastforce
  qed
  moreover have "\<exists>f. af_heap s a = Some (Some f)" if "at_place s i = af_enter a \<or> at_place s i = af_claim a \<or> at_place s i = af_reset a" for a
    using that I(4) [OF assms(2), of a] I(2) [of a] I(5) [OF assms(2), of a] by auto
  ultimately show ?thesis using I(2) I(3) [OF assms(2)] by blast
qed

text \<open>
  What a call gives is decided by the functor that was added: the outcome of its function when the types of the call are
  those of the function, and the exception for wrong types exactly when they are not.
\<close>

lemma afar_called:
  assumes "(afar_step ok)\<^sup>*\<^sup>* (named_functors n) s" "i < length (af_threads s)" "a \<in> set (in_calls s i)"
  obtains f where "ok f" "af_heap s a = Some (Some f)"
    "af_invoke types x a s = (if fu_types f = types then fu_fun f x else Inl (StdExn ''afar: functor called with wrong types''))"
proof -
  note I = afar_invD [OF afar_inv_reach [OF assms(1)]]
  obtain f where "af_heap s a = Some (Some f)" using I(3) [OF assms(2,3)] by blast
  then show thesis using I(1) that [of f] by (simp add: af_invoke_def)
qed

text \<open>Thread 0 is in a call of functor 0 and waits for the table; thread 1 removes this functor and waits for it with the table locked.\<close>

definition deadlocked :: "('ty, 'v) Functor \<Rightarrow> ('ty, 'v) NamedFunctors" where
  "deadlocked f = \<lparr>af_functors = [], af_heap = [0 \<mapsto> Some f], af_threads = [(af_call ''b'', [0]), (af_claim 0, [])]\<rparr>"

lemma deadlock_steps:
  assumes "ok f"
  shows "(afar_step ok)\<^sup>*\<^sup>* (named_functors 2) (deadlocked f)"
proof -
  let ?st = "\<lambda>t p c q. \<lparr>af_functors = t, af_heap = [0 \<mapsto> Some f], af_threads = [(p, c), (q, [])]\<rparr>"
  let ?t = "[(''a'', 0 :: nat)]"
  have t: "table_writable (?st ?t af_rest c q)" "table_readable (?st ?t af_rest c q)" if "\<not> writes_table q \<and> \<not> reads_table q" for c q
    using that by (simp_all add: table_writable_def table_readable_def)
  have s0: "afar_step ok (named_functors 2) (?st ?t af_rest [] af_rest)"
    using afar_step.add [of 0 "named_functors 2" 0 ok f False "''a''"] assms
    by (simp add: named_functors_def numeral_2_eq_2 table_writable_def af_add_def)
  have s1: "afar_step ok (?st ?t af_rest [] af_rest) (?st ?t (af_call ''a'') [] af_rest)"
    using afar_step.call [of 0 "?st ?t af_rest [] af_rest" ok "''a''"] by (simp add: af_begin_def place_at_def)
  have s2: "afar_step ok (?st ?t (af_call ''a'') [] af_rest) (?st ?t (af_look ''a'') [] af_rest)"
    by (rule afar_step.continue [of 0 _ None]) (simp_all add: af_continue_def place_at_def table_readable_def)
  have s3: "afar_step ok (?st ?t (af_look ''a'') [] af_rest) (?st ?t (af_enter 0) [] af_rest)"
    by (rule afar_step.continue [of 0 _ "Some 0"]) (simp_all add: af_continue_def place_at_def af_addresses_def)
  have s4: "afar_step ok (?st ?t (af_enter 0) [] af_rest) (?st ?t af_rest [0] af_rest)"
    by (rule afar_step.continue [of 0 _ None]) (simp_all add: af_continue_def place_at_def functor_readable_def writes_functor_def)
  have s5: "afar_step ok (?st ?t af_rest [0] af_rest) (?st ?t af_rest [0] (af_remove ''a''))"
    using afar_step.remove [of 1 "?st ?t af_rest [0] af_rest" ok "''a''"] by (simp add: af_begin_def place_at_def)
  have s6: "afar_step ok (?st ?t af_rest [0] (af_remove ''a'')) (?st ?t af_rest [0] (af_seek ''a''))"
    by (rule afar_step.continue [of 1 _ None]) (simp_all add: af_continue_def place_at_def table_writable_def)
  have s7: "afar_step ok (?st ?t af_rest [0] (af_seek ''a'')) (?st [] af_rest [0] (af_claim 0))"
    by (rule afar_step.continue [of 1 _ "Some 0"]) (simp_all add: af_continue_def place_at_def af_addresses_def)
  have s8: "afar_step ok (?st [] af_rest [0] (af_claim 0)) (deadlocked f)"
    using afar_step.call [of 0 "?st [] af_rest [0] (af_claim 0)" ok "''b''"] by (simp add: af_begin_def place_at_def deadlocked_def)
  from s0 s1 s2 s3 s4 s5 s6 s7 s8 show ?thesis by (meson converse_rtranclp_into_rtranclp r_into_rtranclp)
qed

text \<open>
  C38. A functor that makes a call can deadlock with its removal: the removal waits for the functor with the table locked, and the
  call waits for the table.
\<close>

theorem afar_nested_call_deadlocks:
  assumes "ok f"
  shows "(afar_step ok)\<^sup>*\<^sup>* (named_functors 2) (deadlocked f) \<and> (\<nexists>s. afar_step ok (deadlocked f) s)"
proof
  have two: "i = 0 \<or> i = 1" if "i < 2" for i :: nat using that by auto
  have no: "af_continue i hit (deadlocked f) = None" "at_place (deadlocked f) i \<noteq> af_rest" if "i < 2" for i hit
    using two [OF that] by (auto simp: deadlocked_def af_continue_def table_readable_def functor_writable_def)
  have len: "length (af_threads (deadlocked f)) = 2" by (simp add: deadlocked_def)
  show "\<nexists>s. afar_step ok (deadlocked f) s"
    by (auto elim!: afar_step.cases simp: len no)
qed (rule deadlock_steps [of ok, OF assms])

section \<open>Instances\<close>

definition example_functor :: "(nat, int) Functor" where
  "example_functor = \<lparr>fu_types = (1, 0), fu_fun = (\<lambda>x. Inr (x + 1))\<rparr>"

lemma deadlocked_threads: "0 < length (af_threads (deadlocked f))" "0 \<in> set (in_calls (deadlocked f) 0)"
  by (simp_all add: deadlocked_def)

theorem afar_calls_safe_witness:
  "0 \<in> set (in_calls (deadlocked example_functor) 0) \<and> (\<exists>f. af_heap (deadlocked example_functor) 0 = Some (Some f))"
  using conjunct1 [OF afar_calls_safe [OF deadlock_steps [of "\<lambda>_. True" example_functor, OF TrueI] deadlocked_threads(1)]] deadlocked_threads(2) by blast

theorem afar_nested_call_deadlocks_witness:
  "\<nexists>s. afar_step (\<lambda>_. True) (deadlocked example_functor) s"
  using afar_nested_call_deadlocks [of "\<lambda>_. True", OF TrueI] by blast

end
