(* ===== verification/Server_Management.thy ===== *)
theory Server_Management
  imports Server_Services
begin

text \<open>
  The management thread of the directory over its whole life: \<open>run_management_thread\<close>, the destructor of \<open>Services\<close>, and the
  handlers that wake the thread, in \<open>src/telling/server_services.cpp\<close>. What a pass of the thread does is in the
  theory of the directory; here it is when a pass is made.
\<close>

section \<open>State\<close>






section \<open>The thread\<close>




section \<open>Handlers and destructor\<close>






section \<open>Runs\<close>










section \<open>Properties\<close>






end
