(* ===== verification/Msg_Owned.thy ===== *)
theory Msg_Owned
  imports Msg_View
begin

text \<open>
  Messages that are owned: \<open>include/telling/msg.h\<close>, and the streams to the body of a view in \<open>include/telling/msg_view.h\<close>.
  A \<open>Msg\<close> has a pointer to a message of the library and frees it; the messages that exist are a heap.
\<close>

section \<open>The body as a stream\<close>

text \<open>The buffer of \<open>bodyBuf\<close> covers the message from the body on: reading gives the body, and writing, which begins at the end, appends to it.\<close>

definition mv_readBody :: "MsgView \<Rightarrow> string" where
  "mv_readBody v = drop (unat (p_body (mv_layout v))) (mv_raw v)"

definition mv_writeBody :: "string \<Rightarrow> MsgView \<Rightarrow> MsgView" where
  "mv_writeBody text v = v\<lparr>mv_msg := map_option (\<lambda>m. m\<lparr>m_body := m_body m @ text\<rparr>) (mv_msg v)\<rparr>"

section \<open>State\<close>

record Msg =
  ow_ptr :: "nat option"
  ow_layout :: MsgLayout

text \<open>The objects of a program, the messages that exist, and those that are in an \<open>nng::msg\<close>.\<close>

record Msgs =
  ms_objects :: "Msg list"
  ms_heap :: "nat \<rightharpoonup> nng_msg"
  ms_out :: "nat set"

definition msg_default :: Msg where
  "msg_default = \<lparr>ow_ptr = None, ow_layout = parse_reset\<rparr>"

definition msg_view :: "Msg \<Rightarrow> Msgs \<Rightarrow> MsgView" where
  "msg_view x s = \<lparr>mv_layout = ow_layout x, mv_msg = (case ow_ptr x of None \<Rightarrow> None | Some p \<Rightarrow> ms_heap s p)\<rparr>"

section \<open>Operations\<close>

text \<open>Freeing a message that does not exist is undefined.\<close>

definition nng_msg_free :: "nat option \<Rightarrow> Msgs \<Rightarrow> unit result \<times> Msgs" where
  "nng_msg_free ptr s = (case ptr of
      None \<Rightarrow> (Inr (), s)
    | Some p \<Rightarrow> if ms_heap s p = None then (Inl (Undefined ''double free''), s) else (Inr (), s\<lparr>ms_heap := (ms_heap s)(p := None)\<rparr>))"

definition msg_set :: "nat \<Rightarrow> Msg \<Rightarrow> Msgs \<Rightarrow> Msgs" where
  "msg_set i x s = s\<lparr>ms_objects := (ms_objects s)[i := x]\<rparr>"

text \<open>The constructor takes the message out of its \<open>nng::msg\<close> before it is parsed.\<close>

definition msg_construct :: "nat option \<Rightarrow> MSG_TYPE \<Rightarrow> Msgs \<Rightarrow> unit result \<times> Msgs" where
  "msg_construct ptr type s =
    (let s = s\<lparr>ms_out := ms_out s - set_option ptr\<rparr> in
     case msgview_make parse_reset (case ptr of None \<Rightarrow> None | Some p \<Rightarrow> ms_heap s p) type of
       Inl e \<Rightarrow> (Inl e, s)
     | Inr v \<Rightarrow> (Inr (), s\<lparr>ms_objects := ms_objects s @ [\<lparr>ow_ptr = ptr, ow_layout = mv_layout v\<rparr>]\<rparr>))"

definition owned_release :: "nat \<Rightarrow> Msgs \<Rightarrow> nat option \<times> Msgs" where
  "owned_release i s = (let x = ms_objects s ! i in (ow_ptr x, msg_set i (x\<lparr>ow_ptr := None\<rparr>) s))"

definition msg_take :: "nat \<Rightarrow> Msgs \<Rightarrow> nat option \<times> Msgs" where
  "msg_take i s = (case owned_release i s of (ptr, s) \<Rightarrow> (ptr, s\<lparr>ms_out := ms_out s \<union> set_option ptr\<rparr>))"

definition owned_free :: "nat \<Rightarrow> Msgs \<Rightarrow> unit result \<times> Msgs" where
  "owned_free i s = (case owned_release i s of (ptr, s) \<Rightarrow> nng_msg_free ptr s)"

definition owned_move :: "nat \<Rightarrow> Msgs \<Rightarrow> Msgs" where
  "owned_move i s = (let s' = snd (owned_release i s) in s'\<lparr>ms_objects := ms_objects s' @ [ms_objects s ! i]\<rparr>)"

text \<open>Assignment, also of an object to itself.\<close>

definition owned_assign :: "nat \<Rightarrow> nat \<Rightarrow> Msgs \<Rightarrow> unit result \<times> Msgs" where
  "owned_assign i j s = (case owned_free i s of
      (Inl e, s) \<Rightarrow> (Inl e, s)
    | (Inr _, s) \<Rightarrow> (Inr (), snd (owned_release j (msg_set i (ms_objects s ! j) s))))"

text \<open>
  A clone: the message is wrapped, copied, and unwrapped. \<open>made\<close> is the outcome of copying. When copying throws, the wrapper
  is destroyed, and the message with it.
\<close>

definition owned_clone :: "nng_error + nat option \<Rightarrow> nat \<Rightarrow> Msgs \<Rightarrow> unit result \<times> Msgs" where
  "owned_clone made i s =
    (let x = ms_objects s ! i in
     case made of
       Inl e \<Rightarrow> (case nng_msg_free (ow_ptr x) s of (Inl e', s) \<Rightarrow> (Inl e', s) | (Inr _, s) \<Rightarrow> (Inl (NngExn e ''nng::msg''), s))
     | Inr ptr \<Rightarrow>
         (Inr (), s\<lparr>ms_objects := ms_objects s @ [x\<lparr>ow_ptr := ptr\<rparr>],
            ms_heap := (case ptr of None \<Rightarrow> ms_heap s | Some p \<Rightarrow> (ms_heap s)(p := ms_heap s (the (ow_ptr x))))\<rparr>))"

text \<open>The end of an object.\<close>

definition owned_destroy :: "nat \<Rightarrow> Msgs \<Rightarrow> unit result \<times> Msgs" where
  "owned_destroy i s = (case owned_free i s of (r, s) \<Rightarrow> (r, s\<lparr>ms_objects := take i (ms_objects s) @ drop (Suc i) (ms_objects s)\<rparr>))"

section \<open>Ownership\<close>

definition msg_ptrs :: "Msg list \<Rightarrow> nat list" where
  "msg_ptrs xs = List.map_filter ow_ptr xs"

text \<open>Every message of an object exists, and it is that of no other object and in no \<open>nng::msg\<close>.\<close>

definition owned_inv :: "Msgs \<Rightarrow> bool" where
  "owned_inv s \<longleftrightarrow> distinct (msg_ptrs (ms_objects s)) \<and> set (msg_ptrs (ms_objects s)) \<inter> ms_out s = {} \<and>
    set (msg_ptrs (ms_objects s)) \<union> ms_out s \<subseteq> dom (ms_heap s)"

text \<open>
  What a program does with its messages: new ones arrive, and objects are made, released, moved, assigned, cloned and destroyed. Copying a null message gives a null message, and
  copying another gives a new one or fails. Each step says whether a copy has failed in it.
\<close>

datatype copying = Copied | CopyFailed nng_error

inductive owned_step :: "copying \<Rightarrow> Msgs \<Rightarrow> Msgs \<Rightarrow> bool" where
  arrive: "ms_heap s p = None \<Longrightarrow> owned_step Copied s (s\<lparr>ms_heap := (ms_heap s)(p \<mapsto> m), ms_out := insert p (ms_out s)\<rparr>)"
| construct: "set_option ptr \<subseteq> ms_out s \<Longrightarrow> owned_step Copied s (snd (msg_construct ptr type s))"
| take: "i < length (ms_objects s) \<Longrightarrow> owned_step Copied s (snd (msg_take i s))"
| move: "i < length (ms_objects s) \<Longrightarrow> owned_step Copied s (owned_move i s)"
| assign: "i < length (ms_objects s) \<Longrightarrow> j < length (ms_objects s) \<Longrightarrow> owned_step Copied s (snd (owned_assign i j s))"
| clone: "i < length (ms_objects s) \<Longrightarrow> (case ow_ptr (ms_objects s ! i) of None \<Rightarrow> ptr = None | Some _ \<Rightarrow> \<exists>p. ptr = Some p \<and> ms_heap s p = None) \<Longrightarrow>
    owned_step Copied s (snd (owned_clone (Inr ptr) i s))"
| clone_fails: "i < length (ms_objects s) \<Longrightarrow> ow_ptr (ms_objects s ! i) \<noteq> None \<Longrightarrow> owned_step (CopyFailed e) s (snd (owned_clone (Inl e) i s))"
| destroy: "i < length (ms_objects s) \<Longrightarrow> owned_step Copied s (snd (owned_destroy i s))"

section \<open>Lemmas\<close>

lemma msg_ptrs_simps [simp]: "msg_ptrs [] = []" "msg_ptrs (x # xs) = (case ow_ptr x of None \<Rightarrow> msg_ptrs xs | Some p \<Rightarrow> p # msg_ptrs xs)"
  "msg_ptrs (xs @ ys) = msg_ptrs xs @ msg_ptrs ys"
proof -
  show cons: "msg_ptrs (x # xs) = (case ow_ptr x of None \<Rightarrow> msg_ptrs xs | Some p \<Rightarrow> p # msg_ptrs xs)" for x xs
    by (simp add: msg_ptrs_def map_filter_simps split: option.split)
  show nil: "msg_ptrs [] = []" by (simp add: msg_ptrs_def map_filter_simps)
  show "msg_ptrs (xs @ ys) = msg_ptrs xs @ msg_ptrs ys" by (induction xs) (simp_all add: cons nil split: option.split)
qed

lemma owned_released:
  assumes "i < length (ms_objects s)" "owned_inv s"
  obtains s' ptr where "owned_release i s = (ptr, s')" "ptr = ow_ptr (ms_objects s ! i)" "ms_heap s' = ms_heap s" "ms_out s' = ms_out s"
    "ms_objects s' = (ms_objects s)[i := (ms_objects s ! i)\<lparr>ow_ptr := None\<rparr>]" "distinct (msg_ptrs (ms_objects s'))"
    "set (msg_ptrs (ms_objects s')) = set (msg_ptrs (ms_objects s)) - set_option ptr" "set_option ptr \<subseteq> set (msg_ptrs (ms_objects s))"
proof -
  let ?x = "ms_objects s ! i" and ?a = "take i (ms_objects s)" and ?b = "drop (Suc i) (ms_objects s)"
  have xs: "ms_objects s = ?a @ ?x # ?b" using assms(1) by (rule id_take_nth_drop)
  have upd: "(ms_objects s)[i := y] = ?a @ y # ?b" for y using assms(1) by (rule upd_conv_take_nth_drop)
  have p: "msg_ptrs (ms_objects s) = msg_ptrs ?a @ (case ow_ptr ?x of None \<Rightarrow> msg_ptrs ?b | Some p \<Rightarrow> p # msg_ptrs ?b)"
    by (subst xs) simp
  have d: "distinct (msg_ptrs (ms_objects s))" using assms(2) by (simp add: owned_inv_def)
  show thesis
  proof (rule that [of "ow_ptr ?x" "msg_set i (?x\<lparr>ow_ptr := None\<rparr>) s"])
    show "distinct (msg_ptrs (ms_objects (msg_set i (?x\<lparr>ow_ptr := None\<rparr>) s)))"
      using d unfolding p msg_set_def by (simp add: upd split: option.splits)
    show "set (msg_ptrs (ms_objects (msg_set i (?x\<lparr>ow_ptr := None\<rparr>) s))) = set (msg_ptrs (ms_objects s)) - set_option (ow_ptr ?x)"
      using d unfolding p msg_set_def by (auto simp: upd split: option.splits)
    show "set_option (ow_ptr ?x) \<subseteq> set (msg_ptrs (ms_objects s))" unfolding p by (auto split: option.split)
  qed (simp_all add: owned_release_def msg_set_def Let_def)
qed

lemma ptr_of: "i < length xs \<Longrightarrow> ow_ptr (xs ! i) = Some p \<Longrightarrow> p \<in> set (msg_ptrs xs)"
  by (induction xs arbitrary: i) (auto simp: nth_Cons split: nat.splits option.splits)

text \<open>Freeing what an object has never fails, and leaves the rest in order.\<close>

lemma owned_freed:
  assumes "i < length (ms_objects s)" "owned_inv s"
  obtains s' where "owned_free i s = (Inr (), s')" "owned_inv s'" "ms_objects s' = (ms_objects s)[i := (ms_objects s ! i)\<lparr>ow_ptr := None\<rparr>]"
    "ms_out s' = ms_out s" "dom (ms_heap s') = dom (ms_heap s) - set_option (ow_ptr (ms_objects s ! i))"
proof -
  from owned_released [OF assms] obtain s1 ptr where r: "owned_release i s = (ptr, s1)" "ptr = ow_ptr (ms_objects s ! i)" "ms_heap s1 = ms_heap s" "ms_out s1 = ms_out s"
    "ms_objects s1 = (ms_objects s)[i := (ms_objects s ! i)\<lparr>ow_ptr := None\<rparr>]" "distinct (msg_ptrs (ms_objects s1))"
    "set (msg_ptrs (ms_objects s1)) = set (msg_ptrs (ms_objects s)) - set_option ptr" "set_option ptr \<subseteq> set (msg_ptrs (ms_objects s))" .
  show thesis
  proof (cases ptr)
    case None
    have "owned_inv s1" using r None assms(2) by (simp add: owned_inv_def)
    moreover have "owned_free i s = (Inr (), s1)" using r(1) None by (simp add: owned_free_def nng_msg_free_def)
    ultimately show thesis using r None by (intro that [of s1]) simp_all
  next
    case (Some p)
    have p: "p \<in> set (msg_ptrs (ms_objects s))" "p \<notin> ms_out s" "p \<in> dom (ms_heap s)" using r(8) Some assms(2) by (auto simp: owned_inv_def)
    have "owned_inv (s1\<lparr>ms_heap := (ms_heap s1)(p := None)\<rparr>)" using r(3,4,6,7) Some p assms(2) by (auto simp: owned_inv_def)
    moreover have "owned_free i s = (Inr (), s1\<lparr>ms_heap := (ms_heap s1)(p := None)\<rparr>)"
      using r(1,3) Some p(3) by (auto simp: owned_free_def nng_msg_free_def)
    moreover have "ow_ptr (ms_objects s ! i) = Some p" using r(2) Some by simp
    ultimately show thesis using r(3-5) by (intro that [of "s1\<lparr>ms_heap := (ms_heap s1)(p := None)\<rparr>"]) simp_all
  qed
qed

lemma msg_ptrs_removed:
  assumes "i < length xs" "ow_ptr (xs ! i) = None"
  shows "msg_ptrs (take i xs @ drop (Suc i) xs) = msg_ptrs xs"
proof -
  have "msg_ptrs xs = msg_ptrs (take i xs @ xs ! i # drop (Suc i) xs)" using id_take_nth_drop [OF assms(1)] by simp
  with assms(2) show ?thesis by simp
qed

lemma owned_inv_destroy:
  assumes "i < length (ms_objects s)" "owned_inv s"
  shows "fst (owned_destroy i s) = Inr () \<and> owned_inv (snd (owned_destroy i s))"
proof -
  from owned_freed [OF assms] obtain s' where f: "owned_free i s = (Inr (), s')" "owned_inv s'"
    "ms_objects s' = (ms_objects s)[i := (ms_objects s ! i)\<lparr>ow_ptr := None\<rparr>]" "ms_out s' = ms_out s"
    "dom (ms_heap s') = dom (ms_heap s) - set_option (ow_ptr (ms_objects s ! i))" .
  have "msg_ptrs (take i (ms_objects s') @ drop (Suc i) (ms_objects s')) = msg_ptrs (ms_objects s')"
    by (rule msg_ptrs_removed) (simp_all add: f(3) assms(1))
  with f(1,2) show ?thesis by (simp add: owned_destroy_def owned_inv_def)
qed

lemma owned_inv_move:
  assumes "i < length (ms_objects s)" "owned_inv s"
  shows "owned_inv (owned_move i s)"
proof -
  from owned_released [OF assms] obtain s1 ptr where r: "owned_release i s = (ptr, s1)" "ptr = ow_ptr (ms_objects s ! i)" "ms_heap s1 = ms_heap s" "ms_out s1 = ms_out s"
    "ms_objects s1 = (ms_objects s)[i := (ms_objects s ! i)\<lparr>ow_ptr := None\<rparr>]"
    "distinct (msg_ptrs (ms_objects s1))" "set (msg_ptrs (ms_objects s1)) = set (msg_ptrs (ms_objects s)) - set_option ptr"
    "set_option ptr \<subseteq> set (msg_ptrs (ms_objects s))" .
  show ?thesis
    using r(1-4,6-8) assms(2) by (cases "ow_ptr (ms_objects s ! i)") (auto simp: owned_move_def owned_inv_def Let_def)
qed

lemma owned_inv_assign:
  assumes i: "i < length (ms_objects s)" and j: "j < length (ms_objects s)" and inv: "owned_inv s"
  shows "fst (owned_assign i j s) = Inr () \<and> owned_inv (snd (owned_assign i j s))"
proof -
  from owned_freed [OF i inv] obtain s1 where f: "owned_free i s = (Inr (), s1)" "owned_inv s1"
    "ms_objects s1 = (ms_objects s)[i := (ms_objects s ! i)\<lparr>ow_ptr := None\<rparr>]" "ms_out s1 = ms_out s"
    "dom (ms_heap s1) = dom (ms_heap s) - set_option (ow_ptr (ms_objects s ! i))" .
  have i1: "i < length (ms_objects s1)" and j1: "j < length (ms_objects s1)" using f(3) i j by simp_all
  have none: "ow_ptr (ms_objects s1 ! i) = None" using f(3) i by simp
  let ?x = "ms_objects s1 ! j"
  from owned_released [OF j1 f(2)] obtain s2 ptr where r: "owned_release j s1 = (ptr, s2)" "ptr = ow_ptr ?x" "ms_heap s2 = ms_heap s1" "ms_out s2 = ms_out s1"
    "ms_objects s2 = (ms_objects s1)[j := ?x\<lparr>ow_ptr := None\<rparr>]" "distinct (msg_ptrs (ms_objects s2))"
    "set (msg_ptrs (ms_objects s2)) = set (msg_ptrs (ms_objects s1)) - set_option ptr" "set_option ptr \<subseteq> set (msg_ptrs (ms_objects s1))" .
  show ?thesis
  proof (cases "i = j")
    case True
    have "snd (owned_release j (msg_set i ?x s1)) = s2" using True r(1) by (simp add: msg_set_def)
    moreover have "owned_inv s2" using r(2-4,6,7) none True f(2) by (simp add: owned_inv_def)
    ultimately show ?thesis using f(1) by (simp add: owned_assign_def)
  next
    case False
    let ?a = "take i (ms_objects s2)" and ?b = "drop (Suc i) (ms_objects s2)"
    have i2: "i < length (ms_objects s2)" using r(5) i1 by simp
    have s3: "snd (owned_release j (msg_set i ?x s1)) = s2\<lparr>ms_objects := (ms_objects s2)[i := ?x]\<rparr>"
      using r(1,5) False by (auto simp: owned_release_def msg_set_def Let_def list_update_swap)
    have "ow_ptr (ms_objects s2 ! i) = None" using none r(5) False by simp
    then have p2: "msg_ptrs (ms_objects s2) = msg_ptrs ?a @ msg_ptrs ?b" using msg_ptrs_removed [OF i2] by simp
    have p3: "msg_ptrs ((ms_objects s2)[i := ?x]) = msg_ptrs ?a @ msg_ptrs [?x] @ msg_ptrs ?b"
      unfolding upd_conv_take_nth_drop [OF i2] by (simp split: option.split)
    have "owned_inv (s2\<lparr>ms_objects := (ms_objects s2)[i := ?x]\<rparr>)"
      using f(2) r(2-4,6-8) p2 p3 by (auto simp: owned_inv_def split: option.splits)
    then show ?thesis using f(1) s3 by (simp add: owned_assign_def)
  qed
qed

lemma owned_inv_construct:
  assumes "owned_inv s" "set_option ptr \<subseteq> ms_out s"
  shows "owned_inv (snd (msg_construct ptr type s))"
  using assms by (cases ptr) (auto simp: msg_construct_def owned_inv_def Let_def split: sum.split)

lemma owned_inv_take:
  assumes "i < length (ms_objects s)" "owned_inv s"
  shows "owned_inv (snd (msg_take i s))"
proof -
  from owned_released [OF assms] obtain s1 ptr where r: "owned_release i s = (ptr, s1)" "ptr = ow_ptr (ms_objects s ! i)" "ms_heap s1 = ms_heap s" "ms_out s1 = ms_out s"
    "ms_objects s1 = (ms_objects s)[i := (ms_objects s ! i)\<lparr>ow_ptr := None\<rparr>]" "distinct (msg_ptrs (ms_objects s1))"
    "set (msg_ptrs (ms_objects s1)) = set (msg_ptrs (ms_objects s)) - set_option ptr" "set_option ptr \<subseteq> set (msg_ptrs (ms_objects s))" .
  show ?thesis using r(1,3,4,6-8) assms(2) by (auto simp: msg_take_def owned_inv_def)
qed

lemma owned_inv_clone:
  assumes "i < length (ms_objects s)" "owned_inv s"
    and "case ow_ptr (ms_objects s ! i) of None \<Rightarrow> ptr = None | Some _ \<Rightarrow> \<exists>p. ptr = Some p \<and> ms_heap s p = None"
  shows "owned_inv (snd (owned_clone (Inr ptr) i s))"
proof (cases "ow_ptr (ms_objects s ! i)")
  case None
  with assms(2,3) show ?thesis by (simp add: owned_clone_def owned_inv_def Let_def)
next
  case (Some q)
  with assms(3) obtain p where p: "ptr = Some p" "ms_heap s p = None" by auto
  have q: "ms_heap s q \<noteq> None" using ptr_of [OF assms(1) Some] assms(2) by (auto simp: owned_inv_def)
  have "p \<notin> set (msg_ptrs (ms_objects s)) \<union> ms_out s" using p(2) assms(2) by (auto simp: owned_inv_def)
  with p q Some assms(2) show ?thesis by (auto simp: owned_clone_def owned_inv_def Let_def)
qed

lemma owned_inv_step:
  assumes "owned_step Copied s s'" "owned_inv s"
  shows "owned_inv s'"
  using assms(1)
proof cases
  case (arrive p m)
  then have "p \<notin> set (msg_ptrs (ms_objects s))" using assms(2) by (auto simp: owned_inv_def)
  with arrive assms(2) show ?thesis by (auto simp: owned_inv_def)
qed (use assms(2) owned_inv_construct owned_inv_take owned_inv_move owned_inv_assign owned_inv_clone owned_inv_destroy in auto)

definition no_msgs :: Msgs where
  "no_msgs = \<lparr>ms_objects = [], ms_heap = Map.empty, ms_out = {}\<rparr>"

lemma owned_inv_reach: "(owned_step Copied)\<^sup>*\<^sup>* no_msgs s \<Longrightarrow> owned_inv s"
proof (induction rule: rtranclp_induct)
  case base
  show ?case by (simp add: no_msgs_def owned_inv_def)
qed (rule owned_inv_step)

section \<open>Properties\<close>

lemma clone_failure:
  assumes "owned_inv s" "i < length (ms_objects s)" "ow_ptr (ms_objects s ! i) = Some p"
  shows "fst (owned_clone (Inl e) i s) = Inl (NngExn e ''nng::msg'')" "ms_objects (snd (owned_clone (Inl e) i s)) = ms_objects s"
    "ms_heap (snd (owned_clone (Inl e) i s)) p = None" "fst (owned_destroy i (snd (owned_clone (Inl e) i s))) = Inl (Undefined ''double free'')"
proof -
  have "ms_heap s p \<noteq> None" using ptr_of [OF assms(2,3)] assms(1) by (auto simp: owned_inv_def)
  then show "fst (owned_clone (Inl e) i s) = Inl (NngExn e ''nng::msg'')" "ms_objects (snd (owned_clone (Inl e) i s)) = ms_objects s"
    "ms_heap (snd (owned_clone (Inl e) i s)) p = None" "fst (owned_destroy i (snd (owned_clone (Inl e) i s))) = Inl (Undefined ''double free'')"
    using assms(2,3) by (simp_all add: owned_clone_def nng_msg_free_def owned_destroy_def owned_free_def owned_release_def msg_set_def Let_def)
qed

text \<open>
  C15. Every message has one owner as long as no copy for a clone fails: whatever else a program does with its messages, no two objects have the same message, the message of an object exists
  and is not in the hands of the program as well, and no destruction or assignment, of an object to itself either, frees a message twice. The first clone whose
  copy fails ends this: it frees the message of the original, which keeps its pointer and frees the message again when it is destroyed.
\<close>

theorem msg_single_owner:
  assumes "(owned_step Copied)\<^sup>*\<^sup>* no_msgs s" "i < length (ms_objects s)" "j < length (ms_objects s)"
  shows "(i \<noteq> j \<and> ow_ptr (ms_objects s ! i) \<noteq> None \<longrightarrow> ow_ptr (ms_objects s ! i) \<noteq> ow_ptr (ms_objects s ! j)) \<and>
    (\<forall>p. ow_ptr (ms_objects s ! i) = Some p \<longrightarrow> ms_heap s p \<noteq> None \<and> p \<notin> ms_out s) \<and>
    fst (owned_destroy i s) = Inr () \<and> fst (owned_assign i j s) = Inr () \<and>
    (\<forall>p e. ow_ptr (ms_objects s ! i) = Some p \<longrightarrow> (\<exists>s'. owned_step (CopyFailed e) s s' \<and> owned_clone (Inl e) i s = (Inl (NngExn e ''nng::msg''), s') \<and>
      ow_ptr (ms_objects s' ! i) = Some p \<and> ms_heap s' p = None \<and> fst (owned_destroy i s') = Inl (Undefined ''double free'')))"
proof (intro conjI)
  have inv: "owned_inv s" using owned_inv_reach [OF assms(1)] .
  show "i \<noteq> j \<and> ow_ptr (ms_objects s ! i) \<noteq> None \<longrightarrow> ow_ptr (ms_objects s ! i) \<noteq> ow_ptr (ms_objects s ! j)"
  proof (intro impI notI)
    assume a: "i \<noteq> j \<and> ow_ptr (ms_objects s ! i) \<noteq> None" "ow_ptr (ms_objects s ! i) = ow_ptr (ms_objects s ! j)"
    then obtain p where p: "ow_ptr (ms_objects s ! i) = Some p" "ow_ptr (ms_objects s ! j) = Some p" by auto
    from owned_released [OF assms(2) inv] obtain s1 ptr where r: "owned_release i s = (ptr, s1)" "ptr = ow_ptr (ms_objects s ! i)" "ms_heap s1 = ms_heap s" "ms_out s1 = ms_out s"
      "ms_objects s1 = (ms_objects s)[i := (ms_objects s ! i)\<lparr>ow_ptr := None\<rparr>]" "distinct (msg_ptrs (ms_objects s1))"
      "set (msg_ptrs (ms_objects s1)) = set (msg_ptrs (ms_objects s)) - set_option ptr" "set_option ptr \<subseteq> set (msg_ptrs (ms_objects s))" .
    have "p \<in> set (msg_ptrs (ms_objects s1))" using a(1) assms(3) p(2) by (intro ptr_of [of j]) (simp_all add: r(5))
    with r(2,7) p(1) show False by simp
  qed
  show "\<forall>p. ow_ptr (ms_objects s ! i) = Some p \<longrightarrow> ms_heap s p \<noteq> None \<and> p \<notin> ms_out s"
    using ptr_of [OF assms(2)] inv by (auto simp: owned_inv_def)
  show "fst (owned_destroy i s) = Inr ()" "fst (owned_assign i j s) = Inr ()"
    using owned_inv_destroy [OF assms(2) inv] owned_inv_assign [OF assms(2,3) inv] by simp_all
  show "\<forall>p e. ow_ptr (ms_objects s ! i) = Some p \<longrightarrow> (\<exists>s'. owned_step (CopyFailed e) s s' \<and> owned_clone (Inl e) i s = (Inl (NngExn e ''nng::msg''), s') \<and>
      ow_ptr (ms_objects s' ! i) = Some p \<and> ms_heap s' p = None \<and> fst (owned_destroy i s') = Inl (Undefined ''double free''))"
  proof (intro allI impI)
    fix p e assume p: "ow_ptr (ms_objects s ! i) = Some p"
    have "owned_step (CopyFailed e) s (snd (owned_clone (Inl e) i s))" using owned_step.clone_fails [OF assms(2)] p by simp
    with clone_failure [OF inv assms(2) p, of e] p
    show "\<exists>s'. owned_step (CopyFailed e) s s' \<and> owned_clone (Inl e) i s = (Inl (NngExn e ''nng::msg''), s') \<and>
      ow_ptr (ms_objects s' ! i) = Some p \<and> ms_heap s' p = None \<and> fst (owned_destroy i s') = Inl (Undefined ''double free'')"
      by (intro exI [of _ "snd (owned_clone (Inl e) i s)"]) (simp add: prod_eq_iff)
  qed
qed

lemma in_bounds_take: "in_bounds (length s) r \<Longrightarrow> take (snd r) (drop (fst r) (s @ t)) = take (snd r) (drop (fst r) s)"
  by (auto simp: in_bounds_def)

text \<open>What is written to the body of a parsed message is read back after what was there, and the rest of the view stays.\<close>

theorem body_stream:
  assumes "msgview_make L0 (Some m) t = Inr v" "length (m_body m) + length text < 2 ^ 64"
  shows "mv_readBody v = mv_bodyString v \<and> mv_bodyString (mv_writeBody text v) = mv_bodyString v @ text \<and>
    mv_startLine (mv_writeBody text v) = mv_startLine v \<and> mv_headers (mv_writeBody text v) = mv_headers v"
proof -
  obtain L where p: "parse_msg (m_body m) t L0 = (Inr (), L)" and v: "v = \<lparr>mv_layout = L, mv_msg = Some m\<rparr>"
    using assms(1) by (auto simp: msgview_make_def split: prod.splits sum.splits)
  have ok: "layout_ok (length (m_body m)) L" by (rule parse_msg_layout_ok [OF p])
  have le: "unat (p_body L) \<le> length (m_body m)" using ok by (simp add: layout_ok_def)
  note b = layout_ok_in_bounds [OF ok]
  have size: "to_size_t (int (length (m_body m) + k) - uint (p_body L)) = length (m_body m) + k - unat (p_body L)" if "k \<le> length text" for k
  proof -
    have e: "int (length (m_body m) + k) - uint (p_body L) = int (length (m_body m) + k - unat (p_body L))" using le by (simp add: of_nat_diff)
    have "int (length (m_body m) + k - unat (p_body L)) < 2 ^ 64" using assms(2) that by simp
    then show ?thesis unfolding e by (subst to_size_t_id) simp_all
  qed
  have s0: "mv_bodyString v = drop (unat (p_body L)) (m_body m)"
    using size [of 0] le by (simp add: v mv_bodyString_def mv_bodySize_def mv_string_def mv_raw_def)
  have s1: "mv_bodyString (mv_writeBody text v) = drop (unat (p_body L)) (m_body m @ text)"
    using size [of "length text"] le by (simp add: v mv_bodyString_def mv_bodySize_def mv_string_def mv_raw_def mv_writeBody_def)
  have w: "mv_layout (mv_writeBody text v) = L" "mv_raw (mv_writeBody text v) = m_body m @ text" "mv_layout v = L" "mv_raw v = m_body m"
    by (simp_all add: v mv_raw_def mv_writeBody_def)
  have str: "mv_string (mv_writeBody text v) r = mv_string v r" if "in_bounds (length (m_body m)) r" for r
    unfolding mv_string_def w by (rule in_bounds_take [OF that])
  have "mv_startLine (mv_writeBody text v) = mv_startLine v" "mv_headers (mv_writeBody text v) = mv_headers v"
    unfolding mv_startLine_def mv_headers_def w(1,3) str [OF b(1)] str [OF b(2)] by (rule refl)+
  moreover have "mv_readBody v = mv_bodyString v" unfolding s0 mv_readBody_def w ..
  moreover have "mv_bodyString (mv_writeBody text v) = mv_bodyString v @ text" unfolding s0 s1 using le by simp
  ultimately show ?thesis by blast
qed

section \<open>Instances\<close>

definition example_owned :: Msgs where
  "example_owned = snd (msg_construct (Some 3) UNKNOWN \<lparr>ms_objects = [], ms_heap = [3 \<mapsto> sample_msg], ms_out = {3}\<rparr>)"

lemma example_owned_reach: "(owned_step Copied)\<^sup>*\<^sup>* no_msgs example_owned"
proof -
  let ?s = "\<lparr>ms_objects = [], ms_heap = [3 \<mapsto> sample_msg], ms_out = {3}\<rparr>"
  have "owned_step Copied no_msgs ?s" using owned_step.arrive [of no_msgs 3 sample_msg] by (simp add: no_msgs_def)
  moreover have "owned_step Copied ?s example_owned" unfolding example_owned_def by (rule owned_step.construct) simp
  ultimately show ?thesis by (meson converse_rtranclp_into_rtranclp r_into_rtranclp)
qed

lemma example_owned_objects: "\<exists>L. ms_objects example_owned = [\<lparr>ow_ptr = Some 3, ow_layout = L\<rparr>]"
proof -
  obtain v where "msgview_make parse_reset (Some sample_msg) UNKNOWN = Inr v" by (rule sample_view)
  then show ?thesis by (simp add: example_owned_def msg_construct_def Let_def)
qed

text \<open>An object and its clone.\<close>

definition example_cloned :: Msgs where
  "example_cloned = snd (owned_clone (Inr (Some 4)) 0 example_owned)"

lemma example_cloned:
  "(owned_step Copied)\<^sup>*\<^sup>* no_msgs example_cloned" "map ow_ptr (ms_objects example_cloned) = [Some 3, Some 4]"
proof -
  obtain L where o: "ms_objects example_owned = [\<lparr>ow_ptr = Some 3, ow_layout = L\<rparr>]" using example_owned_objects by blast
  have "ms_heap example_owned 4 = None" by (simp add: example_owned_def msg_construct_def Let_def split: sum.split)
  then have "owned_step Copied example_owned example_cloned" unfolding example_cloned_def by (intro owned_step.clone) (simp_all add: o)
  with example_owned_reach show "(owned_step Copied)\<^sup>*\<^sup>* no_msgs example_cloned" by (rule rtranclp.rtrancl_into_rtrancl)
  show "map ow_ptr (ms_objects example_cloned) = [Some 3, Some 4]" by (simp add: example_cloned_def owned_clone_def o Let_def)
qed

theorem msg_single_owner_witness:
  "map ow_ptr (ms_objects example_cloned) = [Some 3, Some 4] \<and> fst (owned_destroy 0 example_cloned) = Inr () \<and> fst (owned_assign 0 1 example_cloned) = Inr () \<and>
    fst (owned_destroy 0 (snd (owned_clone (Inl nng_nospc) 0 example_cloned))) = Inl (Undefined ''double free'')"
proof -
  have l: "length (ms_objects example_cloned) = 2" "ow_ptr (ms_objects example_cloned ! 0) = Some 3"
    using arg_cong [OF example_cloned(2), of length] arg_cong [OF example_cloned(2), of "\<lambda>xs. xs ! 0"] by (simp_all add: nth_map)
  then have "0 < length (ms_objects example_cloned)" "1 < length (ms_objects example_cloned)" by simp_all
  note single = msg_single_owner [OF example_cloned(1) this]
  then obtain s' where "owned_clone (Inl nng_nospc) 0 example_cloned = (Inl (NngExn nng_nospc ''nng::msg''), s')" "fst (owned_destroy 0 s') = Inl (Undefined ''double free'')"
    using l(2) by blast
  with single example_cloned(2) show ?thesis by simp
qed

theorem body_stream_witness:
  "\<exists>v. msgview_make parse_reset (Some sample_msg) UNKNOWN = Inr v \<and> mv_bodyString (mv_writeBody ''yz'' v) = mv_bodyString v @ ''yz''"
proof -
  obtain v where v: "msgview_make parse_reset (Some sample_msg) UNKNOWN = Inr v" by (rule sample_view)
  have "length (m_body sample_msg) + length ''yz'' < 2 ^ 64" by (simp add: sample_msg_def msg_head_def field_line_def)
  from body_stream [OF v this] v show ?thesis by blast
qed

end
