(* ===== verification/Array_Hash.thy ===== *)
theory Array_Hash
  imports Prefix_Map "HOL-Library.Multiset"
begin

unbundle bit_operations_syntax

text \<open>
  The hash table of the leaves of a trie: \<open>array_hash\<close> in \<open>thirdparty/include/tsl/array-hash/array_hash.h\<close>, with the growth policy of
  \<open>array_growth_policy.h\<close>. It is modelled for a mapped type, indexes of 16 bits, keys without terminator and the load factor \<open>8\<close> that the trie
  uses. The buffer of a bucket is the list of its entries; an iterator is the key it is at. The hash function is a parameter.
\<close>

type_synonym u64 = "64 word"

section \<open>Growth policy\<close>

definition is_power_of_two :: "u64 \<Rightarrow> bool" where
  "is_power_of_two n \<longleftrightarrow> n \<noteq> 0 \<and> n AND (n - 1) = 0"

text \<open>The loop over the shifts \<open>1, 2, 4\<close> and so on below the width.\<close>

definition smear :: "nat \<Rightarrow> u64 \<Rightarrow> u64" where
  "smear i n = n OR drop_bit i n"

definition round_up_to_power_of_two :: "u64 \<Rightarrow> u64" where
  "round_up_to_power_of_two n =
    (if is_power_of_two n then n else if n = 0 then 1
     else fold smear [1, 2, 4, 8, 16, 32] (n - 1) + 1)"

definition max_bucket_count :: u64 where
  "max_bucket_count = 2 ^ 63"

text \<open>The policy is its mask; \<open>policy_make\<close> gives it with the number of buckets.\<close>

definition policy_make :: "u64 \<Rightarrow> (u64 \<times> u64) result" where
  "policy_make n =
    (if n > max_bucket_count then Inl (StdExn ''The hash table exceeds its maximum size.'')
     else if n > 0 then (let n = round_up_to_power_of_two n in Inr (n - 1, n))
     else Inr (0, 0))"

definition bucket_for_hash :: "u64 \<Rightarrow> u64 \<Rightarrow> nat" where
  "bucket_for_hash msk h = unat (h AND msk)"

definition next_bucket_count :: "u64 \<Rightarrow> u64 result" where
  "next_bucket_count msk =
    (if msk + 1 > max_bucket_count div 4 then Inl (StdExn ''The hash table exceeds its maximum size.'')
     else Inr ((msk + 1) * 4))"

section \<open>State\<close>

text \<open>An entry of a bucket is a key and the index of its value.\<close>

type_synonym bucket = "(string \<times> nat) list"

record 'v array_hash =
  ah_buckets :: "bucket list"
  ah_mask :: u64
  ah_values :: "'v list"
  ah_nb :: nat
  ah_threshold :: nat

abbreviation (input) MAX_LOAD_FACTOR :: nat where "MAX_LOAD_FACTOR \<equiv> 8"

abbreviation (input) MAX_INDEX :: nat where "MAX_INDEX \<equiv> 65535"

definition array_hash_make :: "u64 \<Rightarrow> 'v array_hash result" where
  "array_hash_make bucket_count =
    (case policy_make bucket_count of
      Inl e \<Rightarrow> Inl e
    | Inr (m, n) \<Rightarrow> Inr \<lparr>ah_buckets = replicate (unat n) [], ah_mask = m, ah_values = [], ah_nb = 0, ah_threshold = unat n * MAX_LOAD_FACTOR\<rparr>)"

text \<open>What an iteration over the table gives, bucket by bucket.\<close>

definition ah_positions :: "'v array_hash \<Rightarrow> (string \<times> nat) list" where
  "ah_positions h = concat (ah_buckets h)"

definition ah_entries :: "'v array_hash \<Rightarrow> (string \<times> 'v) list" where
  "ah_entries h = map (\<lambda>(k, i). (k, ah_values h ! i)) (ah_positions h)"

section \<open>Buckets\<close>

fun find_or_end_of_bucket :: "string \<Rightarrow> bucket \<Rightarrow> nat option" where
  "find_or_end_of_bucket key [] = None"
| "find_or_end_of_bucket key ((k, i) # b) = (if k = key then Some i else find_or_end_of_bucket key b)"

definition bucket_append :: "string \<Rightarrow> nat \<Rightarrow> bucket \<Rightarrow> bucket result" where
  "bucket_append key i b = (if length key > MAX_KEY_SIZE then Inl (StdExn ''Key is too long.'') else Inr (b @ [(key, i)]))"

fun bucket_erase :: "string \<Rightarrow> bucket \<Rightarrow> bucket" where
  "bucket_erase key [] = []"
| "bucket_erase key ((k, i) # b) = (if k = key then b else (k, i) # bucket_erase key b)"

section \<open>Operations\<close>

definition ah_bucket :: "(string \<Rightarrow> u64) \<Rightarrow> string \<Rightarrow> 'v array_hash \<Rightarrow> nat" where
  "ah_bucket hash key h = bucket_for_hash (ah_mask h) (hash key)"

definition ah_find :: "(string \<Rightarrow> u64) \<Rightarrow> string \<Rightarrow> 'v array_hash \<Rightarrow> 'v option" where
  "ah_find hash key h = map_option (\<lambda>i. ah_values h ! i) (find_or_end_of_bucket key (ah_buckets h ! ah_bucket hash key h))"

text \<open>
  Values of erased entries stay until they are too many: \<open>should_clear_old_erased_values\<close> at a threshold in tenths, and
  \<open>clear_old_erased_values\<close>, which keeps the values in use in the order of the iteration and numbers them anew.
\<close>

definition should_clear_old_erased_values :: "nat \<Rightarrow> 'v array_hash \<Rightarrow> bool" where
  "should_clear_old_erased_values tenths h \<longleftrightarrow> ah_values h \<noteq> [] \<and> 10 * ah_nb h < tenths * length (ah_values h)"

fun renumber :: "nat \<Rightarrow> bucket list \<Rightarrow> bucket list" where
  "renumber n [] = []"
| "renumber n (b # bs) = zip (map fst b) [n..<n + length b] # renumber (n + length b) bs"

definition clear_old_erased_values :: "'v array_hash \<Rightarrow> 'v array_hash" where
  "clear_old_erased_values h =
    (if ah_nb h = length (ah_values h) then h
     else h\<lparr>ah_values := map snd (ah_entries h), ah_buckets := renumber 0 (ah_buckets h)\<rparr>)"

definition maybe_clear :: "nat \<Rightarrow> 'v array_hash \<Rightarrow> 'v array_hash" where
  "maybe_clear tenths h = (if should_clear_old_erased_values tenths h then clear_old_erased_values h else h)"

definition rehash_append :: "(string \<Rightarrow> u64) \<Rightarrow> u64 \<Rightarrow> string \<times> nat \<Rightarrow> bucket list \<Rightarrow> bucket list" where
  "rehash_append hash m e bs = (let i = bucket_for_hash m (hash (fst e)) in bs[i := bs ! i @ [e]])"

definition rehash_impl :: "(string \<Rightarrow> u64) \<Rightarrow> u64 \<Rightarrow> 'v array_hash \<Rightarrow> unit result \<times> 'v array_hash" where
  "rehash_impl hash bucket_count h =
    (case policy_make bucket_count of
      Inl e \<Rightarrow> (Inl e, h)
    | Inr (m, n) \<Rightarrow>
        if unat n = length (ah_buckets h) then (Inr (), h)
        else let h = maybe_clear 9 h in
          (Inr (), h\<lparr>ah_mask := m, ah_buckets := fold (rehash_append hash m) (ah_positions h) (replicate (unat n) []),
             ah_threshold := unat n * MAX_LOAD_FACTOR\<rparr>))"

definition grow_on_high_load :: "(string \<Rightarrow> u64) \<Rightarrow> 'v array_hash \<Rightarrow> unit result \<times> 'v array_hash" where
  "grow_on_high_load hash h =
    (if ah_nb h \<ge> ah_threshold h then
       (case next_bucket_count (ah_mask h) of Inl e \<Rightarrow> (Inl e, h) | Inr n \<Rightarrow> rehash_impl hash n h)
     else (Inr (), h))"

definition emplace_impl :: "nat \<Rightarrow> string \<Rightarrow> 'v \<Rightarrow> 'v array_hash \<Rightarrow> bool result \<times> 'v array_hash" where
  "emplace_impl ibucket key v h =
    (let h = (if length (ah_values h) \<ge> MAX_INDEX then clear_old_erased_values h else h) in
     if length (ah_values h) \<ge> MAX_INDEX then (Inl (StdExn ''Can't insert value, too much values in the map.''), h)
     else (case bucket_append key (length (ah_values h)) (ah_buckets h ! ibucket) of
        Inl e \<Rightarrow> (Inl e, h)
      | Inr b \<Rightarrow> (Inr True, h\<lparr>ah_values := ah_values h @ [v], ah_buckets := (ah_buckets h)[ibucket := b], ah_nb := ah_nb h + 1\<rparr>)))"

definition ah_emplace :: "(string \<Rightarrow> u64) \<Rightarrow> string \<Rightarrow> 'v \<Rightarrow> 'v array_hash \<Rightarrow> bool result \<times> 'v array_hash" where
  "ah_emplace hash key v h =
    (case find_or_end_of_bucket key (ah_buckets h ! ah_bucket hash key h) of
      Some i \<Rightarrow> (Inr False, h)
    | None \<Rightarrow> ebind (grow_on_high_load hash) (\<lambda>_ h. emplace_impl (ah_bucket hash key h) key v h) h)"

text \<open>Erasing the entry that an iterator, found by its key, is at.\<close>

definition ah_erase :: "(string \<Rightarrow> u64) \<Rightarrow> string \<Rightarrow> 'v array_hash \<Rightarrow> 'v array_hash" where
  "ah_erase hash key h =
    (let h = maybe_clear 6 h; i = ah_bucket hash key h
     in h\<lparr>ah_buckets := (ah_buckets h)[i := bucket_erase key (ah_buckets h ! i)], ah_nb := ah_nb h - 1\<rparr>)"

definition ah_clear :: "'v array_hash \<Rightarrow> 'v array_hash" where
  "ah_clear h = h\<lparr>ah_values := [], ah_buckets := map (\<lambda>b. []) (ah_buckets h), ah_nb := 0\<rparr>"

section \<open>Rounding up\<close>

lemma bit_smear: "bit (smear s n) i \<longleftrightarrow> bit n i \<or> bit n (i + s)"
  by (simp add: smear_def bit_or_iff bit_drop_bit_eq add.commute)

text \<open>After the shifts below \<open>s\<close> a bit is set when one of the \<open>s\<close> bits from it on was.\<close>

definition window :: "nat \<Rightarrow> u64 \<Rightarrow> u64 \<Rightarrow> bool" where
  "window s n m \<longleftrightarrow> (\<forall>i. bit m i \<longleftrightarrow> (\<exists>j. i \<le> j \<and> j < i + s \<and> bit n j))"

lemma window_smear:
  assumes "window s n m" "t = s + s"
  shows "window t n (smear s m)"
proof -
  have "(\<exists>j. i \<le> j \<and> j < i + t \<and> bit n j) \<longleftrightarrow> (\<exists>j. i \<le> j \<and> j < i + s \<and> bit n j) \<or> (\<exists>j. i + s \<le> j \<and> j < i + s + s \<and> bit n j)" for i
  proof
    assume "\<exists>j. i \<le> j \<and> j < i + t \<and> bit n j"
    then obtain j where "i \<le> j" "j < i + t" "bit n j" by blast
    then show "(\<exists>j. i \<le> j \<and> j < i + s \<and> bit n j) \<or> (\<exists>j. i + s \<le> j \<and> j < i + s + s \<and> bit n j)"
      using assms(2) by (cases "j < i + s") auto
  next
    assume "(\<exists>j. i \<le> j \<and> j < i + s \<and> bit n j) \<or> (\<exists>j. i + s \<le> j \<and> j < i + s + s \<and> bit n j)"
    then show "\<exists>j. i \<le> j \<and> j < i + t \<and> bit n j"
    proof (elim disjE exE conjE)
      fix j assume "i \<le> j" "j < i + s" "bit n j"
      then show ?thesis using assms(2) by (intro exI [of _ j]) simp
    next
      fix j assume "i + s \<le> j" "j < i + s + s" "bit n j"
      then show ?thesis using assms(2) by (intro exI [of _ j]) simp
    qed
  qed
  with assms(1) show ?thesis unfolding window_def bit_smear by simp
qed

lemma bit_smears: "bit (fold smear [1, 2, 4, 8, 16, 32] n) i \<longleftrightarrow> (\<exists>j \<ge> i. bit n j)"
proof -
  have "window 1 n n" by (auto simp: window_def less_Suc_eq_le intro: le_antisym)
  then have "window 2 n (smear 1 n)" by (rule window_smear) simp
  then have "window 4 n (smear 2 (smear 1 n))" by (rule window_smear) simp
  then have "window 8 n (smear 4 (smear 2 (smear 1 n)))" by (rule window_smear) simp
  then have "window 16 n (smear 8 (smear 4 (smear 2 (smear 1 n))))" by (rule window_smear) simp
  then have "window 32 n (smear 16 (smear 8 (smear 4 (smear 2 (smear 1 n)))))" by (rule window_smear) simp
  then have "window 64 n (smear 32 (smear 16 (smear 8 (smear 4 (smear 2 (smear 1 n))))))" by (rule window_smear) simp
  moreover have "j < 64" if "bit n j" for j using bit_imp_le_length [OF that] by simp
  then have "(\<exists>j. i \<le> j \<and> j < i + 64 \<and> bit n j) \<longleftrightarrow> (\<exists>j \<ge> i. bit n j)" by (meson trans_less_add2)
  ultimately show ?thesis by (simp add: window_def)
qed

lemma bit_unat_le: "bit (w :: u64) t \<Longrightarrow> 2 ^ t \<le> unat w"
proof (rule ccontr)
  assume b: "bit w t" and "\<not> 2 ^ t \<le> unat w"
  then have "unat (drop_bit t w) = 0" unfolding unat_drop_bit_eq drop_bit_eq_div [of t "unat w"] by simp
  then have "\<not> bit (drop_bit t w) 0" by (simp add: unat_eq_0)
  with b show False by (simp add: bit_drop_bit_eq)
qed

lemma smears_mask:
  assumes "v \<noteq> 0" "v < (2 ^ 63 :: u64)"
  obtains t where "t < 63" "2 ^ t \<le> unat v" "unat v < 2 ^ Suc t" "fold smear [1, 2, 4, 8, 16, 32] v = mask (Suc t)"
proof -
  have ne: "{j. bit v j} \<noteq> {}" using assms(1) bit_word_eqI [of v 0] by auto
  have fin: "finite {j. bit v j}" by (rule finite_subset [of _ "{..<64}"]) (auto dest: bit_imp_le_length)
  define t where "t = Max {j. bit v j}"
  have t: "bit v t" "\<And>j. bit v j \<Longrightarrow> j \<le> t"
    using Max_in [OF fin ne] Max_ge [OF fin] by (auto simp: t_def)
  have le: "2 ^ t \<le> unat v" by (rule bit_unat_le [OF t(1)])
  have "unat v < 2 ^ 63" using assms(2) by (simp add: word_less_nat_alt)
  with le have t63: "t < 63" using nat_power_less_imp_less [of 2 t 63] by simp
  have "take_bit (Suc t) v = v" using t(2) by (intro bit_word_eqI) (auto simp: bit_take_bit_iff less_Suc_eq_le)
  then have "unat v = take_bit (Suc t) (unat v)" by (metis unsigned_take_bit_eq)
  then have "unat v < 2 ^ Suc t" by (metis take_bit_nat_less_exp)
  moreover have "fold smear [1, 2, 4, 8, 16, 32] v = mask (Suc t)"
  proof (rule bit_word_eqI)
    fix i :: nat
    have "(\<exists>j \<ge> i. bit v j) \<longleftrightarrow> i \<le> t" using t le_trans by blast
    with t63 show "bit (fold smear [1, 2, 4, 8, 16, 32] v) i = bit (mask (Suc t) :: u64) i"
      unfolding bit_smears by (auto simp: bit_mask_iff less_Suc_eq_le)
  qed
  ultimately show thesis using that t63 le by blast
qed

lemma round_up_least:
  assumes "0 < n" "n \<le> 2 ^ 63"
  shows "unat n \<le> unat (round_up_to_power_of_two n) \<and> unat (round_up_to_power_of_two n) < 2 * unat n"
proof (cases "is_power_of_two n")
  case True
  then show ?thesis using assms(1) by (simp add: round_up_to_power_of_two_def word_less_nat_alt)
next
  case False
  let ?v = "n - 1"
  have v: "unat n = unat ?v + 1" using assms(1) unat_sub [of 1 n] by (simp add: word_less_nat_alt word_le_nat_alt)
  have "?v \<noteq> 0" using False by (auto simp: is_power_of_two_def)
  moreover have "?v < 2 ^ 63" using assms(2) v by (simp add: word_less_nat_alt word_le_nat_alt)
  ultimately obtain t where t: "t < 63" "2 ^ t \<le> unat ?v" "unat ?v < 2 ^ Suc t" "fold smear [1, 2, 4, 8, 16, 32] ?v = mask (Suc t)"
    by (rule smears_mask)
  have "round_up_to_power_of_two n = 2 ^ Suc t"
    using False assms(1) t(4) by (auto simp: round_up_to_power_of_two_def mask_eq_exp_minus_1)
  moreover have "(2 :: nat) ^ Suc t < 2 ^ 64" by (rule power_strict_increasing) (use t(1) in simp_all)
  then have "unat (2 ^ Suc t :: u64) = 2 ^ Suc t" by (intro of_nat_inverse) simp_all
  ultimately show ?thesis using t(2,3) v by simp
qed

section \<open>Buckets and positions\<close>

lemma find_or_end_of_bucket_eq: "find_or_end_of_bucket key b = map_of b key"
  by (induction b rule: find_or_end_of_bucket.induct) auto

lemma mset_bucket_erase: "find_or_end_of_bucket key b = Some i \<Longrightarrow> mset b = add_mset (key, i) (mset (bucket_erase key b))"
  by (induction b rule: find_or_end_of_bucket.induct) (auto split: if_splits)

lemma mset_concat_update:
  "i < length bs \<Longrightarrow> mset (concat (bs[i := b])) + mset (bs ! i) = mset (concat bs) + mset b"
proof (induction bs arbitrary: i)
  case (Cons a bs)
  then show ?case by (cases i) (auto simp: ac_simps)
qed simp

lemma renumber_keys: "map fst (concat (renumber n bs)) = map fst (concat bs)"
  by (induction bs arbitrary: n) simp_all

lemma renumber_indexes: "map snd (concat (renumber n bs)) = [n..<n + length (concat bs)]"
proof (induction bs arbitrary: n)
  case (Cons b bs)
  have "[n..<n + length b + length (concat bs)] = [n..<n + length b] @ [n + length b..<n + length b + length (concat bs)]"
    by (rule upt_add_eq_append) simp
  with Cons [of "n + length b"] show ?case by (simp add: add.assoc)
qed simp

lemma renumber_length [simp]: "length (renumber n bs) = length bs"
  by (induction bs arbitrary: n) simp_all

lemma renumber_nth: "i < length bs \<Longrightarrow> map fst (renumber n bs ! i) = map fst (bs ! i)"
  by (induction bs arbitrary: n i) (auto simp: nth_Cons split: nat.split)

lemma bucket_for_hash_le: "bucket_for_hash m h \<le> unat m"
  by (simp add: bucket_for_hash_def word_and_le2 word_le_nat_alt [symmetric] word_and_le1)

section \<open>Invariant\<close>

text \<open>
  Every entry is in the bucket of its hash, keys are not repeated, and indexes are in range; the number of buckets is bounded, so that growing
  never fails.
\<close>

definition placed :: "(string \<Rightarrow> u64) \<Rightarrow> u64 \<Rightarrow> bucket list \<Rightarrow> bool" where
  "placed hash m bs \<longleftrightarrow> length bs = unat m + 1 \<and> (\<forall>i < length bs. \<forall>e \<in> set (bs ! i). bucket_for_hash m (hash (fst e)) = i)"

definition ah_inv :: "(string \<Rightarrow> u64) \<Rightarrow> 'v array_hash \<Rightarrow> bool" where
  "ah_inv hash h \<longleftrightarrow> placed hash (ah_mask h) (ah_buckets h) \<and> distinct (map fst (ah_positions h)) \<and>
    (\<forall>e \<in> set (ah_positions h). snd e < length (ah_values h)) \<and> ah_nb h = length (ah_positions h) \<and> ah_nb h \<le> length (ah_values h) \<and>
    length (ah_values h) \<le> MAX_INDEX \<and> length (ah_buckets h) \<le> 2 ^ 20 \<and> ah_threshold h = length (ah_buckets h) * MAX_LOAD_FACTOR"

lemma ah_invD:
  assumes "ah_inv hash h"
  shows "placed hash (ah_mask h) (ah_buckets h)" "distinct (map fst (ah_positions h))"
    "\<forall>e \<in> set (ah_positions h). snd e < length (ah_values h)" "ah_nb h = length (ah_positions h)"
    "length (ah_values h) \<le> MAX_INDEX" "length (ah_buckets h) \<le> 2 ^ 20" "ah_threshold h = length (ah_buckets h) * MAX_LOAD_FACTOR"
    "ah_nb h \<le> length (ah_values h)"
  using assms unfolding ah_inv_def by blast+

lemma placed_position:
  assumes "placed hash m bs" "e \<in> set (concat bs)"
  shows "e \<in> set (bs ! bucket_for_hash m (hash (fst e)))"
proof -
  obtain b where "b \<in> set bs" "e \<in> set b" using assms(2) by auto
  then obtain i where "i < length bs" "e \<in> set (bs ! i)" by (auto simp: in_set_conv_nth)
  with assms(1) show ?thesis by (auto simp: placed_def)
qed

lemma placed_bucket: "placed hash m bs \<Longrightarrow> bucket_for_hash m (hash key) < length bs"
  using bucket_for_hash_le [of m "hash key"] by (simp add: placed_def)

lemma placed_find:
  assumes "placed hash m bs" "distinct (map fst (concat bs))"
  shows "find_or_end_of_bucket key (bs ! bucket_for_hash m (hash key)) = map_of (concat bs) key"
proof -
  let ?b = "bs ! bucket_for_hash m (hash key)"
  have sub: "set ?b \<subseteq> set (concat bs)" using nth_mem [OF placed_bucket [OF assms(1), of key]] by auto
  have "distinct (map fst ?b)"
    using assms(2) placed_bucket [OF assms(1), of key] by (metis distinct_concat_iff map_concat length_map nth_map nth_mem)
  then have "map_of ?b key = Some i \<longleftrightarrow> map_of (concat bs) key = Some i" for i
    using assms sub placed_position [OF assms(1), of "(key, i)"] by (auto simp: map_of_eq_Some_iff)
  then show ?thesis unfolding find_or_end_of_bucket_eq by (metis option.exhaust)
qed

lemma map_of_entries: "map_of (ah_entries h) key = map_option (\<lambda>i. ah_values h ! i) (map_of (ah_positions h) key)"
  by (simp add: ah_entries_def map_of_map)

lemma ah_entries_keys: "map fst (ah_entries h) = map fst (ah_positions h)"
  by (simp add: ah_entries_def case_prod_beta)

text \<open>Finding a key gives what an iteration would show for it.\<close>

lemma ah_find_entries: "ah_inv hash h \<Longrightarrow> ah_find hash key h = map_of (ah_entries h) key"
  using placed_find [of hash "ah_mask h" "ah_buckets h" key] ah_invD(1,2) [of hash h]
  by (simp add: ah_find_def ah_bucket_def map_of_entries ah_positions_def)

section \<open>Clearing and growing\<close>

lemma renumber_positions: "concat (renumber 0 bs) = zip (map fst (concat bs)) [0..<length (concat bs)]"
  using renumber_keys [of 0 bs] renumber_indexes [of 0 bs] by (metis add_0 zip_map_fst_snd)

lemma clear_entries: "ah_entries (clear_old_erased_values h) = ah_entries h"
proof -
  have "map (\<lambda>(k, i). (k, map snd (ah_entries h) ! i)) (zip (map fst (ah_positions h)) [0..<length (ah_positions h)]) = ah_entries h"
    by (rule nth_equalityI) (simp_all add: ah_entries_def case_prod_beta)
  then show ?thesis
    using ah_entries_def [of "h\<lparr>ah_values := map snd (ah_entries h), ah_buckets := renumber 0 (ah_buckets h)\<rparr>"]
    by (simp add: clear_old_erased_values_def ah_positions_def renumber_positions)
qed

lemma clear_positions:
  "map fst (ah_positions (clear_old_erased_values h)) = map fst (ah_positions h)"
  by (metis clear_entries ah_entries_keys)

lemma clear_inv:
  assumes "ah_inv hash h"
  shows "ah_inv hash (clear_old_erased_values h)"
proof (cases "ah_nb h = length (ah_values h)")
  case True
  then show ?thesis using assms by (simp add: clear_old_erased_values_def)
next
  case False
  note inv = ah_invD [OF assms]
  let ?h = "h\<lparr>ah_values := map snd (ah_entries h), ah_buckets := renumber 0 (ah_buckets h)\<rparr>"
  have h: "clear_old_erased_values h = ?h" using False by (simp add: clear_old_erased_values_def)
  have keys: "fst ` set (renumber 0 (ah_buckets h) ! i) = fst ` set (ah_buckets h ! i)" if "i < length (ah_buckets h)" for i
    using renumber_nth [OF that, of 0] by (metis list.set_map)
  have "placed hash (ah_mask h) (renumber 0 (ah_buckets h))"
    unfolding placed_def
  proof (intro conjI allI impI ballI)
    fix i e assume i: "i < length (renumber 0 (ah_buckets h))" "e \<in> set (renumber 0 (ah_buckets h) ! i)"
    then have "fst e \<in> fst ` set (ah_buckets h ! i)" using keys [of i] by auto
    then obtain e' where "e' \<in> set (ah_buckets h ! i)" "fst e = fst e'" by blast
    with inv(1) i(1) show "bucket_for_hash (ah_mask h) (hash (fst e)) = i" unfolding placed_def by simp
  qed (use inv(1) in \<open>simp add: placed_def\<close>)
  moreover have len: "length (ah_positions ?h) = length (ah_positions h)"
    using clear_positions [of h] h by (metis length_map)
  ultimately show ?thesis
    unfolding h using inv clear_positions [of h, unfolded h] by (auto simp: ah_inv_def ah_entries_def ah_positions_def renumber_positions dest: set_zip_rightD)
qed

lemma maybe_clear_ok: "ah_inv hash h \<Longrightarrow> ah_inv hash (maybe_clear n h) \<and> ah_entries (maybe_clear n h) = ah_entries h"
  by (simp add: maybe_clear_def clear_inv clear_entries)

lemma placed_append:
  assumes "placed hash m bs"
  shows "placed hash m (rehash_append hash m e bs)" "mset (concat (rehash_append hash m e bs)) = add_mset e (mset (concat bs))"
proof -
  let ?i = "bucket_for_hash m (hash (fst e))"
  have i: "?i < length bs" by (rule placed_bucket [OF assms])
  show "placed hash m (rehash_append hash m e bs)"
    using assms i by (auto simp: placed_def rehash_append_def Let_def nth_list_update)
  show "mset (concat (rehash_append hash m e bs)) = add_mset e (mset (concat bs))"
    using mset_concat_update [OF i, of "bs ! ?i @ [e]"] by (simp add: rehash_append_def Let_def)
qed

lemma placed_fold:
  "placed hash m bs \<Longrightarrow> placed hash m (fold (rehash_append hash m) es bs) \<and>
    mset (concat (fold (rehash_append hash m) es bs)) = mset es + mset (concat bs)"
  by (induction es arbitrary: bs) (simp_all add: placed_append)

lemma mset_entries: "mset (ah_entries h) = image_mset (\<lambda>(k, i). (k, ah_values h ! i)) (mset (ah_positions h))"
  by (simp add: ah_entries_def)

lemma distinct_keys_mset: "mset xs = mset ys \<Longrightarrow> distinct (map fst xs) = distinct (map fst ys)"
  by (metis mset_eq_imp_distinct_iff mset_map)

lemma policy_make_ok:
  assumes "0 < n" "unat n \<le> 2 ^ 19"
  obtains r where "policy_make n = Inr (r - 1, r)" "unat r = unat (r - 1) + 1" "unat r \<le> 2 ^ 20"
proof -
  let ?r = "round_up_to_power_of_two n"
  have le: "n \<le> 2 ^ 63" using assms(2) by (simp add: word_le_nat_alt)
  note r = round_up_least [OF assms(1) le]
  have "0 < unat n" using assms(1) by (simp add: word_less_nat_alt)
  with r have pos: "0 < unat ?r" by linarith
  then have "unat ?r = unat (?r - 1) + 1" using unat_sub [of 1 ?r] by (simp add: word_le_nat_alt)
  moreover have "policy_make n = Inr (?r - 1, ?r)" using assms(1) le by (simp add: policy_make_def max_bucket_count_def Let_def)
  moreover have "unat ?r \<le> 2 ^ 20" using r assms(2) by simp
  ultimately show thesis using that by blast
qed

lemma rehash_ok:
  assumes "ah_inv hash h" "0 < n" "unat n \<le> 2 ^ 19"
  obtains h' where "rehash_impl hash n h = (Inr (), h')" "ah_inv hash h'" "mset (ah_entries h') = mset (ah_entries h)" "ah_nb h' = ah_nb h"
proof -
  obtain r where r: "policy_make n = Inr (r - 1, r)" "unat r = unat (r - 1) + 1" "unat r \<le> 2 ^ 20"
    by (rule policy_make_ok [OF assms(2,3)])
  show thesis
  proof (cases "unat r = length (ah_buckets h)")
    case True
    then show thesis using that [of h] assms(1) r(1) by (simp add: rehash_impl_def)
  next
    case False
    let ?c = "maybe_clear 9 h"
    let ?bs = "fold (rehash_append hash (r - 1)) (ah_positions ?c) (replicate (unat r) [])"
    let ?h = "?c\<lparr>ah_mask := r - 1, ah_buckets := ?bs, ah_threshold := unat r * MAX_LOAD_FACTOR\<rparr>"
    have c: "ah_inv hash ?c" "ah_entries ?c = ah_entries h" using maybe_clear_ok [OF assms(1)] by simp_all
    have "placed hash (r - 1) (replicate (unat r) [])" unfolding placed_def by (rule conjI) (use r(2) in simp, simp)
    from placed_fold [OF this, of "ah_positions ?c"]
    have p: "placed hash (r - 1) ?bs" "mset (concat ?bs) = mset (ah_positions ?c)" by (simp_all add: concat_replicate_trivial)
    have "length ?bs = unat r" using p(1) r(2) by (simp add: placed_def)
    moreover have "length (concat ?bs) = length (ah_positions ?c)" "set (concat ?bs) = set (ah_positions ?c)"
      using p(2) by (metis size_mset, metis set_mset_mset)
    ultimately have "ah_inv hash ?h"
      using ah_invD [OF c(1)] p r(3) distinct_keys_mset [OF p(2)] by (simp add: ah_inv_def ah_positions_def)
    moreover have "mset (ah_entries ?h) = mset (ah_entries h)"
      using p(2) c(2) by (simp add: mset_entries [of ?h] mset_entries [of ?c, symmetric] ah_positions_def [of ?h] del: c)
    moreover have "rehash_impl hash n h = (Inr (), ?h)" using False r(1) by (simp add: rehash_impl_def Let_def)
    moreover have "ah_nb ?c = ah_nb h" by (simp add: maybe_clear_def clear_old_erased_values_def)
    ultimately show thesis using that [of ?h] by simp
  qed
qed

lemma grow_ok:
  assumes "ah_inv hash h"
  obtains h' where "grow_on_high_load hash h = (Inr (), h')" "ah_inv hash h'" "mset (ah_entries h') = mset (ah_entries h)" "ah_nb h' = ah_nb h"
proof (cases "ah_nb h \<ge> ah_threshold h")
  case True
  note inv = ah_invD [OF assms]
  have len: "length (ah_buckets h) = unat (ah_mask h) + 1" using inv(1) by (simp add: placed_def)
  have "length (ah_buckets h) * MAX_LOAD_FACTOR \<le> MAX_INDEX" using True inv(5,7,8) by simp
  then have small: "unat (ah_mask h) + 1 \<le> 2 ^ 13" using len by simp
  let ?n = "ah_mask h + 1"
  have n: "unat ?n = unat (ah_mask h) + 1" using small by (simp add: unat_word_ariths)
  have "unat (?n * 4) = unat ?n * 4" using small n by (simp add: unat_word_ariths)
  then have four: "0 < ?n * 4" "unat (?n * 4) \<le> 2 ^ 19" using small n by (simp_all add: word_less_nat_alt)
  have "\<not> ?n > max_bucket_count div 4"
    using small n by (simp add: max_bucket_count_def word_less_nat_alt)
  then have next_n: "next_bucket_count (ah_mask h) = Inr (?n * 4)" by (simp add: next_bucket_count_def)
  obtain h' where "rehash_impl hash (?n * 4) h = (Inr (), h')" "ah_inv hash h'" "mset (ah_entries h') = mset (ah_entries h)" "ah_nb h' = ah_nb h"
    by (rule rehash_ok [OF assms four])
  then show thesis using that [of h'] True next_n by (simp add: grow_on_high_load_def)
qed (use that [of h] assms in \<open>simp add: grow_on_high_load_def\<close>)

lemma placed_bucket_append:
  assumes "placed hash m bs"
  shows "placed hash m (bs[bucket_for_hash m (hash key) := bs ! bucket_for_hash m (hash key) @ [(key, i)]])"
    "mset (concat (bs[bucket_for_hash m (hash key) := bs ! bucket_for_hash m (hash key) @ [(key, i)]])) = add_mset (key, i) (mset (concat bs))"
  using placed_append [OF assms, of "(key, i)"] by (simp_all add: rehash_append_def Let_def)

text \<open>A table that is not full takes a new key; the other entries stay, in some order.\<close>

lemma emplace_impl_ok:
  assumes "ah_inv hash h" "key \<notin> fst ` set (ah_entries h)" "key_fits key" "ah_nb h < MAX_INDEX"
  obtains h' where "emplace_impl (ah_bucket hash key h) key v h = (Inr True, h')" "ah_inv hash h'"
    "mset (ah_entries h') = add_mset (key, v) (mset (ah_entries h))" "ah_nb h' = ah_nb h + 1"
proof -
  define c where "c = (if length (ah_values h) \<ge> MAX_INDEX then clear_old_erased_values h else h)"
  have c: "ah_inv hash c" "ah_entries c = ah_entries h" "ah_nb c = ah_nb h" "ah_mask c = ah_mask h"
    using assms(1) clear_inv [of hash h] by (simp_all add: c_def clear_entries) (simp_all add: clear_old_erased_values_def)
  have room: "length (ah_values c) < MAX_INDEX"
  proof (cases "length (ah_values h) \<ge> MAX_INDEX")
    case True
    then have "ah_nb h \<noteq> length (ah_values h)" using assms(4) by simp
    with True have "length (ah_values c) = length (ah_positions h)" by (simp add: c_def clear_old_erased_values_def ah_entries_def)
    then show ?thesis using ah_invD(4) [OF assms(1)] assms(4) by simp
  qed (simp add: c_def)
  note inv = ah_invD [OF c(1)]
  let ?i = "ah_bucket hash key h" and ?n = "length (ah_values c)"
  let ?bs = "(ah_buckets c)[?i := ah_buckets c ! ?i @ [(key, ?n)]]"
  let ?h = "c\<lparr>ah_values := ah_values c @ [v], ah_buckets := ?bs, ah_nb := ah_nb c + 1\<rparr>"
  have i: "?i = bucket_for_hash (ah_mask c) (hash key)" by (simp add: ah_bucket_def c(4))
  have p: "placed hash (ah_mask c) ?bs" "mset (concat ?bs) = mset ((key, ?n) # ah_positions c)"
    using placed_bucket_append [OF inv(1), of key ?n] unfolding i by (simp_all add: ah_positions_def)
  have new: "key \<notin> fst ` set (ah_positions c)" using assms(2) c(2) ah_entries_keys [of c] by (metis list.set_map)
  have "distinct (map fst (concat ?bs))" using distinct_keys_mset [OF p(2)] new inv(2) by simp
  moreover have "length (concat ?bs) = length (ah_positions c) + 1" using p(2) by (metis size_mset length_Cons Suc_eq_plus1)
  moreover have "\<forall>e \<in> set (concat ?bs). snd e < ?n + 1"
  proof -
    have "set (concat ?bs) = insert (key, ?n) (set (ah_positions c))" using p(2) by (metis set_mset_mset list.simps(15))
    then show ?thesis using inv(3) by (metis insertE less_SucI lessI snd_conv Suc_eq_plus1)
  qed
  moreover have "ah_positions ?h = concat ?bs" by (simp add: ah_positions_def)
  ultimately have "ah_inv hash ?h"
    using inv(4-8) p(1) room unfolding ah_inv_def by simp
  moreover have "mset (ah_entries ?h) = add_mset (key, v) (mset (ah_entries c))"
  proof -
    have "image_mset (\<lambda>(k, i). (k, (ah_values c @ [v]) ! i)) (mset (ah_positions c)) = mset (ah_entries c)"
      unfolding mset_entries using inv(3) by (intro image_mset_cong) (auto simp: nth_append)
    then show ?thesis using p(2) unfolding mset_entries [of ?h] ah_positions_def [of ?h] by simp
  qed
  moreover have "emplace_impl ?i key v h = (Inr True, ?h)"
    using assms(3) room unfolding emplace_impl_def c_def [symmetric] by (simp add: Let_def bucket_append_def key_fits_def)
  ultimately show thesis using that [of ?h] c(2,3) by simp
qed

lemma ah_emplace_new:
  assumes "ah_inv hash h" "ah_find hash key h = None" "key_fits key" "ah_nb h < MAX_INDEX"
  obtains h' where "ah_emplace hash key v h = (Inr True, h')" "ah_inv hash h'"
    "mset (ah_entries h') = add_mset (key, v) (mset (ah_entries h))" "ah_nb h' = ah_nb h + 1"
proof -
  obtain g where g: "grow_on_high_load hash h = (Inr (), g)" "ah_inv hash g" "mset (ah_entries g) = mset (ah_entries h)" "ah_nb g = ah_nb h"
    by (rule grow_ok [OF assms(1)])
  have "key \<notin> fst ` set (ah_entries h)" using assms(2) by (simp add: ah_find_entries [OF assms(1)] map_of_eq_None_iff)
  then have "key \<notin> fst ` set (ah_entries g)" using g(3) by (metis set_mset_mset)
  then obtain h' where "emplace_impl (ah_bucket hash key g) key v g = (Inr True, h')" "ah_inv hash h'"
    "mset (ah_entries h') = add_mset (key, v) (mset (ah_entries g))" "ah_nb h' = ah_nb g + 1"
    using emplace_impl_ok [OF g(2) _ assms(3)] assms(4) g(4) by metis
  then show thesis using that [of h'] g assms(2) by (simp add: ah_emplace_def ah_find_def ebind_def)
qed

lemma ah_emplace_present: "ah_find hash key h = Some w \<Longrightarrow> ah_emplace hash key v h = (Inr False, h)"
  by (auto simp: ah_emplace_def ah_find_def)

lemma set_bucket_erase: "set (bucket_erase key b) \<subseteq> set b"
  by (induction key b rule: bucket_erase.induct) auto

lemma placed_shrink:
  assumes "placed hash m bs" "set b \<subseteq> set (bs ! i)"
  shows "placed hash m (bs[i := b])"
  unfolding placed_def
proof (intro conjI allI impI ballI)
  fix j e assume j: "j < length (bs[i := b])" and e: "e \<in> set (bs[i := b] ! j)"
  have "e \<in> set (bs ! j)" using j e assms(2) by (cases "i = j") auto
  with assms(1) j show "bucket_for_hash m (hash (fst e)) = j" unfolding placed_def by simp
qed (use assms(1) in \<open>simp add: placed_def\<close>)

text \<open>Erasing removes the entry and no other.\<close>

lemma ah_erase_ok:
  assumes "ah_inv hash h" "ah_find hash key h = Some v"
  shows "ah_inv hash (ah_erase hash key h)" "mset (ah_entries h) = add_mset (key, v) (mset (ah_entries (ah_erase hash key h)))"
    "ah_nb h = ah_nb (ah_erase hash key h) + 1"
proof -
  define c where "c = maybe_clear 6 h"
  have c: "ah_inv hash c" "ah_entries c = ah_entries h" "ah_nb c = ah_nb h"
    using maybe_clear_ok [OF assms(1), of 6] by (simp_all add: c_def) (simp add: maybe_clear_def clear_old_erased_values_def)
  note inv = ah_invD [OF c(1)]
  let ?i = "bucket_for_hash (ah_mask c) (hash key)"
  let ?bs = "(ah_buckets c)[?i := bucket_erase key (ah_buckets c ! ?i)]"
  let ?h = "c\<lparr>ah_buckets := ?bs, ah_nb := ah_nb c - 1\<rparr>"
  have h: "ah_erase hash key h = ?h" by (simp add: ah_erase_def Let_def c_def ah_bucket_def)
  have i: "?i < length (ah_buckets c)" by (rule placed_bucket [OF inv(1)])
  have "ah_find hash key c = Some v" using assms(2) c(2) by (simp add: ah_find_entries [OF assms(1)] ah_find_entries [OF c(1)])
  then obtain n where n: "find_or_end_of_bucket key (ah_buckets c ! ?i) = Some n" "ah_values c ! n = v"
    by (auto simp: ah_find_def ah_bucket_def)
  have m: "mset (ah_positions c) = mset ((key, n) # concat ?bs)"
    using mset_concat_update [OF i, of "bucket_erase key (ah_buckets c ! ?i)"] mset_bucket_erase [OF n(1)] by (simp add: ah_positions_def)
  have "placed hash (ah_mask c) ?bs"
    by (rule placed_shrink [OF inv(1) set_bucket_erase])
  moreover have "distinct (map fst (concat ?bs))" using distinct_keys_mset [OF m] inv(2) by simp
  moreover have len: "length (ah_positions c) = length (concat ?bs) + 1" using m by (metis size_mset length_Cons Suc_eq_plus1)
  moreover have "\<forall>e \<in> set (concat ?bs). snd e < length (ah_values c)" using inv(3) m by (metis set_mset_mset list.set_intros(2))
  moreover have pos: "ah_positions ?h = concat ?bs" by (simp add: ah_positions_def)
  ultimately show "ah_inv hash (ah_erase hash key h)" unfolding h ah_inv_def using inv(4-8) by simp
  show "mset (ah_entries h) = add_mset (key, v) (mset (ah_entries (ah_erase hash key h)))"
    using m n(2) unfolding h c(2) [symmetric] mset_entries pos by simp
  show "ah_nb h = ah_nb (ah_erase hash key h) + 1" unfolding h using c(3) inv(4) len by simp
qed

lemma array_hash_make_ok:
  assumes "0 < n" "unat n \<le> 2 ^ 19"
  obtains h where "array_hash_make n = Inr h" "ah_inv hash h" "ah_entries h = []" "ah_nb h = 0"
proof -
  obtain r where r: "policy_make n = Inr (r - 1, r)" "unat r = unat (r - 1) + 1" "unat r \<le> 2 ^ 20"
    by (rule policy_make_ok [OF assms])
  let ?h = "\<lparr>ah_buckets = replicate (unat r) [], ah_mask = r - 1, ah_values = [], ah_nb = 0, ah_threshold = unat r * MAX_LOAD_FACTOR\<rparr>"
  have "placed hash (r - 1) (replicate (unat r) [])" unfolding placed_def by (rule conjI) (use r(2) in simp, simp)
  then have "ah_inv hash ?h" using r(3) by (simp add: ah_inv_def ah_positions_def)
  then show thesis using that [of ?h] r(1) by (simp add: array_hash_make_def ah_entries_def ah_positions_def)
qed

lemma ah_size: "ah_inv hash h \<Longrightarrow> ah_nb h = length (ah_entries h)"
  by (simp add: ah_invD(4) ah_entries_def)

lemma ah_distinct: "ah_inv hash h \<Longrightarrow> distinct (map fst (ah_entries h))"
  by (simp add: ah_entries_keys ah_invD(2))

lemma map_of_mset_eq:
  assumes "distinct (map fst xs)" "mset xs = mset ys"
  shows "map_of xs = map_of ys"
proof
  fix k
  have "set xs = set ys" using assms(2) by (metis set_mset_mset)
  then have "map_of xs k = Some v \<longleftrightarrow> map_of ys k = Some v" for v
    using assms(1) distinct_keys_mset [OF assms(2)] by (simp add: map_of_eq_Some_iff)
  then show "map_of xs k = map_of ys k" by (metis option.exhaust)
qed

text \<open>The table as a map: what is found after each operation.\<close>

lemma ah_find_emplaced:
  assumes "ah_inv hash h" "ah_inv hash h'" "mset (ah_entries h') = add_mset (key, v) (mset (ah_entries h))"
  shows "ah_find hash k h' = (if k = key then Some v else ah_find hash k h)"
proof -
  have "map_of (ah_entries h') = map_of ((key, v) # ah_entries h)" using assms by (intro map_of_mset_eq ah_distinct) simp_all
  then show ?thesis using assms by (simp add: ah_find_entries)
qed

lemma ah_find_erased:
  assumes "ah_inv hash h" "ah_find hash key h = Some v"
  shows "ah_find hash k (ah_erase hash key h) = (if k = key then None else ah_find hash k h)"
proof -
  note e = ah_erase_ok [OF assms]
  have "ah_find hash k h = (if k = key then Some v else ah_find hash k (ah_erase hash key h))" by (rule ah_find_emplaced [OF e(1) assms(1) e(2)])
  moreover have "key \<notin> fst ` set (ah_entries (ah_erase hash key h))"
    using ah_distinct [OF assms(1)] distinct_keys_mset [of "ah_entries h" "(key, v) # ah_entries (ah_erase hash key h)"] e(2) by simp
  then have "ah_find hash key (ah_erase hash key h) = None" by (simp add: ah_find_entries [OF e(1)] map_of_eq_None_iff)
  ultimately show ?thesis by auto
qed

end
