(* ===== verification/Htrie.thy ===== *)
theory Htrie
  imports Array_Hash
begin

text \<open>
  The trie behind \<open>PrefixMap\<close>: \<open>htrie_hash\<close> in \<open>thirdparty/include/tsl/htrie_hash.h\<close>. Inner nodes have a child for each character; leaves are hash tables
  that burst into an inner node when they are full. The parent of a node is not stored but passed along, as the path to the root;
  an iterator is the key it is at. An exception other than that for a key that is too long would come from a table that is full, and none is.
\<close>

section \<open>State\<close>

datatype 'v anode = HashNode "'v array_hash" | TrieNode "'v option" "char \<Rightarrow> 'v anode option"

record 'v htrie =
  ht_root :: "'v anode option"
  ht_nb_elements :: nat
  ht_burst_threshold :: nat

definition ht_make :: "nat \<Rightarrow> 'v htrie" where
  "ht_make threshold = \<lparr>ht_root = None, ht_nb_elements = 0, ht_burst_threshold = max 4 threshold\<rparr>"

definition nb_children :: "(char \<Rightarrow> 'v anode option) \<Rightarrow> nat" where
  "nb_children ch = length (filter (\<lambda>i. ch (char_of i) \<noteq> None) [0..<256 :: nat])"

definition trie_node_empty :: "(char \<Rightarrow> 'v anode option) \<Rightarrow> bool" where
  "trie_node_empty ch \<longleftrightarrow> list_all (\<lambda>i. ch (char_of i) = None) [0..<256 :: nat]"

section \<open>Look-up\<close>

fun find_impl :: "(string \<Rightarrow> u64) \<Rightarrow> 'v anode \<Rightarrow> string \<Rightarrow> 'v option" where
  "find_impl hash (HashNode h) key = ah_find hash key h"
| "find_impl hash (TrieNode val ch) [] = val"
| "find_impl hash (TrieNode val ch) (c # key) = (case ch c of None \<Rightarrow> None | Some n \<Rightarrow> find_impl hash n key)"

definition ht_find :: "(string \<Rightarrow> u64) \<Rightarrow> string \<Rightarrow> 'v htrie \<Rightarrow> 'v option" where
  "ht_find hash key t = (case ht_root t of None \<Rightarrow> None | Some n \<Rightarrow> find_impl hash n key)"

text \<open>
  The search goes down and keeps the last key it has passed; in a leaf it tries the rest of the string and then ever shorter
  prefixes of it. \<open>pre\<close> is what it has read.
\<close>

fun longest_prefix_impl :: "(string \<Rightarrow> u64) \<Rightarrow> 'v anode \<Rightarrow> string \<Rightarrow> string \<Rightarrow> string option \<Rightarrow> string option" where
  "longest_prefix_impl hash (HashNode h) value pre found =
    (case longest_prefix (\<lambda>k. ah_find hash k h) value of Some k \<Rightarrow> Some (pre @ k) | None \<Rightarrow> found)"
| "longest_prefix_impl hash (TrieNode val ch) [] pre found = (if val \<noteq> None then Some pre else found)"
| "longest_prefix_impl hash (TrieNode val ch) (c # value) pre found =
    (let found = (if val \<noteq> None then Some pre else found)
     in case ch c of None \<Rightarrow> found | Some n \<Rightarrow> longest_prefix_impl hash n value (pre @ [c]) found)"

definition ht_longest_prefix :: "(string \<Rightarrow> u64) \<Rightarrow> string \<Rightarrow> 'v htrie \<Rightarrow> string option" where
  "ht_longest_prefix hash key t = (case ht_root t of None \<Rightarrow> None | Some n \<Rightarrow> longest_prefix_impl hash n key [] None)"

section \<open>Insertion\<close>

definition get_first_char_count :: "(string \<times> 'v) list \<Rightarrow> char \<Rightarrow> nat" where
  "get_first_char_count es c = length (filter (\<lambda>(k, v). k \<noteq> [] \<and> hd k = c) es)"

definition get_hash_node_for_char :: "(char \<Rightarrow> nat) \<Rightarrow> (char \<Rightarrow> 'v array_hash option) \<Rightarrow> char \<Rightarrow> 'v array_hash result" where
  "get_hash_node_for_char cnt ch c =
    (case ch c of Some h \<Rightarrow> Inr h | None \<Rightarrow> array_hash_make (of_nat ((cnt c + 16 + 7) div MAX_LOAD_FACTOR)))"

fun burst_entries ::
    "(string \<Rightarrow> u64) \<Rightarrow> (char \<Rightarrow> nat) \<Rightarrow> (string \<times> 'v) list \<Rightarrow> 'v option \<times> (char \<Rightarrow> 'v array_hash option) \<Rightarrow> ('v option \<times> (char \<Rightarrow> 'v array_hash option)) result" where
  "burst_entries hash cnt [] s = Inr s"
| "burst_entries hash cnt (([], v) # es) (val, ch) = burst_entries hash cnt es (Some v, ch)"
| "burst_entries hash cnt ((c # k, v) # es) (val, ch) =
    (case get_hash_node_for_char cnt ch c of
      Inl e \<Rightarrow> Inl e
    | Inr h \<Rightarrow>
        (case ah_emplace hash k v h of
          (Inl e, _) \<Rightarrow> Inl e
        | (Inr _, h) \<Rightarrow> burst_entries hash cnt es (val, ch(c \<mapsto> h))))"

definition burst :: "(string \<Rightarrow> u64) \<Rightarrow> 'v array_hash \<Rightarrow> 'v anode result" where
  "burst hash h =
    map_sum id (\<lambda>(val, ch). TrieNode val (map_option HashNode \<circ> ch))
      (burst_entries hash (get_first_char_count (ah_entries h)) (ah_entries h) (None, Map.empty))"

definition is_hash_node :: "'v anode \<Rightarrow> bool" where
  "is_hash_node n = (case n of HashNode _ \<Rightarrow> True | TrieNode _ _ \<Rightarrow> False)"

lemma burst_trie_node: "burst hash h = Inr n \<Longrightarrow> \<not> is_hash_node n"
  by (cases "burst_entries hash (get_first_char_count (ah_entries h)) (ah_entries h) (None, Map.empty)")
    (auto simp: burst_def is_hash_node_def)

function insert_impl :: "(string \<Rightarrow> u64) \<Rightarrow> nat \<Rightarrow> 'v anode \<Rightarrow> string \<Rightarrow> 'v \<Rightarrow> (bool \<times> 'v anode) result" where
  "insert_impl hash threshold (HashNode h) key v =
    (if ah_nb h \<ge> threshold then (case burst hash h of Inl e \<Rightarrow> Inl e | Inr n \<Rightarrow> insert_impl hash threshold n key v)
     else (case ah_emplace hash key v h of (Inl e, _) \<Rightarrow> Inl e | (Inr b, h) \<Rightarrow> Inr (b, HashNode h)))"
| "insert_impl hash threshold (TrieNode val ch) [] v =
    (if val \<noteq> None then Inr (False, TrieNode val ch) else Inr (True, TrieNode (Some v) ch))"
| "insert_impl hash threshold (TrieNode val ch) (c # key) v =
    (case ch c of
      Some n \<Rightarrow> map_sum id (map_prod id (\<lambda>n. TrieNode val (ch(c \<mapsto> n)))) (insert_impl hash threshold n key v)
    | None \<Rightarrow>
        (case array_hash_make 32 of
          Inl e \<Rightarrow> Inl e
        | Inr h \<Rightarrow> (case ah_emplace hash key v h of (Inl e, _) \<Rightarrow> Inl e | (Inr _, h) \<Rightarrow> Inr (True, TrieNode val (ch(c \<mapsto> HashNode h))))))"
  by pat_completeness auto
termination
  by (relation "measure (\<lambda>(hash, threshold, n, key, v). 2 * length key + (if is_hash_node n then 1 else 0))")
    (auto simp: is_hash_node_def dest: burst_trie_node split: anode.splits)

definition ht_insert :: "(string \<Rightarrow> u64) \<Rightarrow> string \<Rightarrow> 'v \<Rightarrow> 'v htrie \<Rightarrow> bool result \<times> 'v htrie" where
  "ht_insert hash key v t =
    (if \<not> key_fits key then (Inl (StdExn ''Key is too long.''), t)
     else (case (case ht_root t of None \<Rightarrow> map_sum id HashNode (array_hash_make 32) | Some n \<Rightarrow> Inr n) of
        Inl e \<Rightarrow> (Inl e, t)
      | Inr n \<Rightarrow>
          (case insert_impl hash (ht_burst_threshold t) n key v of
            Inl e \<Rightarrow> (Inl e, t)
          | Inr (b, n) \<Rightarrow> (Inr b, t\<lparr>ht_root := Some n, ht_nb_elements := ht_nb_elements t + (if b then 1 else 0)\<rparr>))))"

section \<open>Erasure\<close>

text \<open>The path from a node to the root: each parent with its value, its children and the character of the child.\<close>

type_synonym 'v node_path = "('v option \<times> (char \<Rightarrow> 'v anode option) \<times> char) list"

fun rebuild :: "'v anode \<Rightarrow> 'v node_path \<Rightarrow> 'v anode" where
  "rebuild n [] = n"
| "rebuild n ((val, ch, c) # ps) = rebuild (TrieNode val (ch(c \<mapsto> n))) ps"

text \<open>The root after a node that has become empty is removed, with those above it that have nothing else.\<close>

fun clear_empty_nodes :: "'v node_path \<Rightarrow> 'v anode option" where
  "clear_empty_nodes [] = None"
| "clear_empty_nodes ((val, ch, c) # ps) =
    (if val \<noteq> None \<or> nb_children ch > 1 then Some (rebuild (TrieNode val (ch(c := None))) ps)
     else if ps = [] then None
     else clear_empty_nodes ps)"

fun erase_impl :: "(string \<Rightarrow> u64) \<Rightarrow> 'v anode \<Rightarrow> string \<Rightarrow> 'v node_path \<Rightarrow> 'v anode option" where
  "erase_impl hash (HashNode h) key ps =
    (let h = ah_erase hash key h in if ah_nb h = 0 then clear_empty_nodes ps else Some (rebuild (HashNode h) ps))"
| "erase_impl hash (TrieNode val ch) [] ps =
    (if trie_node_empty ch then clear_empty_nodes ps else Some (rebuild (TrieNode None ch) ps))"
| "erase_impl hash (TrieNode val ch) (c # key) ps =
    (case ch c of None \<Rightarrow> Some (rebuild (TrieNode val ch) ps) | Some n \<Rightarrow> erase_impl hash n key ((val, ch, c) # ps))"

definition ht_erase :: "(string \<Rightarrow> u64) \<Rightarrow> string \<Rightarrow> 'v htrie \<Rightarrow> nat \<times> 'v htrie" where
  "ht_erase hash key t =
    (case ht_find hash key t of
      None \<Rightarrow> (0, t)
    | Some _ \<Rightarrow> (1, t\<lparr>ht_root := erase_impl hash (the (ht_root t)) key [], ht_nb_elements := ht_nb_elements t - 1\<rparr>))"

definition ht_clear :: "'v htrie \<Rightarrow> 'v htrie" where
  "ht_clear t = t\<lparr>ht_root := None, ht_nb_elements := 0\<rparr>"

section \<open>The search\<close>

lemma longest_prefix_Nil [simp]: "longest_prefix m [] = (if m [] \<noteq> None then Some [] else None)"
  by (simp add: longest_prefix.simps)

lemma longest_prefix_Cons:
  "longest_prefix m (c # s) =
    (case longest_prefix (\<lambda>k. m (c # k)) s of Some k \<Rightarrow> Some (c # k) | None \<Rightarrow> if m [] \<noteq> None then Some [] else None)"
proof (induction s rule: rev_induct)
  case Nil
  show ?case by (simp add: longest_prefix.simps [of m "[c]"])
next
  case (snoc d s)
  have "longest_prefix m (c # s @ [d]) = (if m (c # s @ [d]) \<noteq> None then Some (c # s @ [d]) else longest_prefix m (c # s))"
    using longest_prefix.simps [of m "c # s @ [d]"] by (simp add: butlast_append)
  moreover have "longest_prefix (\<lambda>k. m (c # k)) (s @ [d]) = (if m (c # s @ [d]) \<noteq> None then Some (s @ [d]) else longest_prefix (\<lambda>k. m (c # k)) s)"
    using longest_prefix.simps [of "\<lambda>k. m (c # k)" "s @ [d]"] by simp
  ultimately show ?case using snoc by simp
qed

lemma longest_prefix_none [simp]: "longest_prefix (\<lambda>k. None) s = None"
proof (induction s rule: rev_induct)
  case (snoc c s)
  then show ?case by (subst longest_prefix.simps) simp
qed simp

lemma longest_prefix_impl_eq:
  "longest_prefix_impl hash n s pre found =
    (case longest_prefix (find_impl hash n) s of Some k \<Rightarrow> Some (pre @ k) | None \<Rightarrow> found)"
proof (induction hash n s pre found rule: longest_prefix_impl.induct)
  case (1 hash h s pre found)
  have "find_impl hash (HashNode h) = (\<lambda>k. ah_find hash k h)" by auto
  then show ?case by simp
next
  case (3 hash val ch c s pre found)
  show ?case
  proof (cases "ch c")
    case None
    then show ?thesis by (simp add: longest_prefix_Cons)
  next
    case (Some n)
    then have "(\<lambda>k. find_impl hash (TrieNode val ch) (c # k)) = find_impl hash n" by auto
    with Some 3 show ?thesis by (auto simp: longest_prefix_Cons Let_def split: option.split)
  qed
qed simp

lemma ht_longest_prefix_eq: "ht_longest_prefix hash s t = longest_prefix (\<lambda>k. ht_find hash k t) s"
proof (cases "ht_root t")
  case None
  then have "(\<lambda>k. ht_find hash k t) = (\<lambda>k. None)" by (simp add: ht_find_def)
  with None show ?thesis by (simp add: ht_longest_prefix_def)
next
  case (Some n)
  then have "(\<lambda>k. ht_find hash k t) = find_impl hash n" by (auto simp: ht_find_def)
  with Some show ?thesis by (simp add: ht_longest_prefix_def longest_prefix_impl_eq split: option.split)
qed

section \<open>Bursting\<close>

text \<open>What the entries of a leaf leave for the child of a character.\<close>

definition tails :: "char \<Rightarrow> (string \<times> 'v) list \<Rightarrow> (string \<times> 'v) list" where
  "tails c es = map (\<lambda>(k, v). (tl k, v)) (filter (\<lambda>(k, v). k \<noteq> [] \<and> hd k = c) es)"

lemma tails_simps [simp]:
  "tails c [] = []" "tails c (([], v) # es) = tails c es"
  "tails c ((d # k, v) # es) = (if d = c then (k, v) # tails c es else tails c es)"
  "tails c (xs @ ys) = tails c xs @ tails c ys"
  by (simp_all add: tails_def)

lemma map_of_tails: "map_of (tails c es) k = map_of es (c # k)"
proof (induction es)
  case (Cons e es)
  obtain key v where "e = (key, v)" by (cases e)
  with Cons show ?case by (cases key) simp_all
qed simp

lemma tails_distinct: "distinct (map fst es) \<Longrightarrow> distinct (map fst (tails c es))"
proof (induction es)
  case (Cons e es)
  obtain key v where e: "e = (key, v)" by (cases e)
  have "k \<in> fst ` set (tails c es) \<longleftrightarrow> c # k \<in> fst ` set es" for k
    using map_of_tails [of c es k] by (metis map_of_eq_None_iff)
  with Cons e show ?case by (cases key) auto
qed simp

lemma tails_length: "length (tails c es) \<le> length es"
  by (simp add: tails_def)

text \<open>A child under construction has the entries seen so far.\<close>

definition child_ok :: "(string \<Rightarrow> u64) \<Rightarrow> (string \<times> 'v) list \<Rightarrow> 'v array_hash option \<Rightarrow> bool" where
  "child_ok hash es x = (case x of None \<Rightarrow> es = [] | Some h \<Rightarrow> es \<noteq> [] \<and> ah_inv hash h \<and> mset (ah_entries h) = mset es)"

definition bursting :: "(string \<Rightarrow> u64) \<Rightarrow> (string \<times> 'v) list \<Rightarrow> 'v option \<times> (char \<Rightarrow> 'v array_hash option) \<Rightarrow> bool" where
  "bursting hash es s \<longleftrightarrow> fst s = map_of es [] \<and> (\<forall>c. child_ok hash (tails c es) (snd s c))"

lemma get_hash_node_ok:
  fixes ch :: "char \<Rightarrow> 'v array_hash option"
  assumes "child_ok hash es (ch c)" "cnt c \<le> MAX_INDEX"
  obtains h where "get_hash_node_for_char cnt ch c = Inr h" "ah_inv hash h" "mset (ah_entries h) = mset es"
proof (cases "ch c")
  case None
  let ?n = "of_nat ((cnt c + 16 + 7) div MAX_LOAD_FACTOR) :: u64"
  have "(cnt c + 16 + 7) div MAX_LOAD_FACTOR \<le> 2 ^ 14" using assms(2) by simp
  then have "unat ?n = (cnt c + 16 + 7) div MAX_LOAD_FACTOR" by (intro of_nat_inverse) simp_all
  moreover have "0 < (cnt c + 16 + 7) div MAX_LOAD_FACTOR" "(cnt c + 16 + 7) div MAX_LOAD_FACTOR \<le> 2 ^ 19" using assms(2) by simp_all
  ultimately have n: "0 < ?n" "unat ?n \<le> 2 ^ 19" by (simp_all only: word_less_nat_alt unat_0)
  obtain h :: "'v array_hash" where "array_hash_make ?n = Inr h" "ah_inv hash h" "ah_entries h = []" "ah_nb h = 0"
    by (rule array_hash_make_ok [OF n])
  then show thesis using that [of h] None assms(1) by (simp add: get_hash_node_for_char_def child_ok_def)
next
  case (Some h)
  then show thesis using that [of h] assms(1) by (simp add: get_hash_node_for_char_def child_ok_def)
qed

lemma bursting_child:
  assumes "bursting hash ds (val, ch)" "ah_inv hash h" "mset (ah_entries h) = add_mset (k, v) (mset (tails c ds))"
  shows "bursting hash (ds @ [(c # k, v)]) (val, ch(c \<mapsto> h))"
proof -
  have "child_ok hash (tails d (ds @ [(c # k, v)])) ((ch(c \<mapsto> h)) d)" for d
    using assms by (cases "d = c") (simp_all add: bursting_def, simp add: child_ok_def)
  then show ?thesis using assms(1) by (simp add: bursting_def map_add_def split: option.split)
qed

lemma bursting_value: "bursting hash ds (val, ch) \<Longrightarrow> [] \<notin> fst ` set ds \<Longrightarrow> bursting hash (ds @ [([], v)]) (Some v, ch)"
  by (auto simp: bursting_def map_add_def map_of_eq_None_iff [symmetric] split: option.split)

lemma burst_entries_ok:
  assumes "bursting hash ds s" "distinct (map fst (ds @ es))" "\<forall>e \<in> set es. key_fits (fst e)" "length (ds @ es) \<le> MAX_INDEX" "\<forall>c. cnt c \<le> MAX_INDEX"
  shows "\<exists>s'. burst_entries hash cnt es s = Inr s' \<and> bursting hash (ds @ es) s'"
  using assms
proof (induction hash cnt es s arbitrary: ds rule: burst_entries.induct)
  case (2 hash cnt v es val ch)
  have v: "bursting hash (ds @ [([], v)]) (Some v, ch)"
    by (rule bursting_value [OF "2.prems"(1)]) (use "2.prems"(2) in auto)
  show ?case using "2.IH" [OF v] "2.prems" by simp
next
  case (3 hash cnt c k v es val ch)
  from "3.prems"(1) have ok: "child_ok hash (tails c ds) (ch c)" by (simp add: bursting_def)
  have cnt: "cnt c \<le> MAX_INDEX" using "3.prems"(5) by simp
  obtain h where h: "get_hash_node_for_char cnt ch c = Inr h" "ah_inv hash h" "mset (ah_entries h) = mset (tails c ds)"
    by (rule get_hash_node_ok [where ch = ch and c = c and cnt = cnt, OF ok cnt])
  have "map_of ds (c # k) = None" using "3.prems"(2) by (auto simp: map_of_eq_None_iff)
  then have new: "ah_find hash k h = None"
    using map_of_mset_eq [OF ah_distinct [OF h(2)] h(3)] by (simp add: ah_find_entries [OF h(2)] map_of_tails)
  have fits: "key_fits k" using "3.prems"(3) by (simp add: key_fits_def)
  have "ah_nb h = length (tails c ds)" using ah_size [OF h(2)] h(3) by (metis size_mset)
  then have room: "ah_nb h < MAX_INDEX" using tails_length [of c ds] "3.prems"(4) by simp
  obtain h' where h': "ah_emplace hash k v h = (Inr True, h')" "ah_inv hash h'" "mset (ah_entries h') = add_mset (k, v) (mset (ah_entries h))"
    by (rule ah_emplace_new [OF h(2) new fits room])
  have "bursting hash (ds @ [(c # k, v)]) (val, ch(c \<mapsto> h'))"
    using bursting_child [OF "3.prems"(1) h'(2)] h'(3) h(3) by simp
  with "3.IH" [OF h(1) h'(1) [symmetric] refl, of "ds @ [(c # k, v)]"] "3.prems"(2-5) h(1) h'(1) show ?case by simp
qed simp

section \<open>Invariant\<close>

text \<open>
  No leaf is empty or has more entries than the threshold, every inner node has a value or a child, and no key is too long.
\<close>

inductive node_inv :: "(string \<Rightarrow> u64) \<Rightarrow> nat \<Rightarrow> 'v anode \<Rightarrow> bool" for hash threshold where
  hash_node: "ah_inv hash h \<Longrightarrow> 0 < ah_nb h \<Longrightarrow> ah_nb h \<le> threshold \<Longrightarrow> \<forall>e \<in> set (ah_entries h). key_fits (fst e) \<Longrightarrow>
    node_inv hash threshold (HashNode h)"
| trie_node: "val \<noteq> None \<or> (\<exists>c. ch c \<noteq> None) \<Longrightarrow> (\<And>c n. ch c = Some n \<Longrightarrow> node_inv hash threshold n) \<Longrightarrow>
    node_inv hash threshold (TrieNode val ch)"

inductive_simps node_inv_hash: "node_inv hash threshold (HashNode h)"
inductive_simps node_inv_trie: "node_inv hash threshold (TrieNode val ch)"

lemma node_inv_child: "node_inv hash threshold (TrieNode val ch) \<Longrightarrow> ch c = Some n \<Longrightarrow> node_inv hash threshold n"
  by (simp add: node_inv_trie)

lemma node_inv_update:
  "node_inv hash threshold (TrieNode val ch) \<Longrightarrow> node_inv hash threshold n \<Longrightarrow> node_inv hash threshold (TrieNode val (ch(c \<mapsto> n)))"
  by (auto simp: node_inv_trie)

lemma tails_in: "(k, v) \<in> set (tails c es) \<longleftrightarrow> (c # k, v) \<in> set es"
  by (force simp: tails_def image_iff)

lemma bursting_inv:
  assumes "bursting hash es (val, ch)" "es \<noteq> []" "length es \<le> threshold" "\<forall>e \<in> set es. key_fits (fst e)"
  shows "node_inv hash threshold (TrieNode val (map_option HashNode \<circ> ch))"
proof (rule trie_node)
  obtain k v es' where es: "es = (k, v) # es'" using assms(2) by (cases es) auto
  show "val \<noteq> None \<or> (\<exists>c. (map_option HashNode \<circ> ch) c \<noteq> None)"
  proof (cases k)
    case Nil
    then show ?thesis using assms(1) es by (simp add: bursting_def)
  next
    case (Cons c k')
    then have "tails c es \<noteq> []" using es by simp
    then have "ch c \<noteq> None" using assms(1) by (auto simp: bursting_def child_ok_def split: option.splits dest: spec [of _ c])
    then show ?thesis by auto
  qed
next
  fix c n assume "(map_option HashNode \<circ> ch) c = Some n"
  then obtain h where h: "ch c = Some h" "n = HashNode h" by auto
  then have ok: "tails c es \<noteq> []" "ah_inv hash h" "mset (ah_entries h) = mset (tails c es)"
    using assms(1) by (auto simp: bursting_def child_ok_def split: option.splits dest: spec [of _ c])
  have len: "ah_nb h = length (tails c es)" using ah_size [OF ok(2)] ok(3) by (metis size_mset)
  have "set (ah_entries h) = set (tails c es)" using ok(3) by (metis set_mset_mset)
  then have "key_fits (fst e)" if "e \<in> set (ah_entries h)" for e
    using that tails_in [of "fst e" "snd e" c es] assms(4) by (force simp: key_fits_def)
  then have "\<forall>e \<in> set (ah_entries h). key_fits (fst e)" by blast
  moreover have "ah_nb h \<le> threshold" using len tails_length [of c es] assms(3) by simp
  moreover have "0 < ah_nb h" using len ok(1) by simp
  ultimately show "node_inv hash threshold n" unfolding h(2) using ok(2) by (intro hash_node)
qed

lemma bursting_find:
  assumes "bursting hash es (val, ch)"
  shows "find_impl hash (TrieNode val (map_option HashNode \<circ> ch)) k = map_of es k"
proof (cases k)
  case Nil
  then show ?thesis using assms by (simp add: bursting_def)
next
  case (Cons c k')
  have ok: "child_ok hash (tails c es) (ch c)" using assms by (simp add: bursting_def)
  show ?thesis
  proof (cases "ch c")
    case None
    then show ?thesis using ok Cons map_of_tails [of c es k'] by (simp add: child_ok_def)
  next
    case (Some h)
    then have "map_of (ah_entries h) = map_of (tails c es)" using ok by (intro map_of_mset_eq ah_distinct [of hash]) (simp_all add: child_ok_def)
    then show ?thesis using ok Cons Some map_of_tails [of c es k'] by (simp add: child_ok_def ah_find_entries)
  qed
qed

text \<open>Bursting a leaf changes nothing that is found.\<close>

lemma burst_ok:
  assumes "node_inv hash threshold (HashNode h)" "threshold \<le> MAX_INDEX"
  obtains n where "burst hash h = Inr n" "node_inv hash threshold n" "find_impl hash n = find_impl hash (HashNode h)"
proof -
  have h: "ah_inv hash h" "0 < ah_nb h" "ah_nb h \<le> threshold" "\<forall>e \<in> set (ah_entries h). key_fits (fst e)"
    using assms(1) by (simp_all add: node_inv_hash)
  let ?es = "ah_entries h"
  have len: "length ?es = ah_nb h" using ah_size [OF h(1)] by simp
  have "bursting hash [] (None, Map.empty)" by (simp add: bursting_def child_ok_def)
  moreover have "get_first_char_count ?es c \<le> MAX_INDEX" for c
    using length_filter_le [of "\<lambda>(k, v). k \<noteq> [] \<and> hd k = c" ?es] len h(3) assms(2) by (simp add: get_first_char_count_def)
  ultimately obtain s where s: "burst_entries hash (get_first_char_count ?es) ?es (None, Map.empty) = Inr s" "bursting hash ?es s"
    using burst_entries_ok [of hash "[]" "(None, Map.empty)" ?es "get_first_char_count ?es"] ah_distinct [OF h(1)] h(3,4) len assms(2) by auto
  obtain val ch where vc: "s = (val, ch)" by (cases s)
  let ?n = "TrieNode val (map_option HashNode \<circ> ch)"
  have "burst hash h = Inr ?n" using s(1) vc by (simp add: burst_def)
  moreover have "?es \<noteq> []" using len h(2) by auto
  then have "node_inv hash threshold ?n" using bursting_inv [of hash ?es val ch threshold] s(2) vc len h by auto
  moreover have "find_impl hash ?n = find_impl hash (HashNode h)"
    using bursting_find [of hash ?es val ch] s(2) vc by (simp add: fun_eq_iff ah_find_entries [OF h(1)])
  ultimately show thesis using that by blast
qed

section \<open>Insertion and erasure\<close>

text \<open>What an insertion does to what is found.\<close>

definition inserted :: "(string \<rightharpoonup> 'v) \<Rightarrow> string \<Rightarrow> 'v \<Rightarrow> (string \<rightharpoonup> 'v)" where
  "inserted m key v = (if m key = None then m(key \<mapsto> v) else m)"

lemma emplace_node:
  assumes "ah_inv hash h" "ah_nb h < threshold" "threshold \<le> MAX_INDEX" "\<forall>e \<in> set (ah_entries h). key_fits (fst e)" "key_fits key"
  obtains h' where "ah_emplace hash key v h = (Inr (ah_find hash key h = None), h')" "node_inv hash threshold (HashNode h')"
    "find_impl hash (HashNode h') = inserted (find_impl hash (HashNode h)) key v"
proof (cases "ah_find hash key h")
  case None
  have room: "ah_nb h < MAX_INDEX" using assms(2,3) by simp
  obtain h' where h': "ah_emplace hash key v h = (Inr True, h')" "ah_inv hash h'"
    "mset (ah_entries h') = add_mset (key, v) (mset (ah_entries h))" "ah_nb h' = ah_nb h + 1"
    by (rule ah_emplace_new [OF assms(1) None assms(5) room])
  have "set (ah_entries h') = insert (key, v) (set (ah_entries h))" using h'(3) by (metis set_mset_mset set_mset_add_mset_insert)
  then have "node_inv hash threshold (HashNode h')" using h' assms(2,4,5) by (intro hash_node) simp_all
  moreover have "find_impl hash (HashNode h') = inserted (find_impl hash (HashNode h)) key v"
    using ah_find_emplaced [OF assms(1) h'(2,3)] None by (auto simp: inserted_def)
  ultimately show thesis using that h'(1) None by simp
next
  case (Some w)
  then have "ah_nb h \<noteq> 0" using ah_size [OF assms(1)] by (auto simp: ah_find_entries [OF assms(1)])
  then have "node_inv hash threshold (HashNode h)" using assms(1,2,4) by (intro hash_node) simp_all
  then show thesis using that [of h] ah_emplace_present [OF Some, of v] Some by (simp add: inserted_def)
qed

lemma find_child: "ch c = Some n \<Longrightarrow> find_impl hash (TrieNode val ch) (c # key) = find_impl hash n key"
  by simp

lemma find_update:
  assumes "ch c = Some n" "find_impl hash n' = inserted (find_impl hash n) key v"
  shows "find_impl hash (TrieNode val (ch(c \<mapsto> n'))) = inserted (find_impl hash (TrieNode val ch)) (c # key) v"
proof
  fix k
  show "find_impl hash (TrieNode val (ch(c \<mapsto> n'))) k = inserted (find_impl hash (TrieNode val ch)) (c # key) v k"
    using assms by (cases k) (auto simp: inserted_def)
qed

lemma new_leaf:
  assumes "key_fits key" "0 < threshold" "threshold \<le> MAX_INDEX"
  obtains h h' where "array_hash_make 32 = Inr h" "ah_emplace hash key v h = (Inr True, h')" "node_inv hash threshold (HashNode h')"
    "find_impl hash (HashNode h') = [key \<mapsto> v]"
proof -
  obtain h :: "'a array_hash" where h: "array_hash_make 32 = Inr h" "ah_inv hash h" "ah_entries h = []" "ah_nb h = 0"
    by (rule array_hash_make_ok [of 32]) simp_all
  have none: "ah_find hash k h = None" for k using h(3) by (simp add: ah_find_entries [OF h(2)])
  obtain h' where "ah_emplace hash key v h = (Inr (ah_find hash key h = None), h')" "node_inv hash threshold (HashNode h')"
    "find_impl hash (HashNode h') = inserted (find_impl hash (HashNode h)) key v"
    by (rule emplace_node [OF h(2) _ assms(3) _ assms(1)]) (use h(3,4) assms(2) in simp_all)
  moreover have "find_impl hash (HashNode h) = Map.empty" using none by (simp add: fun_eq_iff)
  ultimately show thesis using that [of h h'] h(1) none by (simp add: inserted_def)
qed

lemma insert_impl_ok:
  assumes "node_inv hash threshold n" "key_fits key" "0 < threshold" "threshold \<le> MAX_INDEX"
  shows "\<exists>n'. insert_impl hash threshold n key v = Inr (find_impl hash n key = None, n') \<and> node_inv hash threshold n' \<and>
    find_impl hash n' = inserted (find_impl hash n) key v"
  using assms
proof (induction hash threshold n key v rule: insert_impl.induct)
  case (1 hash threshold h key v)
  show ?case
  proof (cases "ah_nb h \<ge> threshold")
    case True
    obtain n where n: "burst hash h = Inr n" "node_inv hash threshold n" "find_impl hash n = find_impl hash (HashNode h)"
      by (rule burst_ok [OF "1.prems"(1,4)])
    from "1.IH" [OF True n(1,2) "1.prems"(2-4)] True n(1,3) show ?thesis by simp
  next
    case False
    obtain h' where "ah_emplace hash key v h = (Inr (ah_find hash key h = None), h')" "node_inv hash threshold (HashNode h')"
      "find_impl hash (HashNode h') = inserted (find_impl hash (HashNode h)) key v"
      by (rule emplace_node [of hash h threshold key v]) (use "1.prems" False in \<open>simp_all add: node_inv_hash\<close>)
    moreover have "find_impl hash (HashNode h) = (\<lambda>k. ah_find hash k h)" by auto
    ultimately show ?thesis using False by (intro exI [of _ "HashNode h'"]) simp
  qed
next
  case (2 hash threshold val ch v)
  have "find_impl hash (TrieNode (Some v) ch) k = (if k = [] then Some v else find_impl hash (TrieNode val ch) k)" for k by (cases k) simp_all
  with "2.prems"(1) show ?case by (auto simp: inserted_def node_inv_trie fun_eq_iff)
next
  case (3 hash threshold val ch c key v)
  have fits: "key_fits key" using "3.prems"(2) by (simp add: key_fits_def)
  show ?case
  proof (cases "ch c")
    case None
    obtain h h' where h: "array_hash_make 32 = Inr h" "ah_emplace hash key v h = (Inr True, h')" "node_inv hash threshold (HashNode h')"
      "find_impl hash (HashNode h') = [key \<mapsto> v]"
      by (rule new_leaf [OF fits "3.prems"(3,4)])
    have "find_impl hash (TrieNode val (ch(c \<mapsto> HashNode h'))) k = inserted (find_impl hash (TrieNode val ch)) (c # key) v k" for k
      using None h(4) by (cases k) (auto simp: inserted_def fun_eq_iff)
    then show ?thesis using None h node_inv_update [OF "3.prems"(1) h(3), of c] by (intro exI [of _ "TrieNode val (ch(c \<mapsto> HashNode h'))"]) (simp add: fun_eq_iff)
  next
    case (Some n)
    from "3.IH" [OF Some node_inv_child [OF "3.prems"(1) Some] fits "3.prems"(3,4)] obtain n' where
      n': "insert_impl hash threshold n key v = Inr (find_impl hash n key = None, n')" "node_inv hash threshold n'"
      "find_impl hash n' = inserted (find_impl hash n) key v" by blast
    then show ?thesis using Some find_update [where ch = ch and c = c and val = val, OF Some n'(3)] node_inv_update [OF "3.prems"(1) n'(2), of c]
      by (intro exI [of _ "TrieNode val (ch(c \<mapsto> n'))"]) simp
  qed
qed

text \<open>
  Erasure without the path: the node that is left, if any. The path only carries this result to the root.
\<close>

fun erase_node :: "(string \<Rightarrow> u64) \<Rightarrow> 'v anode \<Rightarrow> string \<Rightarrow> 'v anode option" where
  "erase_node hash (HashNode h) key = (let h = ah_erase hash key h in if ah_nb h = 0 then None else Some (HashNode h))"
| "erase_node hash (TrieNode val ch) [] = (if trie_node_empty ch then None else Some (TrieNode None ch))"
| "erase_node hash (TrieNode val ch) (c # key) =
    (case ch c of
      None \<Rightarrow> Some (TrieNode val ch)
    | Some n \<Rightarrow>
        (case erase_node hash n key of
          Some n' \<Rightarrow> Some (TrieNode val (ch(c \<mapsto> n')))
        | None \<Rightarrow> if val \<noteq> None \<or> nb_children ch > 1 then Some (TrieNode val (ch(c := None))) else None))"

definition plug :: "'v anode option \<Rightarrow> 'v node_path \<Rightarrow> 'v anode option" where
  "plug x ps = (case x of None \<Rightarrow> clear_empty_nodes ps | Some n \<Rightarrow> Some (rebuild n ps))"

lemma erase_impl_plug: "erase_impl hash n key ps = plug (erase_node hash n key) ps"
  by (induction hash n key ps rule: erase_impl.induct) (auto simp: plug_def Let_def split: option.splits)

lemma nb_children_two:
  assumes "ch c \<noteq> None" "ch d \<noteq> None" "c \<noteq> d"
  shows "nb_children ch > 1"
proof -
  let ?xs = "filter (\<lambda>i. ch (char_of i) \<noteq> None) [0..<256 :: nat]"
  have "{of_char c, of_char d} \<subseteq> set ?xs" using assms(1,2) by simp
  then have "card {of_char c :: nat, of_char d} \<le> card (set ?xs)" by (intro card_mono) simp_all
  moreover have "card {of_char c :: nat, of_char d} = 2" using assms(3) by simp
  moreover have "card (set ?xs) = length ?xs" by (intro distinct_card) simp
  ultimately show ?thesis by (simp add: nb_children_def)
qed

lemma nb_children_other:
  assumes "nb_children ch > 1"
  obtains d where "d \<noteq> c" "ch d \<noteq> None"
proof -
  let ?xs = "filter (\<lambda>i. ch (char_of i) \<noteq> None) [0..<256 :: nat]"
  have "card (set ?xs) = length ?xs" by (intro distinct_card) simp
  then have "card (set ?xs) > 1" using assms by (simp add: nb_children_def)
  then have "\<not> set ?xs \<subseteq> {of_char c}" using card_mono [of "{of_char c :: nat}" "set ?xs"] by auto
  then obtain i :: nat where "i < 256" "i \<noteq> of_char c" "ch (char_of i) \<noteq> None" by auto
  moreover from this(1) have "of_char (char_of i :: char) = i" by (simp add: of_char_of)
  ultimately show thesis using that [of "char_of i"] by metis
qed

lemma trie_node_empty_iff: "trie_node_empty ch \<longleftrightarrow> (\<forall>c. ch c = None)"
proof
  assume e: "trie_node_empty ch"
  show "\<forall>c. ch c = None"
  proof
    fix c
    have "of_char c \<in> set [0..<256 :: nat]" by simp
    then have "ch (char_of (of_char c :: nat)) = None" using e unfolding trie_node_empty_def list_all_iff by blast
    then show "ch c = None" by simp
  qed
qed (simp add: trie_node_empty_def list_all_iff)

text \<open>What is found below a node that may be gone.\<close>

definition look :: "(string \<Rightarrow> u64) \<Rightarrow> 'v anode option \<Rightarrow> string \<rightharpoonup> 'v" where
  "look hash x k = (case x of None \<Rightarrow> None | Some n \<Rightarrow> find_impl hash n k)"

lemma look_simps [simp]:
  "look hash None k = None" "look hash (Some (HashNode h)) k = ah_find hash k h"
  "look hash (Some (TrieNode val ch)) [] = val" "look hash (Some (TrieNode val ch)) (c # k) = look hash (ch c) k"
  by (simp_all add: look_def)

definition maybe_inv :: "(string \<Rightarrow> u64) \<Rightarrow> nat \<Rightarrow> 'v anode option \<Rightarrow> bool" where
  "maybe_inv hash threshold x = (case x of None \<Rightarrow> True | Some n \<Rightarrow> node_inv hash threshold n)"

lemma maybe_inv_simps [simp]:
  "maybe_inv hash threshold None" "maybe_inv hash threshold (Some n) = node_inv hash threshold n"
  by (simp_all add: maybe_inv_def)

lemma node_inv_child_gone:
  assumes "node_inv hash threshold (TrieNode val ch)" "val \<noteq> None \<or> nb_children ch > 1"
  shows "node_inv hash threshold (TrieNode val (ch(c := None)))"
proof (rule trie_node)
  show "val \<noteq> None \<or> (\<exists>d. (ch(c := None)) d \<noteq> None)"
    using assms(2) nb_children_other [where ch = ch and c = c] by (metis fun_upd_apply)
qed (use assms(1) in \<open>auto simp: node_inv_trie split: if_splits\<close>)

lemma erase_leaf_ok:
  assumes "node_inv hash threshold (HashNode h)" "ah_find hash key h = Some v"
  shows "maybe_inv hash threshold (erase_node hash (HashNode h) key)"
    "look hash (erase_node hash (HashNode h) key) k = (if k = key then None else ah_find hash k h)"
proof -
  let ?h = "ah_erase hash key h"
  have inv: "ah_inv hash h" "ah_nb h \<le> threshold" "\<forall>e \<in> set (ah_entries h). key_fits (fst e)" using assms(1) by (simp_all add: node_inv_hash)
  note e = ah_erase_ok [OF inv(1) assms(2)]
  have "set (ah_entries h) = insert (key, v) (set (ah_entries ?h))" using e(2) by (metis set_mset_mset set_mset_add_mset_insert)
  then have "node_inv hash threshold (HashNode ?h)" if "ah_nb ?h \<noteq> 0" using e inv(2,3) that by (intro hash_node) simp_all
  then show "maybe_inv hash threshold (erase_node hash (HashNode h) key)" by (simp add: Let_def)
  have "ah_find hash k ?h = None" if "ah_nb ?h = 0" using that ah_size [OF e(1)] by (simp add: ah_find_entries [OF e(1)])
  then show "look hash (erase_node hash (HashNode h) key) k = (if k = key then None else ah_find hash k h)"
    using ah_find_erased [OF inv(1) assms(2), of k] by (auto simp: Let_def)
qed

lemma erase_node_ok:
  assumes "node_inv hash threshold n" "find_impl hash n key \<noteq> None"
  shows "maybe_inv hash threshold (erase_node hash n key) \<and>
    (\<forall>k. look hash (erase_node hash n key) k = (if k = key then None else find_impl hash n k))"
  using assms
proof (induction hash n key rule: erase_node.induct)
  case (1 hash h key)
  then show ?case using erase_leaf_ok [of hash threshold h key] by auto
next
  case (2 hash val ch)
  have "look hash (if trie_node_empty ch then None else Some (TrieNode None ch)) k = (if k = [] then None else find_impl hash (TrieNode val ch) k)" for k
    by (cases k) (simp_all add: trie_node_empty_iff look_def split: option.split)
  with "2.prems"(1) show ?case by (auto simp: node_inv_trie trie_node_empty_iff)
next
  case (3 hash val ch c key)
  obtain n where n: "ch c = Some n" "find_impl hash n key \<noteq> None" using "3.prems"(2) by (cases "ch c") simp_all
  have ih: "maybe_inv hash threshold (erase_node hash n key)" "\<And>k. look hash (erase_node hash n key) k = (if k = key then None else find_impl hash n k)"
    using "3.IH" [OF n(1) node_inv_child [OF "3.prems"(1) n(1)] n(2)] by blast+
  show ?case
  proof (cases "erase_node hash n key")
    case None
    have only: "find_impl hash n k = None" if "k \<noteq> key" for k using ih(2) [of k] None that by simp
    show ?thesis
    proof (cases "val \<noteq> None \<or> nb_children ch > 1")
      case True
      have "look hash (Some (TrieNode val (ch(c := None)))) k = (if k = c # key then None else find_impl hash (TrieNode val ch) k)" for k
        using only n(1) by (cases k) (auto simp: look_def split: option.split)
      with True None n(1) node_inv_child_gone [OF "3.prems"(1) True] show ?thesis by simp
    next
      case False
      then have "ch d = None" if "d \<noteq> c" for d using nb_children_two [where ch = ch and c = c and d = d] n(1) that by (cases "ch d") auto
      then have "find_impl hash (TrieNode val ch) k = None" if "k \<noteq> c # key" for k
        using that only n(1) False by (cases k) (simp_all, metis option.case_eq_if option.sel)
      with False None n(1) show ?thesis by simp
    qed
  next
    case (Some n')
    have "look hash (Some (TrieNode val (ch(c \<mapsto> n')))) k = (if k = c # key then None else find_impl hash (TrieNode val ch) k)" for k
      using ih(2) [of "tl k"] Some n(1) by (cases k) (auto simp: look_def split: option.split)
    with Some n(1) node_inv_update [OF "3.prems"(1)] ih(1) show ?thesis by simp
  qed
qed

section \<open>The trie as a map\<close>

definition ht_inv :: "(string \<Rightarrow> u64) \<Rightarrow> 'v htrie \<Rightarrow> bool" where
  "ht_inv hash t \<longleftrightarrow> maybe_inv hash (ht_burst_threshold t) (ht_root t) \<and> 0 < ht_burst_threshold t \<and> ht_burst_threshold t \<le> MAX_INDEX \<and>
    finite (dom (\<lambda>k. ht_find hash k t)) \<and> ht_nb_elements t = card (dom (\<lambda>k. ht_find hash k t))"

lemma ht_find_look: "ht_find hash k t = look hash (ht_root t) k"
  by (simp add: ht_find_def look_def)

lemma ht_make_inv: "threshold \<le> MAX_INDEX \<Longrightarrow> ht_inv hash (ht_make threshold)"
  by (simp add: ht_inv_def ht_make_def ht_find_def)

lemma ht_make_find: "ht_find hash k (ht_make threshold) = None"
  by (simp add: ht_make_def ht_find_def)

lemma insert_root_ok:
  assumes "maybe_inv hash threshold x" "key_fits key" "0 < threshold" "threshold \<le> MAX_INDEX"
  shows "\<exists>n n'. (case x of None \<Rightarrow> map_sum id HashNode (array_hash_make 32) | Some n \<Rightarrow> Inr n) = Inr n \<and>
    insert_impl hash threshold n key v = Inr (look hash x key = None, n') \<and> node_inv hash threshold n' \<and>
    find_impl hash n' = inserted (look hash x) key v"
proof (cases x)
  case None
  obtain h h' where h: "array_hash_make 32 = Inr h" "ah_emplace hash key v h = (Inr True, h')" "node_inv hash threshold (HashNode h')"
    "find_impl hash (HashNode h') = [key \<mapsto> v]"
    by (rule new_leaf [OF assms(2-4)])
  obtain g :: "'a array_hash" where "array_hash_make 32 = Inr g" "ah_inv hash g" "ah_entries g = []" "ah_nb g = 0"
    by (rule array_hash_make_ok [of 32]) simp_all
  with h(1) have "ah_nb h = 0" by simp
  with None h assms(3) show ?thesis by (intro exI [of _ "HashNode h"] exI [of _ "HashNode h'"]) (simp add: inserted_def fun_eq_iff)
next
  case (Some n)
  then have "look hash x = find_impl hash n" by (simp add: look_def fun_eq_iff)
  with Some insert_impl_ok [of hash threshold n key v] assms show ?thesis by auto
qed

lemma ht_insert_ok:
  assumes "ht_inv hash t" "key_fits key"
  obtains t' where "ht_insert hash key v t = (Inr (ht_find hash key t = None), t')" "ht_inv hash t'"
    "(\<lambda>k. ht_find hash k t') = inserted (\<lambda>k. ht_find hash k t) key v"
proof -
  have inv: "maybe_inv hash (ht_burst_threshold t) (ht_root t)" "0 < ht_burst_threshold t" "ht_burst_threshold t \<le> MAX_INDEX"
    "finite (dom (\<lambda>k. ht_find hash k t))" "ht_nb_elements t = card (dom (\<lambda>k. ht_find hash k t))"
    using assms(1) by (simp_all add: ht_inv_def)
  obtain n n' where n: "(case ht_root t of None \<Rightarrow> map_sum id HashNode (array_hash_make 32) | Some n \<Rightarrow> Inr n) = Inr n"
    "insert_impl hash (ht_burst_threshold t) n key v = Inr (look hash (ht_root t) key = None, n')"
    "node_inv hash (ht_burst_threshold t) n'" "find_impl hash n' = inserted (look hash (ht_root t)) key v"
    using insert_root_ok [OF inv(1) assms(2) inv(2,3), of v] by blast
  define new where "new = (look hash (ht_root t) key = None)"
  define t' where "t' = t\<lparr>ht_root := Some n', ht_nb_elements := ht_nb_elements t + (if new then 1 else 0)\<rparr>"
  have "ht_insert hash key v t = (Inr (ht_find hash key t = None), t')"
    using n(1,2) assms(2) by (simp add: ht_insert_def t'_def new_def ht_find_look)
  moreover have m: "(\<lambda>k. ht_find hash k t') = inserted (\<lambda>k. ht_find hash k t) key v"
    using n(4) by (simp add: t'_def ht_find_look look_def [of hash "Some n'"] fun_eq_iff inserted_def)
  moreover have "card (dom (inserted (\<lambda>k. ht_find hash k t) key v)) = card (dom (\<lambda>k. ht_find hash k t)) + (if new then 1 else 0)"
    using inv(4) by (auto simp: inserted_def new_def ht_find_look card_insert_if domIff)
  moreover have "finite (dom (inserted (\<lambda>k. ht_find hash k t) key v))" using inv(4) by (simp add: inserted_def)
  ultimately show thesis using that [of t'] n(3) inv by (simp add: ht_inv_def) (simp add: t'_def)
qed

lemma ht_erase_ok:
  assumes "ht_inv hash t"
  shows "fst (ht_erase hash key t) = (if ht_find hash key t = None then 0 else 1)" "ht_inv hash (snd (ht_erase hash key t))"
    "(\<lambda>k. ht_find hash k (snd (ht_erase hash key t))) = (\<lambda>k. ht_find hash k t)(key := None)"
proof -
  have inv: "maybe_inv hash (ht_burst_threshold t) (ht_root t)" "0 < ht_burst_threshold t" "ht_burst_threshold t \<le> MAX_INDEX"
    "finite (dom (\<lambda>k. ht_find hash k t))" "ht_nb_elements t = card (dom (\<lambda>k. ht_find hash k t))"
    using assms by (simp_all add: ht_inv_def)
  show "fst (ht_erase hash key t) = (if ht_find hash key t = None then 0 else 1)" by (simp add: ht_erase_def split: option.split)
  have "ht_inv hash (snd (ht_erase hash key t)) \<and> (\<lambda>k. ht_find hash k (snd (ht_erase hash key t))) = (\<lambda>k. ht_find hash k t)(key := None)"
  proof (cases "ht_find hash key t")
    case None
    then show ?thesis using assms by (auto simp: ht_erase_def)
  next
    case (Some v)
    then obtain n where n: "ht_root t = Some n" "find_impl hash n key = Some v" by (cases "ht_root t") (simp_all add: ht_find_def)
    define t' where "t' = t\<lparr>ht_root := erase_node hash n key, ht_nb_elements := ht_nb_elements t - 1\<rparr>"
    have t': "snd (ht_erase hash key t) = t'" using Some n(1) by (simp add: ht_erase_def t'_def erase_impl_plug plug_def split: option.split)
    have ok: "maybe_inv hash (ht_burst_threshold t) (erase_node hash n key)"
      "\<And>k. look hash (erase_node hash n key) k = (if k = key then None else find_impl hash n k)"
      using erase_node_ok [of hash "ht_burst_threshold t" n key] inv(1) n by auto
    have m: "(\<lambda>k. ht_find hash k t') = (\<lambda>k. ht_find hash k t)(key := None)"
      using ok(2) n(1) by (auto simp: t'_def ht_find_look look_def [of hash "Some n"])
    have "card (dom ((\<lambda>k. ht_find hash k t)(key := None))) = card (dom (\<lambda>k. ht_find hash k t)) - 1"
      using Some by (simp add: card_Diff_singleton domIff)
    then show ?thesis unfolding t' using m ok(1) inv by (simp add: ht_inv_def) (simp add: t'_def)
  qed
  then show "ht_inv hash (snd (ht_erase hash key t))" "(\<lambda>k. ht_find hash k (snd (ht_erase hash key t))) = (\<lambda>k. ht_find hash k t)(key := None)"
    by blast+
qed

interpretation tries: prefix_map "ht_inv hash" key_fits "\<lambda>t k. ht_find hash k t" "\<lambda>k v t. snd (ht_insert hash k v t)"
    "\<lambda>k t. snd (ht_erase hash k t)" "\<lambda>t s. ht_longest_prefix hash s t" for hash
proof unfold_locales
  fix t :: "'a htrie" and k j :: string and v :: 'a
  assume a: "ht_inv hash t" "key_fits k" "ht_find hash k t = None"
  obtain t' where t': "ht_insert hash k v t = (Inr (ht_find hash k t = None), t')" "ht_inv hash t'"
    "(\<lambda>k. ht_find hash k t') = inserted (\<lambda>k. ht_find hash k t) k v"
    by (rule ht_insert_ok [OF a(1,2)])
  show "ht_inv hash (snd (ht_insert hash k v t))" using t'(1,2) by simp
  show "ht_find hash j (snd (ht_insert hash k v t)) = (if j = k then Some v else ht_find hash j t)"
    using t'(1) fun_cong [OF t'(3), of j] a(3) by (simp add: inserted_def)
next
  fix t :: "'a htrie" and k j :: string
  assume a: "ht_inv hash t"
  show "ht_find hash j (snd (ht_erase hash k t)) = (if j = k then None else ht_find hash j t)" using fun_cong [OF ht_erase_ok(3) [OF a], of j k] by simp
qed (auto simp: ht_erase_ok ht_longest_prefix_eq longest_prefix_max dest: longest_prefix_some)

text \<open>A client changes the map by inserting and erasing; an insertion leaves a key alone that is there.\<close>

datatype 'v trie_op = Insert string 'v | Erase string

fun ht_op :: "(string \<Rightarrow> u64) \<Rightarrow> 'v trie_op \<Rightarrow> 'v htrie \<Rightarrow> bool result \<times> 'v htrie" where
  "ht_op hash (Insert k v) t = ht_insert hash k v t"
| "ht_op hash (Erase k) t = (let (n, t) = ht_erase hash k t in (Inr (n = 1), t))"

fun map_op :: "'v trie_op \<Rightarrow> (string \<rightharpoonup> 'v) \<Rightarrow> bool result \<times> (string \<rightharpoonup> 'v)" where
  "map_op (Insert k v) m = (if key_fits k then (Inr (m k = None), inserted m k v) else (Inl (StdExn ''Key is too long.''), m))"
| "map_op (Erase k) m = (Inr (m k \<noteq> None), m(k := None))"

fun run_ops :: "('op \<Rightarrow> 's \<Rightarrow> 'r \<times> 's) \<Rightarrow> 'op list \<Rightarrow> 's \<Rightarrow> 'r list \<times> 's" where
  "run_ops f [] s = ([], s)"
| "run_ops f (x # xs) s = (let (r, s) = f x s; (rs, s) = run_ops f xs s in (r # rs, s))"

lemma ht_op_simulates:
  assumes "ht_inv hash t"
  shows "fst (ht_op hash x t) = fst (map_op x (\<lambda>k. ht_find hash k t))" "ht_inv hash (snd (ht_op hash x t))"
    "(\<lambda>k. ht_find hash k (snd (ht_op hash x t))) = snd (map_op x (\<lambda>k. ht_find hash k t))"
proof -
  have "fst (ht_op hash x t) = fst (map_op x (\<lambda>k. ht_find hash k t)) \<and> ht_inv hash (snd (ht_op hash x t)) \<and>
    (\<lambda>k. ht_find hash k (snd (ht_op hash x t))) = snd (map_op x (\<lambda>k. ht_find hash k t))"
  proof (cases x)
    case (Insert k v)
    show ?thesis
    proof (cases "key_fits k")
      case True
      obtain t' where "ht_insert hash k v t = (Inr (ht_find hash k t = None), t')" "ht_inv hash t'"
        "(\<lambda>k. ht_find hash k t') = inserted (\<lambda>k. ht_find hash k t) k v"
        by (rule ht_insert_ok [OF assms True])
      with Insert True show ?thesis by simp
    next
      case False
      with Insert assms show ?thesis by (simp add: ht_insert_def)
    qed
  next
    case (Erase k)
    with ht_erase_ok [OF assms, of k] show ?thesis by (simp add: split_beta)
  qed
  then show "fst (ht_op hash x t) = fst (map_op x (\<lambda>k. ht_find hash k t))" "ht_inv hash (snd (ht_op hash x t))"
    "(\<lambda>k. ht_find hash k (snd (ht_op hash x t))) = snd (map_op x (\<lambda>k. ht_find hash k t))" by blast+
qed

lemma run_ops_simulate:
  assumes "ht_inv hash t"
  shows "fst (run_ops (ht_op hash) xs t) = fst (run_ops map_op xs (\<lambda>k. ht_find hash k t)) \<and> ht_inv hash (snd (run_ops (ht_op hash) xs t)) \<and>
    (\<lambda>k. ht_find hash k (snd (run_ops (ht_op hash) xs t))) = snd (run_ops map_op xs (\<lambda>k. ht_find hash k t))"
  using assms
proof (induction xs arbitrary: t)
  case (Cons x xs)
  note s = ht_op_simulates [OF Cons.prems, of x]
  from Cons.IH [OF s(2)] s(1,3) show ?case by (simp add: split_beta)
qed simp

text \<open>
  C14. The trie is a map: on an empty trie, any insertions and erasures give the same results as on a map that is empty, a key that is too long
  being refused by both; and the map that is left has what the trie finds, its longest prefixes and as many keys.
  Bursting a leaf, growing a table and removing empty nodes can not be seen.
\<close>

theorem htrie_refines_map:
  assumes "threshold \<le> 65535" "run_ops (ht_op hash) ops (ht_make threshold) = (rs, t)" "run_ops map_op ops Map.empty = (rs', m)"
  shows "rs = rs' \<and> ht_find hash k t = m k \<and> ht_longest_prefix hash s t = longest_prefix m s \<and> ht_nb_elements t = card (dom m)"
proof -
  have e: "(\<lambda>k. ht_find hash k (ht_make threshold)) = Map.empty" by (simp add: ht_make_find)
  have "ht_inv hash (ht_make threshold)" using assms(1) by (intro ht_make_inv) simp
  from run_ops_simulate [OF this, of ops] have "rs = rs'" "ht_inv hash t" and m: "(\<lambda>k. ht_find hash k t) = m"
    using assms(2,3) by (simp_all add: e)
  moreover have "ht_longest_prefix hash s t = longest_prefix m s" by (simp add: ht_longest_prefix_eq m)
  moreover have "ht_nb_elements t = card (dom m)" using \<open>ht_inv hash t\<close> by (simp add: ht_inv_def m)
  ultimately show ?thesis by (simp add: fun_cong [OF m, of k])
qed

definition sample_ops :: "nat trie_op list" where
  "sample_ops = [Insert ''/a'' 1, Insert ''/ab'' 2, Insert ''/b'' 3, Insert ''/a/c'' 4, Insert ''/a'' 5, Insert [] 6, Erase ''/ab'', Erase ''/c'']"

theorem htrie_refines_map_witness:
  "fst (run_ops (ht_op (\<lambda>_. 0)) sample_ops (ht_make 4)) = [Inr True, Inr True, Inr True, Inr True, Inr False, Inr True, Inr True, Inr False] \<and>
    ht_find (\<lambda>_. 0) ''/a'' (snd (run_ops (ht_op (\<lambda>_. 0)) sample_ops (ht_make 4))) = Some 1 \<and>
    ht_longest_prefix (\<lambda>_. 0) ''/abc'' (snd (run_ops (ht_op (\<lambda>_. 0)) sample_ops (ht_make 4))) = Some ''/a''"
proof -
  have rs: "fst (run_ops map_op sample_ops Map.empty) = [Inr True, Inr True, Inr True, Inr True, Inr False, Inr True, Inr True, Inr False]"
    by (simp add: sample_ops_def inserted_def key_fits_def MAX_KEY_SIZE_def)
  have m: "snd (run_ops map_op sample_ops Map.empty) = [''/a'' \<mapsto> 1, ''/b'' \<mapsto> 3, ''/a/c'' \<mapsto> 4, [] \<mapsto> 6]"
    by (simp add: sample_ops_def inserted_def key_fits_def MAX_KEY_SIZE_def fun_eq_iff)
  have "longest_prefix [''/a'' \<mapsto> 1 :: nat, ''/b'' \<mapsto> 3, ''/a/c'' \<mapsto> 4, [] \<mapsto> 6] ''/abc'' = Some ''/a''"
    by (simp add: longest_prefix.simps)
  then show ?thesis
    using htrie_refines_map [of 4 "\<lambda>_. 0" sample_ops, OF _ prod.collapse [symmetric] prod.collapse [symmetric], of "''/a''" "''/abc''"]
    by (simp add: rs m)
qed

end
