(* ===== verification/Spec2Isabelle.thy ===== *)
theory Spec2Isabelle
  imports Msg_Writer Pattern Host_Address Io_Queue Async_Loop Sockets Server Service_Reactor Http_Client
    Life_Lock Deposit Afar Server_Management Msg_Owned Htrie
begin

text \<open>
  A verification library for \<open>telling\<close>, a C++ library of messages in the manner of HTTP over the sockets of NNG. All paths below
  are relative to \<open>src/\<close>.

  \<^bold>\<open>The program.\<close> A message is a start-line, header lines and a body in one buffer. \<open>MsgWriter\<close> composes it and \<open>MsgView\<close> parses
  it and keeps a compact description of where its parts are. Messages travel between sockets in three patterns: requests with replies, pushes, and
  reports that are published. For each pattern and side there is a communicator: it drives asynchronous operations of NNG and
  calls a handler from their callbacks. A client and a service are three communicators each. A server stands between them: services
  register a path with its directory, and the relays of the server pass each message to the service with the longest registered
  prefix of its target, and the replies and reports back. An HTTP client speaks to other servers. Handlers are called only while
  they live, which a lock on their lifetime guarantees.

  \<^bold>\<open>Conventions.\<close> Strings are lists of bytes, machine integers are words where their width matters. An exception is a value of type \<open>exn\<close>, and a
  function that may throw and changes state gives a result and the state that the exception leaves behind; undefined behaviour is the
  exception \<open>Undefined\<close>, and an exception that leaves a callback of NNG is \<open>Terminate\<close>. NNG itself is not under \<open>src/\<close>: the outcome of each
  call of it, and the identifiers it gives out, are arguments; what is relied on, such as that a new context is not one in
  use, is a hypothesis of the theorems that need it. A weak pointer that has expired is \<open>None\<close>. What runs concurrently is an inductive step relation; a thread
  is a value that says where it is, and the locks it holds follow from that.

  \<^bold>\<open>Messages.\<close>
  \<^item> \<open>Prelude\<close>, \<open>Decimal\<close>: words, characters, decimal text and the lemma collections.
  \<^item> \<open>Http_Status\<close> (\<open>util/HttpStatusCodes_C++11.h\<close>, \<open>msg_status.h\<close>), \<open>Msg_Method\<close>, \<open>Msg_Protocol\<close>, \<open>Msg_Uri\<close>, \<open>Msg_Util\<close> (headers of the same
    names under \<open>include/telling/\<close>): the elements of a start-line and their round trips, sets of methods as bits, walking a path from either
    end, consuming lines and words, and the exceptions.
  \<^item> \<open>Msg_Headers\<close>, \<open>Msg_Layout\<close>, \<open>Msg_View\<close> (\<open>msg_headers.h\<close>, \<open>msg_layout.h\<close>, \<open>msg_view.h\<close>, \<open>msg_view.cpp\<close>): parsing. After any successful parse every part lies in the
    message, in 64-bit arithmetic.
  \<^item> \<open>Msg_Writer\<close> (\<open>msg_writer.h\<close>, \<open>msg_writer.cpp\<close>): composing, with all its refusals; what was composed is parsed back, with the content length filled in.
  \<^item> \<open>Msg_Owned\<close> (\<open>msg.h\<close>): the objects that own a message; one owner each, over moves, assignments and clones, as long as no copy for a clone fails.

  \<^bold>\<open>Transport.\<close>
  \<^item> \<open>Pattern\<close>, \<open>Host_Address\<close> (\<open>pattern.h\<close>, \<open>host_address.h\<close>): protocols by role and pattern, addresses and their text.
  \<^item> \<open>Sockets\<close> (\<open>socket.h\<close>, \<open>socket.cpp\<close>): sockets with dialers and listeners, pipe events, communicators; connecting several sockets
    connects all or none. Locale \<open>connector\<close> is what dialing and listening have in common.
  \<^item> \<open>Io_Queue\<close>, \<open>Async_Loop\<close> (\<open>io_queue.h\<close>, \<open>async.h\<close>, \<open>async_loop.h\<close>, \<open>async_queue.h\<close>): queues of messages and the loops over one operation; every accepted message is
    transmitted, lost to a failure or to closing, under way or queued, and in order. Locale \<open>outbox\<close> is the contract of a queue that sends one at a time.

  \<^bold>\<open>Communicators.\<close>
  \<^item> \<open>Client_Request\<close> (\<open>client_request.h\<close>, \<open>.cpp\<close>): the pool of actions and which of them an exception loses, the wait of the destructor, the course of a query, and the box whose futures are all settled. Locale \<open>query_handler\<close> is
    what the course of a query relies on in its handler.
  \<^item> \<open>Service_Reply\<close> (\<open>service_reply.h\<close>, \<open>.cpp\<close>): receiving and responding; contexts are never shared, and responding refines the queued sender.
  \<^item> \<open>Communicators\<close> (\<open>client_push.h\<close>, \<open>client_subscribe.h\<close>, \<open>service_pull.h\<close>, \<open>service_publish.h\<close>, \<open>client.h\<close>, \<open>service.h\<close>): the other communicators, clients and services.
  \<^item> \<open>Service_Registration\<close>, \<open>Service_Reactor\<close>: registering with a server, and services as methods chosen by the method of a request.
  \<^item> \<open>Http_Client\<close> (\<open>http_client.h\<close>, \<open>.cpp\<close>): the client with its pool of actions and its box of futures.

  \<^bold>\<open>Server.\<close>
  \<^item> \<open>Server_Services\<close>, \<open>Server_Management\<close> (\<open>server.h\<close>, \<open>server_services.cpp\<close>): routes, registration, and the management thread from its start to the destructor. The directory
    is a map of HOL, with the reference search for the longest prefix. A path stays in it until a pipe that registered it goes; a pass of the thread may end in an
    exception, and does so only when a communicator is not ready or a name does not fit the map.
  \<^item> \<open>Prefix_Map\<close>: this search, and the locale \<open>prefix_map\<close> of what the directory relies on in its map. The maps of HOL are one interpretation.
  \<^item> \<open>Array_Hash\<close>, \<open>Htrie\<close> (\<open>thirdparty/include/tsl\<close>: \<open>array_growth_policy.h\<close>, \<open>array_hash.h\<close>, \<open>htrie_hash.h\<close>): the map the program has, a trie whose leaves are hash tables
    that burst. It is the other interpretation, and over any operations it gives what a map gives, so that the directory may be read as one.
  \<^item> \<open>Server\<close> (\<open>server.cpp\<close>, \<open>server_reply.cpp\<close>, \<open>server_pull.cpp\<close>, \<open>server_publish.cpp\<close>): the relays.
  \<^item> This theory: a registration from the request to what the registrant makes of the answer.

  \<^bold>\<open>Lifetimes and calls.\<close>
  \<^item> \<open>Life_Lock\<close> (\<open>thirdparty/include/life_lock.hpp\<close>): no object is destroyed while a reference to it is held, and destruction completes; an object that was retired first is never destroyed.
  \<^item> \<open>Afar\<close> (\<open>afar.h\<close>): functors called by name, under interleaving; \<open>Deposit\<close> (\<open>deposit.h\<close>): objects left for a time, and the thread that sweeps
    them.

  \<^bold>\<open>Bounds.\<close> No definition runs on fuel. Loops are recursion on the rest of the input or have a measure; the search for a claim number ends because the number is a 32-bit word. The wait
  of a lifetime lock reads a list of the values that it finds, and the theorem on it is about every list in which the lock expires;
  the wait of a request communicator for its actions reads a list of completions, and two for each active action are enough, whatever they are.
  Lengths are bounded by \<open>2 ^ 64\<close>, the width of a size, and a head by \<open>65535\<close>, the width of its fields, where the code relies on it.

  \<^bold>\<open>Not modelled.\<close> What other threads do between the request of a box and the taking of its future, which are one step; the text of the log; the threads and devices that NNG runs itself; the settings of TLS; the alternatives of \<open>life_lock.hpp\<close> that are chosen at compile time
  (one word for reference and status, waiting by C++20); iterators and stream buffers beyond the bytes they give; the
  class \<open>telling_jsonapi/service.h\<close>, which is a sketch that does not compile; the tests. Of the libraries under \<open>thirdparty/include\<close>, copies of other projects, only what the program uses is modelled: of the trie
  and its tables not the bytes of a bucket, iterators, copying, serialization or erasing by prefix; of \<open>uuid.h\<close> and \<open>shared_anchor.hpp\<close> nothing.
  The hash function is arbitrary; the threshold at which a leaf bursts is at most \<open>65535\<close>, the most entries that a table holds.
\<close>

section \<open>A registration at the directory\<close>

text \<open>The request arrives: the directory notes the name and leaves it to the management thread.\<close>

lemma registration_arrives:
  assumes inv: "services_inv s" and ctx: "rp_ctx_recv (sv_register s) = Some q" and fresh: "fresh_ctx (Inr q') (sv_register s)"
    and name: "name = (if as_name = [] then path else as_name)" "name \<noteq> []" "no_newline name" "no_newline path" "length name + length path < 2 ^ 62"
  obtains m rm reg' where "registration_message path as_name = Inr (Some m)"
    "services_aioReceived (Inr q') pipeID (Inr m) s = (Inr (), s\<lparr>sv_registrationMap := rm,
      sv_route_open := sv_route_open s @ [\<lparr>nr_queryID = q, nr_pipeID = pipeID, nr_map_uri = name, nr_host = host_InProc name\<rparr>],
      sv_register := reg'\<rparr>)"
    "sending reg' = sending (sv_register s)" "co_socket reg' = co_socket (sv_register s)"
    "q \<in> rp_unresponded reg'"
proof -
  have rm: "registration_message path as_name = registration_message path name" using name(1,2) by (simp add: registration_message_def)
  from registration_message_ok [of name path parse_reset] name(2,5) obtain m v where
    m: "registration_message path name = Inr (Some m)" "msgview_request parse_reset (Some m) = Inr v" "mv_bodyString v = name @ [LF] @ path" by auto
  have "ConsumeLine (name @ [LF] @ path) = (name, path)" "ConsumeLine path = (path, [])"
    using ConsumeLine_LF [OF name(3), of path] ConsumeLine_end [OF name(4)] by simp_all
  with m have r: "services_recv q pipeID m s = (Inr None, s\<lparr>sv_registrationMap := (if pipeID \<in> dom (sv_registrationMap s) then sv_registrationMap s
        else (sv_registrationMap s)(pipeID \<mapsto> name)),
      sv_route_open := sv_route_open s @ [\<lparr>nr_queryID = q, nr_pipeID = pipeID, nr_map_uri = name, nr_host = host_InProc name\<rparr>]\<rparr>)"
    by (simp add: services_recv_def)
  have h: "rp_handler (sv_register s) = Some ()" using inv by (simp add: services_inv_def)
  let ?reg = "(sv_register s)\<lparr>rp_aio_recv := AioReceiving, rp_unresponded := insert q (rp_unresponded (sv_register s)), rp_ctx_recv := Some q', rp_handler := Some ()\<rparr>"
  have a: "reply_aioReceived (answer_with None) (Inr q') (Inr m) (sv_register s) = (Inr (), ?reg)"
    using h ctx by (simp add: reply_aioReceived_def receive_next_def)
  show thesis
    using m(1) r a ctx by (intro that [where m = m and reg' = ?reg]) (simp_all add: rm services_aioReceived_def sending_def)
qed

text \<open>The registrant understands the answers of the directory.\<close>

lemma notice_understood:
  assumes "directory_status st" "notice st body = Inr (Some m)" "length body < 2 ^ 63"
  shows "registration_recv (Some m) d =
    (if isSuccessful st then d\<lparr>rg_status := ENLISTED\<rparr> else d\<lparr>rg_status := FAILED, rg_except := registration_failure st\<rparr>)"
proof -
  note line = directory_line [OF assms(1)]
  let ?text = "msg_head (reply_line Telling st (reasonPhrase st)) (preferred_newline Telling) [(''Content-Type'', ''text/plain'')] @ body"
  have "length ?text < 2 ^ 64" using line(6) assms(3) by simp
  from written_reply [OF _ line(4,5,1,2,3) plain_header_ok line(6) this, of REPLY parse_reset] obtain v where
    "msgview_make parse_reset (Some \<lparr>m_header = [], m_body = ?text\<rparr>) REPLY = Inr v" "mv_status v = st" by (auto simp: protocol_valid_def)
  moreover have "m = \<lparr>m_header = [], m_body = ?text\<rparr>" using assms(2) notice_ok [OF assms(1), of body] by simp
  ultimately show ?thesis by (simp add: registration_recv_def msgview_reply_def)
qed

text \<open>What the registrant makes of the answer, by what happened to the map: the name was taken, was enrolled, or could not be dialed.\<close>

definition registration_outcome :: "string \<Rightarrow> (string \<rightharpoonup> Route) \<Rightarrow> (string \<rightharpoonup> Route) \<Rightarrow> Registration_Delegate \<Rightarrow> Registration_Delegate" where
  "registration_outcome name before after d =
    (if name \<in> dom before then d\<lparr>rg_status := FAILED, rg_except := (nng_addrinuse, ''Registration Request Error'')\<rparr>
     else if name \<in> dom after then d\<lparr>rg_status := ENLISTED\<rparr>
     else d\<lparr>rg_status := FAILED, rg_except := (nng_internal, ''Registration Server Error'')\<rparr>)"

lemma registration_outcome_status:
  assumes "st = (if name \<in> dom before then Conflict else if failed then ServiceUnavailable else OK)"
    and "if st = OK then \<exists>r. after = before(name \<mapsto> r) else after = before"
  shows "registration_outcome name before after d =
    (if isSuccessful st then d\<lparr>rg_status := ENLISTED\<rparr> else d\<lparr>rg_status := FAILED, rg_except := registration_failure st\<rparr>)"
proof -
  have fail: "registration_failure Conflict = (nng_addrinuse, ''Registration Request Error'')"
    "registration_failure ServiceUnavailable = (nng_internal, ''Registration Server Error'')"
    by (simp_all add: registration_failure_def isClientError_def isServerError_def)
  have success: "isSuccessful OK" "\<not> isSuccessful Conflict" "\<not> isSuccessful ServiceUnavailable" by (simp_all add: isSuccessful_def)
  show ?thesis
  proof (cases "name \<in> dom before")
    case True
    with assms(1) fail success show ?thesis by (simp add: registration_outcome_def)
  next
    case False
    with assms fail success show ?thesis by (cases failed) (auto simp: registration_outcome_def)
  qed
qed

lemma pass_answers_one:
  assumes "services_inv s" "services_ready s" "sv_route_open s = [spec]" "sv_route_close s = []"
    and "nr_host spec = host_InProc (nr_map_uri spec)" "key_fits (nr_map_uri spec)"
  obtains s' reply where "management_pass os env s = (Inr (), s')" "answered (nr_queryID spec) reply (sv_register s) (sv_register s')"
    "registration_recv (Some reply) d = registration_outcome (nr_map_uri spec) (sv_map s) (sv_map s') d"
    "\<forall>k. k \<noteq> nr_map_uri spec \<or> k \<in> dom (sv_map s) \<longrightarrow> sv_map s' k = sv_map s k"
proof -
  define t where "t = s\<lparr>sv_route_close := [], sv_route_open := []\<rparr>"
  have same: "sv_map t = sv_map s" "sv_register t = sv_register s" by (simp_all add: t_def)
  have t: "services_inv t" "services_ready t" "nr_queryID spec \<in> rp_unresponded (sv_register t)"
    using assms(1-3) by (auto simp: services_inv_def open_inv_def services_ready_def t_def)
  from open_route_ok [OF t, of os "env spec", unfolded same] assms(6) obtain st body reply s' where
    o: "open_route os (env spec) spec t = (Inr (), s')" "notice st body = Inr (Some reply)"
    "length body \<le> length (nr_map_uri spec) + length (host_string os (nr_host spec)) + 40"
    "answered (nr_queryID spec) reply (sv_register s) (sv_register s')"
    "st = (if nr_map_uri spec \<in> dom (sv_map s) then Conflict else if isl (fst (enroll os (env spec) spec t)) then ServiceUnavailable else OK)"
    "if st = OK then \<exists>r. sv_map s' = (sv_map s)(nr_map_uri spec \<mapsto> r) else sv_map s' = sv_map s"
    by blast
  have "length body < 2 ^ 63" using o(3) assms(5,6) by (simp add: host_string_def host_InProc_def key_fits_def MAX_KEY_SIZE_def)
  moreover have "directory_status st" using o(5) by (simp add: directory_status_def)
  ultimately have "registration_recv (Some reply) d = registration_outcome (nr_map_uri spec) (sv_map s) (sv_map s') d"
    unfolding registration_outcome_status [OF o(5,6)] using notice_understood [OF _ o(2)] by blast
  moreover have "\<forall>k. k \<noteq> nr_map_uri spec \<or> k \<in> dom (sv_map s) \<longrightarrow> sv_map s' k = sv_map s k"
    using o(5,6) by (cases "st = OK") (auto split: if_splits)
  moreover have "management_pass os env s = (Inr (), s'\<lparr>sv_route_open := []\<rparr>)"
    using o(1) assms(3,4) by (simp add: management_pass_def ebind_def t_def)
  ultimately show thesis using o(4) by (intro that [of "s'\<lparr>sv_route_open := []\<rparr>" reply]) simp_all
qed

section \<open>Registration from end to end\<close>

text \<open>
  C4. A registration and the directory agree: whenever the directory is idle and a registration request arrives, the next pass of the
  management thread sends one answer to it, whatever comes of dialing the service; the registrant, receiving this answer, takes itself for enlisted
  exactly when the directory has put its name in the map, and is told of a conflict exactly when the name was taken before; then the
  name and everything under it that no longer name has is routed to it; and no other route changes.
\<close>

theorem registration_end_to_end:
  assumes "services_make os (Inr c) listened dialed ID reg pub sub = (Inr (), s0)" "(services_step os)\<^sup>*\<^sup>* s0 s" "services_ready s"
    and "sv_route_open s = []" "sv_route_close s = []" "rp_ctx_recv (sv_register s) = Some q" "fresh_ctx (Inr q') (sv_register s)"
    and name: "name = (if as_name = [] then path else as_name)" "name \<noteq> []" "no_newline name" "no_newline path" "key_fits name" "length path < 2 ^ 60"
  shows "\<exists>m s1 s2 reply. registration_message path as_name = Inr (Some m) \<and>
    services_aioReceived (Inr q') pipeID (Inr m) s = (Inr (), s1) \<and> management_pass os env s1 = (Inr (), s2) \<and>
    sending (sv_register s2) = sending (sv_register s) @ [(q, reply)] \<and>
    registration_recv (Some reply) d = registration_outcome name (sv_map s) (sv_map s2) d \<and>
    (name \<in> dom (sv_map s2) \<longrightarrow> longest_prefix (sv_map s2) name = Some name) \<and>
    (\<forall>k. k \<noteq> name \<or> k \<in> dom (sv_map s) \<longrightarrow> sv_map s2 k = sv_map s k)"
proof -
  have inv: "services_inv s" using services_inv_reach [OF assms(2) services_inv_make [OF assms(1)]] .
  define spec where "spec = \<lparr>nr_queryID = q, nr_pipeID = pipeID, nr_map_uri = name, nr_host = host_InProc name\<rparr>"
  have len: "length name + length path < 2 ^ 62" using name(5,6) by (simp add: key_fits_def MAX_KEY_SIZE_def)
  obtain m rm reg' where m: "registration_message path as_name = Inr (Some m)"
    "services_aioReceived (Inr q') pipeID (Inr m) s = (Inr (), s\<lparr>sv_registrationMap := rm, sv_route_open := sv_route_open s @ [spec], sv_register := reg'\<rparr>)"
    "sending reg' = sending (sv_register s)" "co_socket reg' = co_socket (sv_register s)" "q \<in> rp_unresponded reg'"
    unfolding spec_def by (rule registration_arrives [OF inv assms(6,7) name(1-4) len])
  let ?s1 = "s\<lparr>sv_registrationMap := rm, sv_route_open := sv_route_open s @ [spec], sv_register := reg'\<rparr>"
  have s1: "services_inv ?s1" "services_ready ?s1" "sv_route_open ?s1 = [spec]" "sv_route_close ?s1 = []"
    using recv_inv [OF inv assms(7) m(2)] assms(3-5) m(4) by (simp_all add: services_ready_def communicator_isReady_def)
  obtain s2 reply where s2: "management_pass os env ?s1 = (Inr (), s2)" "answered (nr_queryID spec) reply (sv_register ?s1) (sv_register s2)"
    "registration_recv (Some reply) d = registration_outcome (nr_map_uri spec) (sv_map ?s1) (sv_map s2) d"
    "\<forall>k. k \<noteq> nr_map_uri spec \<or> k \<in> dom (sv_map ?s1) \<longrightarrow> sv_map s2 k = sv_map ?s1 k"
    using name(5) by (elim pass_answers_one [OF s1, of os env d, rotated 2]) (simp_all add: spec_def)
  have "longest_prefix (sv_map s2) name = Some name" if "name \<in> dom (sv_map s2)"
    using that by (intro routes.longest_unique) (auto dest: prefix_length_le)
  then show ?thesis
    using m(1-3) s2 by (intro exI [of _ m] exI [of _ ?s1] exI [of _ s2] exI [of _ reply]) (simp add: answered_def spec_def)
qed

theorem registration_end_to_end_witness:
  "\<exists>m s1 s2 reply. registration_message ''/a'' [] = Inr (Some m) \<and>
    services_aioReceived (Inr 2) 4 (Inr m) (snd (example_directory Apple)) = (Inr (), s1) \<and>
    management_pass Apple (\<lambda>_. example_outcomes) s1 = (Inr (), s2) \<and> sending (sv_register s2) = [(1, reply)] \<and>
    (rg_status (registration_recv (Some reply) registration_new) = ENLISTED \<longleftrightarrow> ''/a'' \<in> dom (sv_map s2))"
proof -
  let ?s = "snd (example_directory Apple)"
  have "fresh_ctx (Inr 2) (sv_register ?s)" "sending (sv_register ?s) = []"
    by (simp_all add: fresh_ctx_def reply_contexts_def example_made sending_def sq_new_def)
  moreover have "no_newline ''/a''" "key_fits ''/a''" by (simp_all add: no_newline_def key_fits_def MAX_KEY_SIZE_def)
  ultimately obtain m s1 s2 reply where "registration_message ''/a'' [] = Inr (Some m)"
    "services_aioReceived (Inr 2) 4 (Inr m) ?s = (Inr (), s1)" "management_pass Apple (\<lambda>_. example_outcomes) s1 = (Inr (), s2)"
    "sending (sv_register s2) = [(1, reply)]"
    "registration_recv (Some reply) registration_new = registration_outcome ''/a'' Map.empty (sv_map s2) registration_new"
    using registration_end_to_end [OF example_make rtranclp.rtrancl_refl example_made(2,5,6,8), where os = Apple and q' = 2 and name = "''/a''" and as_name = "[]" and path = "''/a''"
      and pipeID = 4 and env = "\<lambda>_. example_outcomes" and d = registration_new]
    by (simp add: example_made(3)) blast
  then show ?thesis
    by (intro exI [of _ m] exI [of _ s1] exI [of _ s2] exI [of _ reply]) (simp add: registration_outcome_def registration_new_def)
qed

text \<open>
  C37. A name that is longer than a key of the map ends the program: a registration with such a name is accepted, and the next pass of the
  management thread, if it gets as far as to make the route, ends with an exception that nothing handles.
\<close>

theorem long_name_ends_program:
  assumes "services_make os (Inr c) listened dialed ID reg pub sub = (Inr (), s0)" "(services_step os)\<^sup>*\<^sup>* s0 s"
    and "sv_route_open s = []" "sv_route_close s = []" "rp_ctx_recv (sv_register s) = Some q" "fresh_ctx (Inr q') (sv_register s)"
    and name: "\<not> key_fits name" "no_newline name" "length name < 2 ^ 60" "name \<notin> dom (sv_map s)" "\<And>spec. \<not> isl (route_make (env spec) name)"
  shows "\<exists>m s1. registration_message name [] = Inr (Some m) \<and> services_aioReceived (Inr q') pipeID (Inr m) s = (Inr (), s1) \<and>
    fst (management_pass os env s1) = Inl Terminate"
proof -
  have inv: "services_inv s" using services_inv_reach [OF assms(2) services_inv_make [OF assms(1)]] .
  have n: "name = (if [] = [] then name else [])" "name \<noteq> []" "length name + length name < 2 ^ 62"
    using name(1,3) by (auto simp: key_fits_def)
  define spec where "spec = \<lparr>nr_queryID = q, nr_pipeID = pipeID, nr_map_uri = name, nr_host = host_InProc name\<rparr>"
  obtain m rm reg' where m: "registration_message name [] = Inr (Some m)"
    "services_aioReceived (Inr q') pipeID (Inr m) s = (Inr (), s\<lparr>sv_registrationMap := rm, sv_route_open := sv_route_open s @ [spec], sv_register := reg'\<rparr>)"
    unfolding spec_def by (rule registration_arrives [OF inv assms(5,6) n(1,2) name(2,2) n(3)])
  obtain r where r: "route_make (env spec) name = Inr r" using name(5) [of spec] by (cases "route_make (env spec) name") auto
  let ?s1 = "s\<lparr>sv_registrationMap := rm, sv_route_open := sv_route_open s @ [spec], sv_register := reg'\<rparr>"
  have "fst (management_pass os env ?s1) = Inl Terminate"
    using assms(3,4) name(1,4) r by (simp add: management_pass_def open_route_def enroll_def spec_def)
  with m show ?thesis by blast
qed

theorem long_name_ends_program_witness:
  "\<exists>m s1. registration_message (replicate 65535 CHR ''a'') [] = Inr (Some m) \<and>
    services_aioReceived (Inr 2) 4 (Inr m) (snd (example_directory Apple)) = (Inr (), s1) \<and>
    fst (management_pass Apple (\<lambda>_. example_outcomes) s1) = Inl Terminate"
proof (rule long_name_ends_program [OF example_make rtranclp.rtrancl_refl example_made(5,6,8)])
  show "fresh_ctx (Inr 2) (sv_register (snd (example_directory Apple)))"
    by (simp add: fresh_ctx_def reply_contexts_def example_made sending_def sq_new_def)
  have "Choose CLIENT REQ_REP \<noteq> NO_PROTOCOL" "Choose CLIENT PUSH_PULL \<noteq> NO_PROTOCOL" by (simp_all add: Choose_eq_no_protocol)
  then show "\<not> isl (route_make example_outcomes name)" for name
    by (simp add: route_make_def example_outcomes_def socket_make_def communicator_make_def Let_def)
qed (simp_all add: key_fits_def MAX_KEY_SIZE_def no_newline_def example_made)

end
